(* ===== verification/Prelude.thy ===== *)
theory Prelude
  imports Main "HOL-Library.Word" "HOL-Library.Sublist"
begin

text \<open>
  Shared vocabulary of the development.

  \<^item> A C++ \<^verbatim>\<open>char\<close> is a HOL \<^typ>\<open>char\<close> (a datatype of eight bits), so \<^verbatim>\<open>std::string\<close>,
    \<^verbatim>\<open>std::string_view\<close> and \<^verbatim>\<open>std::vector<char>\<close> are all \<^typ>\<open>string\<close>. Where the code computes
    with the bits of a byte it converts to \<^verbatim>\<open>unsigned char\<close>; \<open>u8\<close> and \<open>chr8\<close> below are
    that conversion and its inverse.
  \<^item> \<^verbatim>\<open>htons/htonl/hton64\<close> followed by copying the object representation puts the most
    significant byte first on every host; \<open>be16\<close>, \<open>be32\<close> and \<open>be64\<close> are these compositions
    and \<open>rd16\<close>, \<open>rd32\<close>, \<open>rd64\<close> the reads composed with \<^verbatim>\<open>ntohs/ntohl/ntoh64\<close>.
  \<^item> \<open>search\<close> is \<^verbatim>\<open>std::search\<close> with \<open>None\<close> for "not found".
  \<^item> The collections \<open>buffer_simps\<close> (what an operation does to the unread bytes),
    \<open>wf_intros\<close> (what keeps an invariant) and \<open>char_eval\<close> (evaluation of byte level
    functions at literals) are filled by the component theories.
\<close>

section \<open>Collections of facts\<close>

named_theorems buffer_simps "effect of buffer operations on the unread bytes"
named_theorems wf_intros "operations keep the component invariants"
named_theorems char_eval "evaluation of byte level functions at literals"

section \<open>Bytes\<close>

type_synonym u8 = "8 word"
type_synonym u16 = "16 word"
type_synonym u32 = "32 word"
type_synonym u64 = "64 word"

definition u8 :: "char \<Rightarrow> u8" where
  "u8 c = of_char c"

definition chr8 :: "u8 \<Rightarrow> char" where
  "chr8 w = char_of (unat w)"

lemma u8_of_nat: "u8 c = of_nat (of_char c)"
  by (simp add: u8_def of_nat_of_char)

lemma of_char_lt_256: "(of_char c :: nat) < 256"
  by (metis of_char_mod_256 mod_less_divisor zero_less_numeral)

lemma unat_u8: "unat (u8 c) = of_char c"
  by (simp add: u8_of_nat unat_of_nat take_bit_eq_mod)

lemma chr8_u8 [simp]: "chr8 (u8 c) = c"
  by (simp add: chr8_def unat_u8)

lemma u8_chr8 [simp]: "u8 (chr8 w) = w"
proof (rule word_unat_eq_iff [THEN iffD2])
  have "unat w < 256"
    using unsigned_less [of w] by simp
  then show "unat (u8 (chr8 w)) = unat w"
    by (simp add: unat_u8 chr8_def)
qed

lemma u8_eq_iff [simp]: "u8 c = u8 d \<longleftrightarrow> c = d"
  by (metis chr8_u8)

lemma chr8_eq_iff [simp]: "chr8 v = chr8 w \<longleftrightarrow> v = w"
  by (metis u8_chr8)

lemma chr8_eq_conv: "chr8 w = c \<longleftrightarrow> w = u8 c"
  by auto

abbreviation CR :: char where "CR \<equiv> CHR 0x0D"
abbreviation LF :: char where "LF \<equiv> CHR 0x0A"
abbreviation SP :: char where "SP \<equiv> CHR 0x20"
abbreviation HT :: char where "HT \<equiv> CHR 0x09"
abbreviation NUL :: char where "NUL \<equiv> CHR 0x00"
abbreviation CRLF :: string where "CRLF \<equiv> [CR, LF]"

section \<open>Network byte order\<close>

definition be16 :: "u16 \<Rightarrow> string" where
  "be16 w = [chr8 (ucast (drop_bit 8 w)), chr8 (ucast w)]"

definition be32 :: "u32 \<Rightarrow> string" where
  "be32 w = [chr8 (ucast (drop_bit 24 w)), chr8 (ucast (drop_bit 16 w)),
             chr8 (ucast (drop_bit 8 w)), chr8 (ucast w)]"

definition be64 :: "u64 \<Rightarrow> string" where
  "be64 w = be32 (ucast (drop_bit 32 w)) @ be32 (ucast w)"

definition rd16 :: "string \<Rightarrow> u16" where
  "rd16 s = or (push_bit 8 (ucast (u8 (s ! 0)))) (ucast (u8 (s ! 1)))"

definition rd32 :: "string \<Rightarrow> u32" where
  "rd32 s = or (push_bit 24 (ucast (u8 (s ! 0)))) (or (push_bit 16 (ucast (u8 (s ! 1))))
              (or (push_bit 8 (ucast (u8 (s ! 2)))) (ucast (u8 (s ! 3)))))"

definition rd64 :: "string \<Rightarrow> u64" where
  "rd64 s = or (push_bit 32 (ucast (rd32 s))) (ucast (rd32 (drop 4 s)))"

lemma length_be [simp]:
  "length (be16 v) = 2" "length (be32 w) = 4" "length (be64 x) = 8"
  by (simp_all add: be16_def be32_def be64_def)

lemma bit_word_byte: "bit (ucast (u :: u8) :: 'a::len word) n \<longleftrightarrow> n < 8 \<and> n < LENGTH('a) \<and> bit u n"
  using bit_imp_le_length [of u n] by (auto simp: bit_ucast_iff)

lemma rd16_be16 [simp]: "rd16 (be16 w @ s) = w"
  by (rule bit_word_eqI)
    (auto simp: rd16_def be16_def bit_or_iff bit_push_bit_iff bit_drop_bit_eq bit_ucast_iff
      dest: bit_imp_le_length)

lemma rd32_be32 [simp]: "rd32 (be32 w @ s) = w"
proof (rule bit_word_eqI)
  fix n
  assume n: "n < LENGTH(32)"
  then consider "n < 8" | "8 \<le> n" "n < 16" | "16 \<le> n" "n < 24" | "24 \<le> n" "n < 32"
    by fastforce
  then show "bit (rd32 (be32 w @ s)) n \<longleftrightarrow> bit w n"
    by cases (auto simp: rd32_def be32_def bit_or_iff bit_push_bit_iff bit_drop_bit_eq bit_ucast_iff)
qed

lemma rd64_be64 [simp]: "rd64 (be64 w @ s) = w"
proof -
  have hi: "rd32 (be64 w @ s) = ucast (drop_bit 32 w)"
    by (simp add: be64_def)
  have lo: "rd32 (drop 4 (be64 w @ s)) = ucast w"
    by (simp add: be64_def)
  show ?thesis
    unfolding rd64_def hi lo
    by (rule bit_word_eqI)
      (auto simp: bit_or_iff bit_push_bit_iff bit_drop_bit_eq bit_ucast_iff dest: bit_imp_le_length)
qed

section \<open>Searching\<close>

fun search :: "'a list \<Rightarrow> 'a list \<Rightarrow> nat option" where
  "search pat [] = (if pat = [] then Some 0 else None)"
| "search pat (x # xs) =
     (if prefix pat (x # xs) then Some 0 else map_option Suc (search pat xs))"

lemma search_Some_prefix: "search pat s = Some i \<Longrightarrow> prefix pat (drop i s)"
  by (induction pat s arbitrary: i rule: search.induct) (auto split: if_splits)

lemma search_Some_first: "search pat s = Some i \<Longrightarrow> j < i \<Longrightarrow> \<not> prefix pat (drop j s)"
proof (induction pat s arbitrary: i j rule: search.induct)
  case (2 pat x xs)
  then show ?case by (cases j) (auto split: if_splits)
qed (auto split: if_splits)

lemma search_None: "search pat s = None \<Longrightarrow> \<not> prefix pat (drop j s)"
proof (induction pat s arbitrary: j rule: search.induct)
  case (2 pat x xs)
  then show ?case by (cases j) (auto split: if_splits)
qed (auto split: if_splits)

lemma search_eq_SomeI:
  assumes "prefix pat (drop i s)" and "\<And>j. j < i \<Longrightarrow> \<not> prefix pat (drop j s)" and "i \<le> length s"
  shows "search pat s = Some i"
proof (cases "search pat s")
  case None
  then show ?thesis using assms(1) search_None by blast
next
  case (Some k)
  then have "\<not> i < k" using assms(1) search_Some_first by blast
  moreover have "\<not> k < i" using Some assms(2) search_Some_prefix by blast
  ultimately show ?thesis using Some by simp
qed

lemma search_Some_split:
  assumes "search pat s = Some i"
  shows "s = take i s @ pat @ drop (i + length pat) s"
proof -
  from assms have "prefix pat (drop i s)" by (rule search_Some_prefix)
  then obtain r where r: "drop i s = pat @ r" by (auto simp: prefix_def)
  then have "drop (length pat) (drop i s) = r" by simp
  then have "drop (i + length pat) s = r" by (simp add: add.commute)
  with r show ?thesis by (metis append_take_drop_id)
qed

lemma search_Some_le: "search pat s = Some i \<Longrightarrow> i + length pat \<le> length s"
proof (induction pat s arbitrary: i rule: search.induct)
  case (2 pat x xs)
  then show ?case by (auto split: if_splits dest: prefix_length_le)
qed (auto split: if_splits)

text \<open>Once an occurrence has been found, data arriving later does not move it.\<close>

lemma search_append_Some: "search pat s = Some i \<Longrightarrow> search pat (s @ t) = Some i"
proof (induction pat s arbitrary: i rule: search.induct)
  case (1 pat)
  then show ?case by (cases t) (auto split: if_splits)
next
  case (2 pat x xs)
  show ?case
  proof (cases "prefix pat (x # xs)")
    case True
    then have "prefix pat ((x # xs) @ t)" by (rule prefix_prefix)
    with True 2 show ?thesis by auto
  next
    case False
    with 2(2) obtain k where k: "search pat xs = Some k" "i = Suc k" by auto
    then have "k + length pat \<le> length xs" by (simp add: search_Some_le)
    with False have "\<not> prefix pat (x # xs @ t)"
      using prefix_length_prefix [of pat "x # xs @ t" "x # xs"] by auto
    with 2(1) False k show ?thesis by simp
  qed
qed

lemma search_single: "search [c] s = Some i \<longleftrightarrow> c \<in> set s \<and> i = length (takeWhile (\<lambda>x. x \<noteq> c) s)"
  by (induction s arbitrary: i) auto

lemma search_single_None: "search [c] s = None \<longleftrightarrow> c \<notin> set s"
  by (induction s) auto

lemma search_char: "c \<notin> set s \<Longrightarrow> search [c] (s @ c # t) = Some (length s)"
  by (induction s) auto

lemma search_CRLF_line: "CR \<notin> set s \<Longrightarrow> search CRLF (s @ CR # LF # t) = Some (length s)"
  by (induction s) auto

section \<open>Lists\<close>

lemma takeWhile_append_stop: "\<forall>x \<in> set xs. P x \<Longrightarrow> \<not> P y \<Longrightarrow> takeWhile P (xs @ y # ys) = xs"
  by (induction xs) auto

lemma dropWhile_append_stop: "\<forall>x \<in> set xs. P x \<Longrightarrow> \<not> P y \<Longrightarrow> dropWhile P (xs @ y # ys) = y # ys"
  by (induction xs) auto

lemma take_append_self: "take (length xs) (xs @ ys) = xs"
  by simp

lemma drop_line: "drop (length xs + 2) (xs @ CR # LF # ys) = ys"
  by simp

lemma length_dropWhile_lt: "dropWhile P xs \<noteq> [] \<Longrightarrow> length (tl (dropWhile P xs)) < length xs"
  by (metis diff_less le_less_trans length_dropWhile_le length_greater_0_conv length_tl less_one
      linorder_not_le diff_le_self le_neq_implies_less less_le_trans)

lemma tl_dropWhile_lt [simp, intro]: "x \<in> set xs \<Longrightarrow> \<not> P x \<Longrightarrow> length (tl (dropWhile P xs)) < length xs"
  by (rule length_dropWhile_lt) auto

end
