(* ===== verification/Util.thy ===== *)
theory Util
  imports Prelude
begin

text \<open>
  The string, number and file helpers of \<^verbatim>\<open>include/angel/util.h\<close> and \<^verbatim>\<open>src/util.cc\<close>: character
  classes of the C locale, case-insensitive comparison (\<^verbatim>\<open>strncasecmp\<close>, which stops at a NUL),
  \<^verbatim>\<open>split\<close>, \<^verbatim>\<open>trim\<close>, \<^verbatim>\<open>join\<close>, \<^verbatim>\<open>catviews\<close>, the \<^verbatim>\<open>std::from_chars\<close> based integer parsers,
  \<^verbatim>\<open>check_ip\<close>, \<^verbatim>\<open>parse_conf\<close>, \<^verbatim>\<open>page_aligned\<close> and the \<^verbatim>\<open>read_file\<close>/\<^verbatim>\<open>write_file\<close> loops. The lemmas give
  each helper its specification: splitting and joining are inverse, the number parsers read back
  what \<^verbatim>\<open>std::to_string\<close> prints, \<^verbatim>\<open>check_ip\<close> accepts exactly the canonical dotted quads.
\<close>

section \<open>Character classes (C locale)\<close>

abbreviation code :: "char \<Rightarrow> nat" where
  "code c \<equiv> of_char c"

definition isdigit :: "char \<Rightarrow> bool" where
  "isdigit c \<longleftrightarrow> 48 \<le> code c \<and> code c \<le> 57"

definition isspace :: "char \<Rightarrow> bool" where
  "isspace c \<longleftrightarrow> code c = 32 \<or> (9 \<le> code c \<and> code c \<le> 13)"

definition isupper :: "char \<Rightarrow> bool" where
  "isupper c \<longleftrightarrow> 65 \<le> code c \<and> code c \<le> 90"

definition islower :: "char \<Rightarrow> bool" where
  "islower c \<longleftrightarrow> 97 \<le> code c \<and> code c \<le> 122"

definition isalnum :: "char \<Rightarrow> bool" where
  "isalnum c \<longleftrightarrow> isdigit c \<or> isupper c \<or> islower c"

definition ishexnumber :: "char \<Rightarrow> bool" where
  "ishexnumber c \<longleftrightarrow> isdigit c \<or> (65 \<le> code c \<and> code c \<le> 70) \<or> (97 \<le> code c \<and> code c \<le> 102)"

definition tolower :: "char \<Rightarrow> char" where
  "tolower c = (if isupper c then char_of (code c + 32) else c)"

definition toupper :: "char \<Rightarrow> char" where
  "toupper c = (if islower c then char_of (code c - 32) else c)"

lemmas [char_eval] = isdigit_def isspace_def isupper_def islower_def isalnum_def ishexnumber_def
  tolower_def toupper_def

definition is_digits :: "string \<Rightarrow> bool" where
  "is_digits s \<longleftrightarrow> s \<noteq> [] \<and> list_all isdigit s"

definition to_lower :: "string \<Rightarrow> string" where
  "to_lower s = map tolower s"

definition to_upper :: "string \<Rightarrow> string" where
  "to_upper s = map toupper s"

lemma code_tolower: "code (tolower c) = (if isupper c then code c + 32 else code c)"
  using of_char_lt_256 [of c] by (auto simp: tolower_def isupper_def)

lemma tolower_idem [simp]: "tolower (tolower c) = tolower c"
  by (auto simp: tolower_def isupper_def)

lemma tolower_NUL [simp]: "tolower c = NUL \<longleftrightarrow> c = NUL"
proof -
  have "tolower c = NUL \<longleftrightarrow> code (tolower c) = code NUL" by (simp only: of_char_eq_iff)
  also have "\<dots> \<longleftrightarrow> code c = code NUL" by (simp add: code_tolower isupper_def)
  finally show ?thesis by (simp only: of_char_eq_iff)
qed

section \<open>Comparison\<close>

text \<open>
  \<^verbatim>\<open>strncasecmp(s1, s2, n) == 0\<close>: equal up to case for \<open>n\<close> characters or up to a common NUL.
  Every caller checks the lengths first, so the last equation is never reached by the code.
\<close>

fun strncase_eq :: "string \<Rightarrow> string \<Rightarrow> nat \<Rightarrow> bool" where
  "strncase_eq xs ys 0 = True"
| "strncase_eq (x # xs) (y # ys) (Suc n) =
     (if tolower x \<noteq> tolower y then False else if x = NUL then True else strncase_eq xs ys n)"
| "strncase_eq xs ys (Suc n) = False"

definition equal_case :: "string \<Rightarrow> string \<Rightarrow> bool" where
  "equal_case s1 s2 \<longleftrightarrow> length s1 = length s2 \<and> strncase_eq s1 s2 (length s1)"

definition starts_with :: "string \<Rightarrow> string \<Rightarrow> bool" where
  "starts_with s pre \<longleftrightarrow> length pre \<le> length s \<and> take (length pre) s = pre"

definition starts_with_case :: "string \<Rightarrow> string \<Rightarrow> bool" where
  "starts_with_case s pre \<longleftrightarrow> length pre \<le> length s \<and> strncase_eq s pre (length pre)"

definition ends_with :: "string \<Rightarrow> string \<Rightarrow> bool" where
  "ends_with s suf \<longleftrightarrow> length suf \<le> length s \<and> drop (length s - length suf) s = suf"

definition ends_with_case :: "string \<Rightarrow> string \<Rightarrow> bool" where
  "ends_with_case s suf \<longleftrightarrow>
     length suf \<le> length s \<and> strncase_eq (drop (length s - length suf) s) suf (length suf)"

text \<open>\<^verbatim>\<open>util::search\<close> returns a null pointer when the match is at the end of the text.\<close>

definition util_search :: "string \<Rightarrow> string \<Rightarrow> nat option" where
  "util_search s pat =
     (case search pat s of None \<Rightarrow> None | Some i \<Rightarrow> if i = length s then None else Some i)"

lemma starts_with_prefix: "starts_with s pre \<longleftrightarrow> prefix pre s"
  by (auto simp: starts_with_def prefix_def) (metis append_take_drop_id)

lemma ends_with_suffix: "ends_with s suf \<longleftrightarrow> suffix suf s"
  by (auto simp: ends_with_def suffix_def) (metis append_take_drop_id)

lemma strncase_eq_no_nul:
  "NUL \<notin> set ys \<Longrightarrow> n = length ys \<Longrightarrow> n \<le> length xs \<Longrightarrow>
   strncase_eq xs ys n \<longleftrightarrow> map tolower (take n xs) = map tolower ys"
proof (induction xs ys n rule: strncase_eq.induct)
  case (2 x xs y ys n)
  then show ?case by (auto dest: tolower_NUL [THEN iffD2]) (metis tolower_NUL)+
qed auto

lemma equal_case_iff:
  "NUL \<notin> set s2 \<Longrightarrow> equal_case s1 s2 \<longleftrightarrow> to_lower s1 = to_lower s2"
proof (cases "length s1 = length s2")
  case True
  then show "NUL \<notin> set s2 \<Longrightarrow> ?thesis"
    using strncase_eq_no_nul [of s2 "length s1" s1] by (simp add: equal_case_def to_lower_def)
next
  case False
  then show ?thesis by (auto simp: equal_case_def to_lower_def dest: map_eq_imp_length_eq)
qed

lemma equal_case_refl [simp]: "equal_case s s"
proof -
  have "strncase_eq xs xs n" if "n \<le> length xs" for xs n
    using that
  proof (induction xs arbitrary: n)
    case (Cons x xs)
    then show ?case by (cases n) auto
  qed simp
  then show ?thesis by (simp add: equal_case_def)
qed

lemma strncase_eq_sym: "strncase_eq xs ys n = strncase_eq ys xs n"
proof (induction n arbitrary: xs ys)
  case (Suc n)
  show ?case
  proof (cases "xs = [] \<or> ys = []")
    case True
    then show ?thesis by (cases xs; cases ys) auto
  next
    case False
    then obtain x xs' y ys' where "xs = x # xs'" "ys = y # ys'" by (meson neq_Nil_conv)
    then show ?thesis using Suc [of xs' ys'] by auto (metis tolower_NUL)+
  qed
qed simp

lemma equal_case_sym: "equal_case a b = equal_case b a"
  by (metis equal_case_def strncase_eq_sym)

section \<open>Splitting, trimming, joining\<close>

text \<open>\<^verbatim>\<open>split\<close>: one token per separator, the loop ends after the token with no separator behind it.\<close>

function split :: "string \<Rightarrow> char \<Rightarrow> string list" where
  "split s c =
     (let tok = takeWhile (\<lambda>x. x \<noteq> c) s; sep = dropWhile (\<lambda>x. x \<noteq> c) s
      in if sep = [] then [tok] else tok # split (tl sep) c)"
  by pat_completeness auto
termination
  by (relation "measure (\<lambda>(s, c). length s)")
    (simp, simp only: in_measure prod.case length_dropWhile_lt not_False_eq_True)

declare split.simps [simp del]

definition trim :: "string \<Rightarrow> string" where
  "trim s =
     (let pos = length (takeWhile isspace s)
      in if pos = length s then []
         else let right = length (takeWhile isspace (rev s)); n = (length s - right) - pos
              in take n (drop pos s))"

fun join :: "string \<Rightarrow> string list \<Rightarrow> string" where
  "join d [] = []"
| "join d [x] = x"
| "join d (x # y # ys) = x @ d @ join d (y # ys)"

text \<open>\<^verbatim>\<open>catviews\<close>: allocate the total size, then copy each view at the running offset.\<close>

definition memcpy_at :: "string \<Rightarrow> nat \<Rightarrow> string \<Rightarrow> string" where
  "memcpy_at dst off src = take off dst @ src @ drop (off + length src) dst"

definition catviews :: "string list \<Rightarrow> string" where
  "catviews views =
     fst (fold (\<lambda>s (buf, after). (memcpy_at buf after s, after + length s)) views
       (replicate (sum_list (map length views)) NUL, 0))"

lemma split_single: "c \<notin> set s \<Longrightarrow> split s c = [s]"
proof -
  assume "c \<notin> set s"
  then have "dropWhile (\<lambda>x. x \<noteq> c) s = []" "takeWhile (\<lambda>x. x \<noteq> c) s = s"
    by (auto simp: takeWhile_eq_all_conv)
  then show ?thesis by (simp add: split.simps [of s c])
qed

lemma split_append: "c \<notin> set s \<Longrightarrow> split (s @ c # t) c = s # split t c"
proof -
  assume c: "c \<notin> set s"
  then have "takeWhile (\<lambda>x. x \<noteq> c) (s @ c # t) = s"
    by (intro takeWhile_append_stop) auto
  moreover have "dropWhile (\<lambda>x. x \<noteq> c) (s @ c # t) = c # t"
    using c by (intro dropWhile_append_stop) auto
  ultimately show ?thesis
    by (simp only: split.simps [of "s @ c # t" c] Let_def list.sel list.distinct if_False)
qed

text \<open>Induction along the separators: the last token, or a token, a separator and the rest.\<close>

lemma split_cases [case_names last more]:
  obtains "c \<notin> set s" | t r where "c \<notin> set t" "s = t @ c # r"
  by (metis split_list_first)

lemma split_induct [case_names last more]:
  assumes "\<And>s. c \<notin> set s \<Longrightarrow> P s" and "\<And>t r. c \<notin> set t \<Longrightarrow> P r \<Longrightarrow> P (t @ c # r)"
  shows "P s"
proof (induction s rule: length_induct)
  case (1 s)
  show ?case by (cases c s rule: split_cases) (use 1 assms in auto)
qed

lemma split_nil [simp]: "split [] c = [[]]"
  by (simp add: split_single)

lemma split_not_Nil [simp]: "split s c \<noteq> []"
  by (cases c s rule: split_cases) (auto simp: split_single split_append)

lemma join_Cons: "ys \<noteq> [] \<Longrightarrow> join d (x # ys) = x @ d @ join d ys"
  by (cases ys) auto

lemma split_parts: "p \<in> set (split s c) \<Longrightarrow> c \<notin> set p"
  by (induction s rule: split_induct [of c]) (auto simp: split_single split_append)

lemma split_part_subset: "p \<in> set (split s c) \<Longrightarrow> set p \<subseteq> set s"
  by (induction s rule: split_induct [of c]) (auto simp: split_single split_append)

lemma join_split: "join [c] (split s c) = s"
  by (induction s rule: split_induct [of c]) (auto simp: split_single split_append join_Cons)

lemma split_join: "ps \<noteq> [] \<Longrightarrow> \<forall>p \<in> set ps. c \<notin> set p \<Longrightarrow> split (join [c] ps) c = ps"
  by (induction "[c]" ps rule: join.induct) (auto simp: split_single split_append)

lemma trim_eq: "trim s = rev (dropWhile isspace (rev (dropWhile isspace s)))"
proof (cases "\<forall>x \<in> set s. isspace x")
  case True
  then have "takeWhile isspace s = s" "dropWhile isspace s = []"
    by (simp_all add: takeWhile_eq_all_conv)
  then show ?thesis by (simp only: trim_def Let_def) simp
next
  case False
  let ?l = "takeWhile isspace s" and ?d = "dropWhile isspace s"
  have "?l \<noteq> s" using False by (simp add: takeWhile_eq_all_conv)
  then have ne: "length ?l \<noteq> length s"
    by (metis append_eq_append_conv self_append_conv takeWhile_dropWhile_id)
  have d: "drop (length ?l) s = ?d"
    by (metis append_eq_conv_conj takeWhile_dropWhile_id)
  from False have ex: "\<exists>x \<in> set ?d. \<not> isspace x"
    by (metis dropWhile_eq_Nil_conv hd_dropWhile list.set_sel(1))
  have "rev s = rev ?d @ rev ?l"
    by (metis rev_append takeWhile_dropWhile_id)
  with ex have tw: "takeWhile isspace (rev s) = takeWhile isspace (rev ?d)"
    by (metis set_rev takeWhile_append1)
  have len: "length s - length (takeWhile isspace (rev s)) - length ?l =
      length ?d - length (takeWhile isspace (rev ?d))"
    unfolding tw by (metis add_diff_cancel_left' diff_right_commute length_append takeWhile_dropWhile_id)
  have "trim s = take (length ?d - length (takeWhile isspace (rev ?d))) ?d"
    using ne by (simp only: trim_def Let_def d len if_False)
  also have "\<dots> = rev (drop (length (takeWhile isspace (rev ?d))) (rev ?d))"
    by (simp add: rev_drop)
  also have "\<dots> = rev (dropWhile isspace (rev ?d))"
    by (metis append_eq_conv_conj takeWhile_dropWhile_id)
  finally show ?thesis .
qed

lemma trim_hd_last:
  "trim s \<noteq> [] \<Longrightarrow> \<not> isspace (hd (trim s)) \<and> \<not> isspace (last (trim s))"
proof
  assume ne: "trim s \<noteq> []"
  let ?d = "dropWhile isspace s"
  have r: "rev (trim s) = dropWhile isspace (rev ?d)" by (simp add: trim_eq)
  with ne have "\<not> isspace (hd (rev (trim s)))"
    by (metis hd_dropWhile rev_is_Nil_conv)
  with ne show "\<not> isspace (last (trim s))" by (simp add: hd_rev)
  have "rev ?d = takeWhile isspace (rev ?d) @ rev (trim s)"
    by (simp add: r)
  then have d: "?d = trim s @ rev (takeWhile isspace (rev ?d))"
    by (metis rev_append rev_rev_ident)
  with ne have "hd ?d = hd (trim s)" "?d \<noteq> []" by (metis hd_append2, metis append_is_Nil_conv)
  with hd_dropWhile [of isspace s] show "\<not> isspace (hd (trim s))" by simp
qed

lemma trim_id: "s \<noteq> [] \<Longrightarrow> \<not> isspace (hd s) \<Longrightarrow> \<not> isspace (last s) \<Longrightarrow> trim s = s"
proof -
  assume a: "s \<noteq> []" "\<not> isspace (hd s)" "\<not> isspace (last s)"
  then have "dropWhile isspace s = s" by (cases s) auto
  moreover have "dropWhile isspace (rev s) = rev s"
    using a by (cases s rule: rev_cases) auto
  ultimately show ?thesis by (simp add: trim_eq)
qed

lemma trim_nil [simp]: "trim [] = []"
  by (simp add: trim_def)

lemma catviews_fold:
  "length pre + sum_list (map length views) = n \<Longrightarrow>
   fold (\<lambda>s (buf, after). (memcpy_at buf after s, after + length s)) views
     (pre @ replicate (sum_list (map length views)) NUL, length pre)
   = (pre @ concat views, n)"
proof (induction views arbitrary: pre)
  case Nil
  then show ?case by simp
next
  case (Cons v vs)
  have "memcpy_at (pre @ replicate (sum_list (map length (v # vs))) NUL) (length pre) v
      = (pre @ v) @ replicate (sum_list (map length vs)) NUL"
    by (simp add: memcpy_at_def)
  with Cons.IH [of "pre @ v"] Cons.prems show ?case by simp
qed

lemma catviews_concat: "catviews views = concat views"
  using catviews_fold [of "[]" views] by (simp add: catviews_def)

section \<open>Numbers\<close>

text \<open>\<^verbatim>\<open>std::to_string\<close> of a non-negative value.\<close>

definition digit :: "nat \<Rightarrow> char" where
  "digit n = char_of (48 + n)"

fun dec :: "nat \<Rightarrow> string" where
  "dec n = (if n < 10 then [digit n] else dec (n div 10) @ [digit (n mod 10)])"

declare dec.simps [simp del]

definition digits_val :: "string \<Rightarrow> nat" where
  "digits_val s = foldl (\<lambda>acc c. acc * 10 + (code c - 48)) 0 s"

text \<open>
  \<^verbatim>\<open>svtointegral<R>\<close>: \<^verbatim>\<open>std::from_chars\<close> reads an optional minus sign and at least one digit, fails
  when the value is outside of the type, and the result only counts if it consumed the whole view.
\<close>

definition svtointegral :: "int \<Rightarrow> int \<Rightarrow> string \<Rightarrow> int option" where
  "svtointegral lo hi s =
     (let neg = (s \<noteq> [] \<and> hd s = CHR ''-''); ds = (if neg then tl s else s)
      in if ds = [] \<or> \<not> list_all isdigit ds then None
         else let v = (if neg then - int (digits_val ds) else int (digits_val ds))
              in if lo \<le> v \<and> v \<le> hi then Some v else None)"

definition svtoi :: "string \<Rightarrow> int option" where
  "svtoi s = svtointegral (- (2 ^ 31)) (2 ^ 31 - 1) s"

definition svtol :: "string \<Rightarrow> int option" where
  "svtol s = svtointegral (- (2 ^ 63)) (2 ^ 63 - 1) s"

definition svtoll :: "string \<Rightarrow> int option" where
  "svtoll s = svtointegral (- (2 ^ 63)) (2 ^ 63 - 1) s"

definition value_or :: "'a option \<Rightarrow> 'a \<Rightarrow> 'a" where
  "value_or x d = (case x of None \<Rightarrow> d | Some v \<Rightarrow> v)"

lemma value_or_simps [simp]: "value_or None d = d" "value_or (Some v) d = v"
  by (simp_all add: value_or_def)

text \<open>\<^verbatim>\<open>check_ip\<close>: four fields, each a decimal number without leading zero and at most 255.\<close>

definition check_ip_field :: "string \<Rightarrow> bool" where
  "check_ip_field s \<longleftrightarrow>
     \<not> (s = [] \<or> \<not> is_digits s \<or> (length s > 1 \<and> s ! 0 = CHR ''0'') \<or> value_or (svtoi s) 256 > 255)"

definition check_ip :: "string \<Rightarrow> bool" where
  "check_ip ipv4_addr =
     (let fields = split ipv4_addr CHR ''.''
      in if length fields \<noteq> 4 then False else list_all check_ip_field fields)"

lemma code_digit [simp]: "n < 10 \<Longrightarrow> code (digit n) = 48 + n"
  by (simp add: digit_def)

lemma digit_0: "digit 0 = CHR ''0''"
proof -
  have "code (digit 0) = code CHR ''0''" by simp
  then show ?thesis by (simp only: of_char_eq_iff)
qed

lemma isdigit_digit [simp]: "n < 10 \<Longrightarrow> isdigit (digit n)"
  by (simp add: isdigit_def)

lemma digits_val_snoc: "digits_val (s @ [c]) = digits_val s * 10 + (code c - 48)"
  by (simp add: digits_val_def)

lemma dec_ne [simp]: "dec n \<noteq> []"
  by (subst dec.simps) simp

lemma dec_digits: "list_all isdigit (dec n)"
proof (induction n rule: dec.induct)
  case (1 n)
  then show ?case by (cases "n < 10") (simp_all add: dec.simps [of n])
qed

lemma digits_val_dec [simp]: "digits_val (dec n) = n"
proof (induction n rule: dec.induct)
  case (1 n)
  show ?case
  proof (cases "n < 10")
    case True
    then show ?thesis by (simp add: dec.simps [of n] digits_val_def)
  next
    case False
    with "1.IH" show ?thesis by (simp add: dec.simps [of n] digits_val_snoc)
  qed
qed

lemma dec_no_leading_zero: "length (dec n) > 1 \<Longrightarrow> hd (dec n) \<noteq> digit 0"
proof (induction n rule: dec.induct)
  case (1 n)
  have inj: "digit a = digit b \<longleftrightarrow> a = b" if "a < 10" "b < 10" for a b
    using that by (metis add_left_cancel code_digit)
  show ?case
  proof (cases "n < 10")
    case True
    with 1 show ?thesis by (simp add: dec.simps [of n])
  next
    case False
    then have d: "hd (dec n) = hd (dec (n div 10))" by (simp add: dec.simps [of n])
    show ?thesis
    proof (cases "n div 10 < 10")
      case True
      with False have "n div 10 \<noteq> 0" by simp
      with True inj [of "n div 10" 0] show ?thesis unfolding d by (simp add: dec.simps [of "n div 10"])
    next
      case big: False
      then have "length (dec (n div 10)) > 1"
        using dec_ne [of "n div 10 div 10"] by (simp add: dec.simps [of "n div 10"] del: dec_ne)
      with "1.IH" False d show ?thesis by simp
    qed
  qed
qed

lemma isdigit_code: "isdigit c \<Longrightarrow> digit (code c - 48) = c"
  by (auto simp: digit_def isdigit_def)

lemma dec_digits_val:
  "s \<noteq> [] \<Longrightarrow> list_all isdigit s \<Longrightarrow> length s > 1 \<longrightarrow> hd s \<noteq> digit 0 \<Longrightarrow> dec (digits_val s) = s"
proof (induction s rule: rev_induct)
  case (snoc c s)
  have c: "isdigit c" "code c - 48 < 10" using snoc.prems by (auto simp: isdigit_def)
  show ?case
  proof (cases "s = []")
    case True
    with c show ?thesis by (simp add: digits_val_def dec.simps isdigit_code)
  next
    case False
    with snoc.prems have s: "list_all isdigit s" "hd s \<noteq> digit 0" by auto
    with snoc.IH False have IH: "dec (digits_val s) = s" by simp
    have "digits_val s \<noteq> 0"
    proof
      assume "digits_val s = 0"
      with IH have "s = [digit 0]" by (simp add: dec.simps)
      with s(2) show False by simp
    qed
    then have "\<not> digits_val (s @ [c]) < 10" by (simp add: digits_val_snoc)
    then show ?thesis
      using c IH by (simp add: dec.simps [of "digits_val (s @ [c])"]) (simp add: digits_val_snoc isdigit_code)
  qed
qed simp

lemma svtointegral_digits:
  "s \<noteq> [] \<Longrightarrow> list_all isdigit s \<Longrightarrow>
   svtointegral lo hi s =
     (if lo \<le> int (digits_val s) \<and> int (digits_val s) \<le> hi then Some (int (digits_val s)) else None)"
proof -
  assume a: "s \<noteq> []" "list_all isdigit s"
  then have "hd s \<noteq> CHR ''-''" by (cases s) (auto simp: isdigit_def)
  with a show ?thesis by (simp add: svtointegral_def Let_def)
qed

lemma svtointegral_bounds: "svtointegral lo hi s = Some v \<Longrightarrow> lo \<le> v \<and> v \<le> hi"
  by (auto simp: svtointegral_def Let_def split: if_splits)

lemma svtoi_dec: "n < 2 ^ 31 \<Longrightarrow> svtoi (dec n) = Some (int n)"
  using dec_digits [of n] by (simp add: svtoi_def svtointegral_digits)

lemma svtoll_dec: "n < 2 ^ 63 \<Longrightarrow> svtoll (dec n) = Some (int n)"
  using dec_digits [of n] by (simp add: svtoll_def svtointegral_digits)

lemma check_ip_field_iff: "check_ip_field s \<longleftrightarrow> (\<exists>n \<le> 255. s = dec n)"
proof
  assume a: "check_ip_field s"
  then have s: "s \<noteq> []" "list_all isdigit s" and z: "length s > 1 \<longrightarrow> s ! 0 \<noteq> CHR ''0''"
    and v: "value_or (svtoi s) 256 \<le> 255"
    by (auto simp: check_ip_field_def is_digits_def)
  with s z digit_0 have "dec (digits_val s) = s" by (intro dec_digits_val) (auto simp: hd_conv_nth)
  moreover have "digits_val s \<le> 255"
    using v by (auto simp: svtoi_def svtointegral_digits [OF s] split: if_splits)
  ultimately show "\<exists>n \<le> 255. s = dec n" by metis
next
  assume "\<exists>n \<le> 255. s = dec n"
  then obtain n where n: "n \<le> 255" "s = dec n" by blast
  with digit_0 dec_no_leading_zero [of n] dec_digits [of n] svtoi_dec [of n] show "check_ip_field s"
    by (auto simp: check_ip_field_def is_digits_def hd_conv_nth)
qed

lemma dec_no_dot: "CHR ''.'' \<notin> set (dec n)"
  using dec_digits [of n] by (auto simp: list_all_iff isdigit_def)

section \<open>Configuration files\<close>

text \<open>
  \<^verbatim>\<open>parse_conf\<close> on the file's text. \<^verbatim>\<open>fgets(buf, 4096, fp)\<close> delivers at most 4095 characters and
  stops behind a line feed; \<^verbatim>\<open>strlen\<close> cuts the line at a NUL. Each word must be followed by a
  white space character (\<^verbatim>\<open>Assert(p != es)\<close>): \<open>None\<close> is the failed assertion, which ends the program.
\<close>

definition fgets :: "nat \<Rightarrow> string \<Rightarrow> string" where
  "fgets n s =
     take (min (n - 1) (case search [LF] s of None \<Rightarrow> length s | Some i \<Rightarrow> Suc i)) s"

function conf_param :: "string \<Rightarrow> string list option" where
  "conf_param s =
     (let s1 = dropWhile isspace s
      in if s1 = [] \<or> hd s1 = CHR ''#'' then Some []
         else let p = dropWhile (\<lambda>c. \<not> isspace c) s1
              in if p = [] then None
                 else map_option ((#) (takeWhile (\<lambda>c. \<not> isspace c) s1)) (conf_param (tl p)))"
  by pat_completeness auto
termination
proof (relation "measure length", goal_cases)
  case (2 s s1 p)
  then have "length (tl p) < length s1" by (simp only: length_dropWhile_lt not_False_eq_True)
  also have "\<dots> \<le> length s" using 2 by (simp add: length_dropWhile_le)
  finally show ?case by simp
qed simp

declare conf_param.simps [simp del]

lemma fgets_progress: "s \<noteq> [] \<Longrightarrow> 2 \<le> n \<Longrightarrow> length (drop (length (fgets n s)) s) < length s"
  by (cases s) (auto simp: fgets_def min_def split: option.splits)

function parse_conf :: "string \<Rightarrow> string list list option" where
  "parse_conf text =
     (if text = [] then Some []
      else let buf = fgets 4096 text
           in case conf_param (takeWhile (\<lambda>c. c \<noteq> NUL) buf) of
                None \<Rightarrow> None
              | Some param \<Rightarrow>
                  map_option (\<lambda>rest. if param = [] then rest else param # rest)
                    (parse_conf (drop (length buf) text)))"
  by pat_completeness auto
termination
  by (relation "measure length") (auto intro: fgets_progress [unfolded length_drop])

declare parse_conf.simps [simp del]

text \<open>A configuration word: not empty, no white space, no NUL, and not a comment mark in front.\<close>

definition conf_word :: "string \<Rightarrow> bool" where
  "conf_word w \<longleftrightarrow> w \<noteq> [] \<and> hd w \<noteq> CHR ''#'' \<and> (\<forall>c \<in> set w. \<not> isspace c \<and> c \<noteq> NUL)"

definition conf_line :: "string list \<Rightarrow> string" where
  "conf_line ws = concat (map (\<lambda>w. w @ [SP]) ws) @ [LF]"

lemma conf_param_blank: "\<forall>c \<in> set s. isspace c \<Longrightarrow> conf_param s = Some []"
  by (subst conf_param.simps) (simp add: Let_def)

lemma conf_param_word:
  assumes "conf_word w" and "isspace c"
  shows "conf_param (w @ c # s) = map_option ((#) w) (conf_param s)"
proof -
  from assms have d: "dropWhile isspace (w @ c # s) = w @ c # s"
    by (cases w) (auto simp: conf_word_def)
  have "dropWhile (\<lambda>c. \<not> isspace c) (w @ c # s) = c # s"
    "takeWhile (\<lambda>c. \<not> isspace c) (w @ c # s) = w"
    using assms by (auto intro!: dropWhile_append_stop takeWhile_append_stop simp: conf_word_def)
  with assms d show ?thesis
    by (simp add: conf_param.simps [of "w @ c # s"] conf_word_def Let_def)
qed

lemma isspace_SP_LF [simp]: "isspace SP" "isspace LF"
  by (simp_all add: isspace_def)

lemma conf_param_line: "\<forall>w \<in> set ws. conf_word w \<Longrightarrow> conf_param (conf_line ws) = Some ws"
proof (induction ws)
  case Nil
  then show ?case by (simp add: conf_line_def conf_param_blank)
next
  case (Cons w ws)
  have "conf_line (w # ws) = w @ SP # conf_line ws" by (simp add: conf_line_def)
  with Cons show ?case by (simp add: conf_param_word)
qed

lemma conf_line_plain:
  assumes "\<forall>w \<in> set ws. conf_word w"
  shows "LF \<notin> set (butlast (conf_line ws))" "NUL \<notin> set (conf_line ws)"
proof -
  have "LF \<notin> set w \<and> NUL \<notin> set w" if "w \<in> set ws" for w
    using assms that isspace_SP_LF(2) unfolding conf_word_def by metis
  then show "LF \<notin> set (butlast (conf_line ws))" "NUL \<notin> set (conf_line ws)"
    by (simp_all add: conf_line_def)
qed

lemma fgets_line:
  assumes "\<forall>w \<in> set ws. conf_word w" and "length (conf_line ws) < 4096"
  shows "fgets 4096 (conf_line ws @ rest) = conf_line ws"
proof -
  let ?b = "butlast (conf_line ws)"
  have b: "conf_line ws = ?b @ [LF]" by (simp add: conf_line_def)
  have "takeWhile (\<lambda>x. x \<noteq> LF) (?b @ LF # rest) = ?b"
    using conf_line_plain(1) [OF assms(1)] by (intro takeWhile_append_stop) auto
  then have "search [LF] (conf_line ws @ rest) = Some (length ?b)"
    by (subst b) (simp add: search_single)
  moreover have "Suc (length ?b) = length (conf_line ws)" by (subst (2) b) simp
  ultimately show ?thesis using assms(2) by (simp add: fgets_def)
qed

lemma parse_conf_lines:
  assumes "\<forall>ws \<in> set wss. ws \<noteq> [] \<and> (\<forall>w \<in> set ws. conf_word w) \<and> length (conf_line ws) < 4096"
  shows "parse_conf (concat (map conf_line wss)) = Some wss"
  using assms
proof (induction wss)
  case Nil
  then show ?case by (simp add: parse_conf.simps)
next
  case (Cons ws wss)
  let ?t = "concat (map conf_line (ws # wss))"
  from Cons.prems have f: "fgets 4096 ?t = conf_line ws" by (simp add: fgets_line)
  have "NUL \<notin> set (conf_line ws)" using Cons.prems by (intro conf_line_plain(2)) simp
  then have tw: "takeWhile (\<lambda>c. c \<noteq> NUL) (conf_line ws) = conf_line ws"
    by (auto simp: takeWhile_eq_all_conv)
  have "conf_param (conf_line ws) = Some ws" using Cons.prems by (intro conf_param_line) simp
  moreover have "?t \<noteq> []" by (simp add: conf_line_def)
  ultimately show ?case
    using Cons.IH Cons.prems unfolding parse_conf.simps [of ?t] f
    by (simp add: tw)
qed

section \<open>File transfer loops\<close>

text \<open>
  \<^verbatim>\<open>read_file\<close> and \<^verbatim>\<open>write_file\<close> retry short transfers and \<^verbatim>\<open>EINTR\<close>. The kernel is a script of
  answers, one per system call; \<open>None\<close> means that the script ended while the loop still wanted to
  call. \<^verbatim>\<open>read(2)\<close> returns at most as many bytes as it was asked for.
\<close>

datatype read_res = ReadOk string | ReadErr bool \<comment> \<open>is it EINTR?\<close>
datatype write_res = WriteOk nat | WriteErr bool \<comment> \<open>is it EINTR?\<close>

fun read_file :: "nat \<Rightarrow> read_res list \<Rightarrow> string \<Rightarrow> (string option \<times> read_res list) option" where
  "read_file 0 script acc = Some (Some acc, script)"
| "read_file (Suc len) [] acc = None"
| "read_file (Suc len) (ReadErr eintr # script) acc =
     (if eintr then read_file (Suc len) script acc else Some (None, script))"
| "read_file (Suc len) (ReadOk bs # script) acc =
     (let got = take (Suc len) bs
      in if got = [] then Some (Some acc, script)
         else read_file (Suc len - length got) script (acc @ got))"

fun write_file :: "string \<Rightarrow> write_res list \<Rightarrow> string \<Rightarrow> (bool \<times> string \<times> write_res list) option" where
  "write_file [] script out0 = Some (True, out0, script)"
| "write_file (b # bs) [] out0 = None"
| "write_file (b # bs) (WriteErr eintr # script) out0 =
     (if eintr then write_file (b # bs) script out0 else Some (False, out0, script))"
| "write_file (b # bs) (WriteOk n # script) out0 =
     write_file (drop n (b # bs)) script (out0 @ take n (b # bs))"

lemma read_file_length: "read_file len script acc = Some (Some r, rest) \<Longrightarrow>
    length acc \<le> length r \<and> length r \<le> length acc + len"
  by (induction len script acc rule: read_file.induct) (fastforce simp: Let_def split: if_splits)+

lemma write_file_prefix: "write_file buf script out0 = Some (ok, out, rest) \<Longrightarrow>
    (\<exists>k. out = out0 @ take k buf) \<and> (ok \<longrightarrow> out = out0 @ buf)"
proof (induction buf script out0 rule: write_file.induct)
  case (4 b bs n script out0)
  then have IH: "\<exists>k. out = (out0 @ take n (b # bs)) @ take k (drop n (b # bs))"
    "ok \<longrightarrow> out = (out0 @ take n (b # bs)) @ drop n (b # bs)" by simp_all
  then obtain k where "out = (out0 @ take n (b # bs)) @ take k (drop n (b # bs))" by blast
  then have "out = out0 @ take (n + k) (b # bs)" by (simp only: take_add append_assoc)
  moreover have "ok \<longrightarrow> out = out0 @ b # bs"
    using IH(2) by (simp only: append_assoc append_take_drop_id)
  ultimately show ?case by blast
qed (auto split: if_splits)

definition page_aligned :: "int \<Rightarrow> int \<Rightarrow> int" where
  "page_aligned pagesize offset = (sgn offset * (\<bar>offset\<bar> div pagesize)) * pagesize"

lemma page_aligned_bounds:
  assumes "0 \<le> offset" "0 < pagesize"
  shows "pagesize dvd page_aligned pagesize offset" "page_aligned pagesize offset \<le> offset"
    "offset < page_aligned pagesize offset + pagesize"
proof -
  have e: "page_aligned pagesize offset = offset - offset mod pagesize"
    using assms by (cases "offset = 0") (simp_all add: page_aligned_def minus_mod_eq_div_mult)
  show "pagesize dvd page_aligned pagesize offset" by (simp add: page_aligned_def)
  show "page_aligned pagesize offset \<le> offset" "offset < page_aligned pagesize offset + pagesize"
    using assms by (simp_all add: e)
qed

section \<open>Properties\<close>

text \<open>
  \<^verbatim>\<open>check_ip\<close> accepts exactly the dotted decimal notation of four numbers up to 255, without
  leading zeros.
\<close>

theorem check_ip_iff:
  "check_ip s \<longleftrightarrow> (\<exists>a b c d. a \<le> 255 \<and> b \<le> 255 \<and> c \<le> 255 \<and> d \<le> 255 \<and>
     s = dec a @ ''.'' @ dec b @ ''.'' @ dec c @ ''.'' @ dec d)"
proof
  assume "check_ip s"
  then have f: "length (split s CHR ''.'') = 4" "\<forall>x \<in> set (split s CHR ''.''). \<exists>n \<le> 255. x = dec n"
    by (auto simp: check_ip_def Let_def list_all_iff check_ip_field_iff split: if_splits)
  then obtain w x y z where ws: "split s CHR ''.'' = [w, x, y, z]"
    by (auto simp: length_Suc_conv numeral_eq_Suc)
  then have "s = join ''.'' [w, x, y, z]" using join_split [of "CHR ''.''" s] by simp
  with f(2) ws show "\<exists>a b c d. a \<le> 255 \<and> b \<le> 255 \<and> c \<le> 255 \<and> d \<le> 255 \<and>
     s = dec a @ ''.'' @ dec b @ ''.'' @ dec c @ ''.'' @ dec d"
    by auto
next
  assume "\<exists>a b c d. a \<le> 255 \<and> b \<le> 255 \<and> c \<le> 255 \<and> d \<le> 255 \<and>
     s = dec a @ ''.'' @ dec b @ ''.'' @ dec c @ ''.'' @ dec d"
  then obtain a b c d where n: "a \<le> 255" "b \<le> 255" "c \<le> 255" "d \<le> 255"
    and s: "s = dec a @ ''.'' @ dec b @ ''.'' @ dec c @ ''.'' @ dec d" by blast
  have "split s CHR ''.'' = [dec a, dec b, dec c, dec d]"
    using split_join [of "[dec a, dec b, dec c, dec d]" "CHR ''.''"] s by (simp add: dec_no_dot)
  with n show "check_ip s" by (auto simp: check_ip_def check_ip_field_iff)
qed

text \<open>
  \<^verbatim>\<open>parse_conf\<close> reads back a configuration file: for lines of words without white space, whose
  first character is not the comment sign, the parameters are the words of each line.
\<close>

theorem parse_conf_roundtrip:
  assumes "\<forall>ws \<in> set wss. ws \<noteq> [] \<and> (\<forall>w \<in> set ws. conf_word w) \<and> length (conf_line ws) < 4096"
  shows "parse_conf (concat (map conf_line wss)) = Some wss"
  using assms by (rule parse_conf_lines)

theorem parse_conf_roundtrip_witness:
  "parse_conf (''port 80 '' @ [LF] @ ''host a '' @ [LF]) = Some [[''port'', ''80''], [''host'', ''a'']]"
  using parse_conf_roundtrip [of "[[''port'', ''80''], [''host'', ''a'']]"]
  by (simp add: conf_word_def conf_line_def isspace_def)

end
