(* ===== verification/Buffer.thy ===== *)
theory Buffer
  imports Util
begin

text \<open>
  The byte buffer every protocol component reads from and writes to: \<^verbatim>\<open>class buffer\<close>
  (\<^verbatim>\<open>include/angel/buffer.h\<close>, \<^verbatim>\<open>src/buffer.cc\<close>). A vector with a read and a write index; \<open>peek\<close> is the
  text between them, \<^verbatim>\<open>[peek(), end())\<close>. The locale \<open>byte_stream\<close> states the contract the rest of the
  library relies on (a queue of bytes) and proves that every sequence of operations behaves like
  the same sequence on a plain list; it is interpreted on the buffer's own operations.
\<close>

section \<open>State and operations\<close>

record buffer =
  mem :: string
  read_index :: nat
  write_index :: nat

definition buffer_wf :: "buffer \<Rightarrow> bool" where
  "buffer_wf b \<longleftrightarrow> read_index b \<le> write_index b \<and> write_index b \<le> length (mem b)"

definition buffer_new :: "nat \<Rightarrow> buffer" where
  "buffer_new n = \<lparr>mem = replicate n NUL, read_index = 0, write_index = 0\<rparr>"

definition init_size :: nat where
  "init_size = 1024"

definition prependable :: "buffer \<Rightarrow> nat" where
  "prependable b = read_index b"

definition readable :: "buffer \<Rightarrow> nat" where
  "readable b = write_index b - read_index b"

definition writeable :: "buffer \<Rightarrow> nat" where
  "writeable b = length (mem b) - write_index b"

definition peek :: "buffer \<Rightarrow> string" where
  "peek b = take (readable b) (drop (read_index b) (mem b))"

text \<open>\<^verbatim>\<open>std::vector::resize\<close>: cut, or extend with zero bytes.\<close>

definition vec_resize :: "string \<Rightarrow> nat \<Rightarrow> string" where
  "vec_resize v n = take n v @ replicate (n - length v) NUL"

definition make_space :: "buffer \<Rightarrow> nat \<Rightarrow> buffer" where
  "make_space b len =
     (if len > writeable b then
        if len \<le> writeable b + prependable b then
          let read_bytes = readable b
          in b\<lparr>mem := memcpy_at (mem b) 0 (take read_bytes (drop (read_index b) (mem b))),
               read_index := 0, write_index := 0 + read_bytes\<rparr>
        else b\<lparr>mem := vec_resize (mem b) (write_index b + len)\<rparr>
      else b)"

definition append_buf :: "buffer \<Rightarrow> string \<Rightarrow> buffer" where
  "append_buf b s =
     (let b1 = make_space b (length s)
      in b1\<lparr>mem := memcpy_at (mem b1) (write_index b1) s, write_index := write_index b1 + length s\<rparr>)"

definition retrieve :: "buffer \<Rightarrow> nat \<Rightarrow> buffer" where
  "retrieve b len =
     (if len < readable b then b\<lparr>read_index := read_index b + len\<rparr>
      else b\<lparr>read_index := 0, write_index := 0\<rparr>)"

definition retrieve_all :: "buffer \<Rightarrow> buffer" where
  "retrieve_all b = retrieve b (readable b)"

text \<open>
  \<^verbatim>\<open>c_str()\<close> terminates the unread text with a NUL behind \<^verbatim>\<open>end()\<close> and returns \<^verbatim>\<open>peek()\<close>: the new state and
  the C string a reader sees there.
\<close>

definition c_str :: "buffer \<Rightarrow> buffer \<times> string" where
  "c_str b =
     (let b1 = make_space b 1; b2 = b1\<lparr>mem := (mem b1)[write_index b1 := NUL]\<rparr>
      in (b2, takeWhile (\<lambda>c. c \<noteq> NUL) (drop (read_index b2) (mem b2))))"

definition buf_starts_with :: "buffer \<Rightarrow> string \<Rightarrow> bool" where
  "buf_starts_with b s \<longleftrightarrow> length s \<le> readable b \<and> take (length s) (peek b) = s"

definition buf_starts_with_case :: "buffer \<Rightarrow> string \<Rightarrow> bool" where
  "buf_starts_with_case b s \<longleftrightarrow> length s \<le> readable b \<and> strncase_eq (peek b) s (length s)"

text \<open>\<^verbatim>\<open>find\<close>: the offset of the pattern in the unread text, \<open>None\<close> for the code's -1.\<close>

definition buf_find :: "buffer \<Rightarrow> string \<Rightarrow> nat option" where
  "buf_find b pat =
     (case search pat (peek b) of
        None \<Rightarrow> None
      | Some i \<Rightarrow> if i = length (peek b) then None else Some i)"

definition find_crlf :: "buffer \<Rightarrow> nat option" where
  "find_crlf b = buf_find b CRLF"

definition find_lf :: "buffer \<Rightarrow> nat option" where
  "find_lf b = buf_find b [LF]"

definition swap_buf :: "buffer \<Rightarrow> buffer \<Rightarrow> buffer \<times> buffer" where
  "swap_buf a b =
     (a\<lparr>mem := mem b, read_index := read_index b, write_index := write_index b\<rparr>,
      b\<lparr>mem := mem a, read_index := read_index a, write_index := write_index a\<rparr>)"

text \<open>
  \<^verbatim>\<open>read_fd\<close>: \<^verbatim>\<open>readv\<close> scatters the received bytes first into the free tail of the vector and then
  into a 64 KiB thread-local array, whose used part is appended. \<open>Some bs\<close> are the bytes \<^verbatim>\<open>readv\<close>
  delivered (at most the capacity of both areas), \<open>None\<close> is its error return.
\<close>

definition extrabuf_size :: nat where
  "extrabuf_size = 65536"

definition read_fd :: "buffer \<Rightarrow> string option \<Rightarrow> buffer \<times> int" where
  "read_fd b inp =
     (case inp of
        None \<Rightarrow> (b, -1)
      | Some bs \<Rightarrow>
          let writen = writeable b; n = length bs
          in if n = 0 then (b, 0)
             else
               let b1 = b\<lparr>mem := memcpy_at (mem b) (write_index b) (take writen bs)\<rparr>
               in if n \<le> writen then (b1\<lparr>write_index := write_index b1 + n\<rparr>, int n)
                  else (append_buf (b1\<lparr>write_index := write_index b1 + writen\<rparr>) (drop writen bs), int n))"

section \<open>The invariant\<close>

lemma buffer_new_wf [wf_intros]: "buffer_wf (buffer_new n)"
  by (simp add: buffer_wf_def buffer_new_def)

lemma length_peek: "buffer_wf b \<Longrightarrow> length (peek b) = readable b"
  by (auto simp: peek_def readable_def buffer_wf_def)

lemma memcpy_at_peek:
  assumes "r \<le> w" "w + length s \<le> length m"
  shows "take (w + length s - r) (drop r (memcpy_at m w s)) = take (w - r) (drop r m) @ s"
proof -
  have "drop r (memcpy_at m w s) = (take (w - r) (drop r m) @ s) @ drop (w + length s) m"
    using assms by (simp add: memcpy_at_def drop_take)
  moreover have "length (take (w - r) (drop r m) @ s) = w + length s - r"
    using assms by auto
  ultimately show ?thesis by (metis append_eq_conv_conj)
qed

lemma length_memcpy_at: "w + length s \<le> length m \<Longrightarrow> length (memcpy_at m w s) = length m"
  by (simp add: memcpy_at_def)

lemma make_space_wf [wf_intros]: "buffer_wf b \<Longrightarrow> buffer_wf (make_space b n)"
  by (auto simp: buffer_wf_def make_space_def memcpy_at_def vec_resize_def readable_def writeable_def
      prependable_def Let_def)

lemma make_space_room: "buffer_wf b \<Longrightarrow> n \<le> writeable (make_space b n)"
  by (auto simp: buffer_wf_def make_space_def memcpy_at_def vec_resize_def readable_def writeable_def
      prependable_def Let_def)

lemma make_space_peek [buffer_simps]: "buffer_wf b \<Longrightarrow> peek (make_space b n) = peek b"
  by (auto simp: buffer_wf_def make_space_def memcpy_at_def vec_resize_def readable_def writeable_def
      prependable_def peek_def Let_def)

lemma append_buf_wf [wf_intros]:
  assumes "buffer_wf b" shows "buffer_wf (append_buf b s)"
proof -
  let ?m = "make_space b (length s)"
  from assms have "buffer_wf ?m" "length s \<le> writeable ?m"
    by (simp_all add: make_space_wf make_space_room)
  then show ?thesis
    by (auto simp: buffer_wf_def append_buf_def memcpy_at_def writeable_def Let_def)
qed

lemma append_buf_peek [buffer_simps]:
  assumes "buffer_wf b" shows "peek (append_buf b s) = peek b @ s"
proof -
  let ?m = "make_space b (length s)"
  from assms have m: "buffer_wf ?m" "length s \<le> writeable ?m" "peek ?m = peek b"
    by (simp_all add: make_space_wf make_space_room make_space_peek)
  then have "read_index ?m \<le> write_index ?m" "write_index ?m + length s \<le> length (mem ?m)"
    by (auto simp: buffer_wf_def writeable_def)
  then have "peek (append_buf b s) = peek ?m @ s"
    by (simp add: append_buf_def peek_def readable_def Let_def memcpy_at_peek)
  with m show ?thesis by simp
qed

lemma retrieve_wf [wf_intros]: "buffer_wf b \<Longrightarrow> buffer_wf (retrieve b n)"
  by (auto simp: buffer_wf_def retrieve_def readable_def)

lemma retrieve_peek [buffer_simps]: "peek (retrieve b n) = drop n (peek b)"
  by (auto simp: retrieve_def peek_def readable_def drop_take add.commute)

lemma retrieve_all_wf [wf_intros]: "buffer_wf b \<Longrightarrow> buffer_wf (retrieve_all b)"
  by (simp add: retrieve_all_def retrieve_wf)

lemma retrieve_all_peek [buffer_simps]: "peek (retrieve_all b) = []"
  by (simp add: retrieve_all_def retrieve_peek) (simp add: peek_def)

lemma buffer_new_peek [buffer_simps]: "peek (buffer_new n) = []"
  by (simp add: peek_def buffer_new_def readable_def)

lemma readable_retrieve_lt: "0 < readable b \<Longrightarrow> 0 < n \<Longrightarrow> readable (retrieve b n) < readable b"
  by (auto simp: retrieve_def readable_def)

lemma readable_retrieve_le: "readable (retrieve b n) \<le> readable b"
  by (auto simp: retrieve_def readable_def)

lemma swap_buf_wf [wf_intros]:
  "buffer_wf a \<Longrightarrow> buffer_wf b \<Longrightarrow> buffer_wf (fst (swap_buf a b)) \<and> buffer_wf (snd (swap_buf a b))"
  by (simp add: swap_buf_def buffer_wf_def)

lemma swap_buf_peek [buffer_simps]: "peek (fst (swap_buf a b)) = peek b" "peek (snd (swap_buf a b)) = peek a"
  by (simp_all add: swap_buf_def peek_def readable_def)

lemma read_fd_wf [wf_intros]: "buffer_wf b \<Longrightarrow> buffer_wf (fst (read_fd b inp))"
proof (cases inp)
  case (Some bs)
  assume wf: "buffer_wf b"
  let ?b1 = "b\<lparr>mem := memcpy_at (mem b) (write_index b) (take (writeable b) bs)\<rparr>"
  have "buffer_wf (?b1\<lparr>write_index := write_index b + writeable b\<rparr>)" if "writeable b < length bs"
    using wf that by (auto simp: buffer_wf_def memcpy_at_def writeable_def)
  moreover have "buffer_wf (?b1\<lparr>write_index := write_index b + length bs\<rparr>)" if "length bs \<le> writeable b"
    using wf that by (auto simp: buffer_wf_def memcpy_at_def writeable_def)
  ultimately show ?thesis
    using Some wf by (auto simp: read_fd_def Let_def intro: append_buf_wf)
qed (simp add: read_fd_def)

lemma read_fd_peek [buffer_simps]:
  assumes wf: "buffer_wf b"
  shows "peek (fst (read_fd b (Some bs))) = peek b @ bs"
proof -
  let ?b1 = "b\<lparr>mem := memcpy_at (mem b) (write_index b) (take (writeable b) bs)\<rparr>"
  show ?thesis
  proof (cases "length bs \<le> writeable b")
    case True
    with wf show ?thesis
      by (auto simp: read_fd_def Let_def peek_def readable_def buffer_wf_def writeable_def memcpy_at_peek)
  next
    case False
    let ?b2 = "?b1\<lparr>write_index := write_index b + writeable b\<rparr>"
    have "buffer_wf ?b2"
      using wf False by (auto simp: buffer_wf_def memcpy_at_def writeable_def)
    moreover have "peek ?b2 = peek b @ take (writeable b) bs"
      using wf False memcpy_at_peek [of "read_index b" "write_index b" "take (writeable b) bs" "mem b"]
      by (simp add: peek_def readable_def buffer_wf_def writeable_def min_def)
    ultimately have "peek (append_buf ?b2 (drop (writeable b) bs)) = peek b @ bs"
      by (simp add: append_buf_peek)
    with False show ?thesis by (auto simp: read_fd_def Let_def)
  qed
qed

lemma c_str_wf [wf_intros]: "buffer_wf b \<Longrightarrow> buffer_wf (fst (c_str b))"
  using make_space_wf [of b 1] by (simp add: c_str_def Let_def buffer_wf_def)

lemma c_str_peek:
  assumes "buffer_wf b"
  shows "peek (fst (c_str b)) = peek b" "snd (c_str b) = takeWhile (\<lambda>c. c \<noteq> NUL) (peek b)"
proof -
  let ?m = "make_space b 1"
  have m: "buffer_wf ?m" "1 \<le> writeable ?m" "peek ?m = peek b"
    using assms by (simp_all add: make_space_wf make_space_room make_space_peek)
  then have i: "read_index ?m \<le> write_index ?m" "write_index ?m < length (mem ?m)"
    by (auto simp: buffer_wf_def writeable_def)
  show "peek (fst (c_str b)) = peek b"
    using m(3) i by (simp add: c_str_def Let_def peek_def readable_def drop_update_swap)
  have "drop (read_index ?m) ((mem ?m)[write_index ?m := NUL])
      = peek ?m @ NUL # drop (Suc (write_index ?m)) (mem ?m)"
    using i by (simp add: peek_def readable_def upd_conv_take_nth_drop drop_take)
  then show "snd (c_str b) = takeWhile (\<lambda>c. c \<noteq> NUL) (peek b)"
    using m(3) by (simp add: c_str_def Let_def takeWhile_append takeWhile_eq_all_conv [THEN iffD2])
qed

section \<open>Queries\<close>

lemma buf_starts_with_iff: "buffer_wf b \<Longrightarrow> buf_starts_with b s \<longleftrightarrow> prefix s (peek b)"
  by (auto simp: buf_starts_with_def length_peek [symmetric] prefix_def) (metis append_take_drop_id)

lemma buf_find_nonempty: "pat \<noteq> [] \<Longrightarrow> buf_find b pat = search pat (peek b)"
  using search_Some_le [of pat "peek b"]
  by (auto simp: buf_find_def split: option.splits)

lemma find_crlf_search: "find_crlf b = search CRLF (peek b)"
  by (simp add: find_crlf_def buf_find_nonempty)

lemma find_lf_search: "find_lf b = search [LF] (peek b)"
  by (simp add: find_lf_def buf_find_nonempty)

section \<open>The contract: a queue of bytes\<close>

datatype buf_op = Append string | Retrieve nat | RetrieveAll

fun list_op :: "buf_op \<Rightarrow> string \<Rightarrow> string" where
  "list_op (Append s) xs = xs @ s"
| "list_op (Retrieve n) xs = drop n xs"
| "list_op RetrieveAll xs = []"

locale byte_stream =
  fixes invar :: "'b \<Rightarrow> bool"
    and content :: "'b \<Rightarrow> string"
    and put :: "'b \<Rightarrow> string \<Rightarrow> 'b"
    and advance :: "'b \<Rightarrow> nat \<Rightarrow> 'b"
    and size_of :: "'b \<Rightarrow> nat"
  assumes put_invar: "invar b \<Longrightarrow> invar (put b s)"
    and put_content: "invar b \<Longrightarrow> content (put b s) = content b @ s"
    and advance_invar: "invar b \<Longrightarrow> invar (advance b n)"
    and advance_content: "invar b \<Longrightarrow> content (advance b n) = drop n (content b)"
    and size_content: "invar b \<Longrightarrow> size_of b = length (content b)"
begin

fun apply_op :: "buf_op \<Rightarrow> 'b \<Rightarrow> 'b" where
  "apply_op (Append s) b = put b s"
| "apply_op (Retrieve n) b = advance b n"
| "apply_op RetrieveAll b = advance b (size_of b)"

lemma apply_op_invar: "invar b \<Longrightarrow> invar (apply_op op b)"
  by (cases op) (simp_all add: put_invar advance_invar)

lemma apply_op_content: "invar b \<Longrightarrow> content (apply_op op b) = list_op op (content b)"
  by (cases op) (simp_all add: put_content advance_content size_content)

lemma run_invar: "invar b \<Longrightarrow> invar (fold apply_op ops b)"
  by (induction ops arbitrary: b) (auto simp: apply_op_invar)

lemma run_content: "invar b \<Longrightarrow> content (fold apply_op ops b) = fold list_op ops (content b)"
  by (induction ops arbitrary: b) (auto simp: apply_op_invar apply_op_content)

text \<open>What was read by a sequence of reads and writes is a prefix of what was written.\<close>

lemma advance_split: "invar b \<Longrightarrow> take n (content b) @ content (advance b n) = content b"
  by (simp add: advance_content)

lemma put_advance: "invar b \<Longrightarrow> n \<le> size_of b \<Longrightarrow>
    content (put (advance b n) s) = content (advance (put b s) n)"
  by (simp add: put_content advance_content put_invar advance_invar size_content)

end

interpretation buf: byte_stream buffer_wf peek append_buf retrieve readable
  by unfold_locales
    (simp_all add: append_buf_wf append_buf_peek retrieve_wf retrieve_peek length_peek)

text \<open>The model's own operations as one step function, for sequences of calls.\<close>

fun buffer_op :: "buf_op \<Rightarrow> buffer \<Rightarrow> buffer" where
  "buffer_op (Append s) b = append_buf b s"
| "buffer_op (Retrieve n) b = retrieve b n"
| "buffer_op RetrieveAll b = retrieve_all b"

lemma buffer_op_eq: "buffer_op = buf.apply_op"
proof (intro ext)
  show "buffer_op op b = buf.apply_op op b" for op b
    by (cases op) (simp_all add: retrieve_all_def)
qed

section \<open>Properties\<close>

text \<open>
  C6: a buffer is a queue of bytes. After any sequence of appends and retrievals on a new buffer of any size
  the unread bytes are those of the same operations on a list, whatever moves and resizes of the
  storage happened, and the two indices are inside the storage.
\<close>

theorem buffer_is_queue:
  "buffer_wf (fold buffer_op ops (buffer_new n)) \<and>
   peek (fold buffer_op ops (buffer_new n)) = fold list_op ops [] \<and>
   readable (fold buffer_op ops (buffer_new n)) = length (fold list_op ops [])"
proof -
  note run = buf.run_invar [OF buffer_new_wf, of ops n] buf.run_content [OF buffer_new_wf, of ops n]
  then show ?thesis using buf.size_content [OF run(1)] by (simp add: buffer_op_eq buffer_new_peek)
qed

text \<open>
  \<^verbatim>\<open>read_fd\<close> appends exactly the bytes \<^verbatim>\<open>readv\<close> returned, in the free space of the buffer and, what
  does not fit there, by way of the extra array on the stack; a failed read changes nothing.
\<close>

theorem read_fd_appends:
  assumes "buffer_wf b"
  shows "peek (fst (read_fd b (Some bs))) = peek b @ bs \<and> buffer_wf (fst (read_fd b (Some bs))) \<and>
    fst (read_fd b None) = b"
  using assms by (simp add: read_fd_peek read_fd_wf) (simp add: read_fd_def)

theorem read_fd_appends_witness:
  "peek (fst (read_fd (append_buf (buffer_new 1) ''ab'') (Some ''cde''))) = ''abcde''"
proof -
  have "buffer_wf (append_buf (buffer_new 1) ''ab'')" "peek (append_buf (buffer_new 1) ''ab'') = ''ab''"
    by (simp_all add: append_buf_wf append_buf_peek buffer_new_wf buffer_new_peek)
  with read_fd_appends [of "append_buf (buffer_new 1) ''ab''" "''cde''"] show ?thesis by simp
qed

end
