(* ===== verification/Dispatcher.thy ===== *)
theory Dispatcher
  imports Prelude
begin

unbundle bit_operations_syntax

text \<open>
  The I/O multiplexing back ends behind \<^verbatim>\<open>class dispatcher\<close>: \<^verbatim>\<open>src/select.cc\<close>, \<^verbatim>\<open>src/poll.cc\<close>,
  \<^verbatim>\<open>src/epoll.cc\<close> and \<^verbatim>\<open>src/kqueue.cc\<close>, with \<^verbatim>\<open>resize_if\<close> of \<^verbatim>\<open>src/dispatcher.h\<close>. Each keeps the events of
  interest per file descriptor in its own data structure. The locale \<open>dispatcher\<close> is the contract
  of the abstract class (a map from descriptors to the two kinds of interest), and all four back
  ends are interpretations of it. An access behind the end of a vector is the result \<open>None\<close>.
\<close>

section \<open>Event masks\<close>

type_synonym mask = u32

definition Read :: mask where "Read = 1"
definition Write :: mask where "Write = 2"
definition Error :: mask where "Error = 4"

abbreviation has :: "mask \<Rightarrow> mask \<Rightarrow> bool" where
  "has m ev \<equiv> m AND ev \<noteq> 0"

lemma and_two_power: "(m AND 1 = 0) = (\<not> bit m 0)" "(m AND 2 = 0) = (\<not> bit m (Suc 0))"
  "(m AND 4 = 0) = (\<not> bit m 2)" "(m AND 8 = 0) = (\<not> bit m 3)"
  for m :: mask
  using and_exp_eq_0_iff_not_bit [of m 0] and_exp_eq_0_iff_not_bit [of m 1]
    and_exp_eq_0_iff_not_bit [of m 2] and_exp_eq_0_iff_not_bit [of m 3]
  by simp_all

lemmas mask_bits = Read_def Write_def Error_def and_two_power bit_or_iff bit_and_iff bit_not_iff

lemma bit_event_masks [simp]:
  "bit (1 :: mask) n \<longleftrightarrow> n = 0" "bit (2 :: mask) n \<longleftrightarrow> n = 1" "bit (4 :: mask) n \<longleftrightarrow> n = 2"
proof -
  have "bit (2 ^ k :: mask) n \<longleftrightarrow> n = k" if "k < 32" for k
    using that by (auto simp: bit_exp_iff)
  from this [of 0] this [of 1] this [of 2]
  show "bit (1 :: mask) n \<longleftrightarrow> n = 0" "bit (2 :: mask) n \<longleftrightarrow> n = 1" "bit (4 :: mask) n \<longleftrightarrow> n = 2"
    by simp_all
qed

text \<open>The two interests a mask expresses.\<close>

definition want :: "mask \<Rightarrow> bool \<times> bool" where
  "want m = (has m Read, has m Write)"

definition want_add :: "bool \<times> bool \<Rightarrow> mask \<Rightarrow> bool \<times> bool" where
  "want_add i ev = (fst i \<or> has ev Read, snd i \<or> has ev Write)"

definition want_remove :: "bool \<times> bool \<Rightarrow> mask \<Rightarrow> bool \<times> bool" where
  "want_remove i ev = (fst i \<and> \<not> has ev Read, snd i \<and> \<not> has ev Write)"

lemma want_or: "want (m OR ev) = want_add (want m) ev"
  by (simp add: want_def want_add_def mask_bits)

lemma want_and_not: "want (m AND NOT ev) = want_remove (want m) ev"
  by (auto simp: want_def want_remove_def mask_bits)

lemma want_0 [simp]: "want 0 = (False, False)"
  by (simp add: want_def)

text \<open>A mask of events a back end is asked for: \<^verbatim>\<open>Read\<close>, \<^verbatim>\<open>Write\<close> or both, nothing else.\<close>

definition rw_mask :: "mask \<Rightarrow> bool" where
  "rw_mask m \<longleftrightarrow> take_bit 2 m = m"

lemma rw_mask_bit: "rw_mask m \<Longrightarrow> bit m n \<Longrightarrow> n < 2"
  by (metis bit_take_bit_iff rw_mask_def)

lemma rw_mask_or: "rw_mask a \<Longrightarrow> rw_mask b \<Longrightarrow> rw_mask (a OR b)"
  by (simp add: rw_mask_def)

lemma rw_mask_and_not: "rw_mask a \<Longrightarrow> rw_mask (a AND NOT b)"
  by (rule rw_mask_def [THEN iffD2], rule bit_word_eqI)
    (auto simp: bit_take_bit_iff bit_and_iff dest: rw_mask_bit)

lemma rw_mask_0 [simp]: "rw_mask 0"
  by (simp add: rw_mask_def)

lemma want_eq_0: "rw_mask m \<Longrightarrow> want m = (False, False) \<longleftrightarrow> m = 0"
proof
  assume a: "rw_mask m" "want m = (False, False)"
  show "m = 0"
  proof (rule bit_word_eqI)
    fix n
    show "bit m n = bit 0 n"
      using a rw_mask_bit [of m n] by (cases "n = 0"; cases "n = 1") (auto simp: want_def mask_bits)
  qed
qed simp

text \<open>\<^verbatim>\<open>resize_if\<close> doubles a vector once when the index is outside of it.\<close>

definition resize_if :: "nat \<Rightarrow> 'a list \<Rightarrow> 'a \<Rightarrow> 'a list" where
  "resize_if i vec z = (if i \<ge> length vec then vec @ replicate (length vec) z else vec)"

lemma length_resize_if: "length (resize_if i v z) = (if i \<ge> length v then 2 * length v else length v)"
  by (simp add: resize_if_def)

lemma nth_resize_if: "j < length v \<Longrightarrow> resize_if i v z ! j = v ! j"
  by (simp add: resize_if_def nth_append)

definition EVLIST_INIT_SIZE :: nat where
  "EVLIST_INIT_SIZE = 64"

section \<open>The contract of a back end\<close>

locale dispatcher =
  fixes invar :: "'d \<Rightarrow> bool"
    and interest :: "'d \<Rightarrow> nat \<Rightarrow> bool \<times> bool"
    and accepts :: "'d \<Rightarrow> nat \<Rightarrow> bool"
    and add :: "'d \<Rightarrow> nat \<Rightarrow> mask \<Rightarrow> 'd option"
    and remove :: "'d \<Rightarrow> nat \<Rightarrow> mask \<Rightarrow> 'd option"
  assumes add_ok: "invar d \<Longrightarrow> accepts d fd \<Longrightarrow> rw_mask ev \<Longrightarrow> ev \<noteq> 0 \<Longrightarrow> \<exists>d'. add d fd ev = Some d'"
    and add_interest: "invar d \<Longrightarrow> rw_mask ev \<Longrightarrow> ev \<noteq> 0 \<Longrightarrow> add d fd ev = Some d' \<Longrightarrow>
      invar d' \<and> interest d' = (interest d)(fd := want_add (interest d fd) ev)"
    and remove_ok: "invar d \<Longrightarrow> interest d fd \<noteq> (False, False) \<Longrightarrow> \<exists>d'. remove d fd ev = Some d'"
    and remove_interest: "invar d \<Longrightarrow> interest d fd \<noteq> (False, False) \<Longrightarrow> remove d fd ev = Some d' \<Longrightarrow>
      invar d' \<and> interest d' = (interest d)(fd := want_remove (interest d fd) ev)"
    and add_accepts: "add d fd ev = Some d' \<Longrightarrow> accepts d x \<Longrightarrow> accepts d' x"
    and remove_accepts: "remove d fd ev = Some d' \<Longrightarrow> accepts d x \<Longrightarrow> accepts d' x"
begin

lemma add_other: "invar d \<Longrightarrow> rw_mask ev \<Longrightarrow> ev \<noteq> 0 \<Longrightarrow> add d fd ev = Some d' \<Longrightarrow> fd' \<noteq> fd \<Longrightarrow>
    interest d' fd' = interest d fd'"
  by (drule (3) add_interest) simp

lemma add_remove:
  assumes "invar d" and ev: "rw_mask ev" "ev \<noteq> 0" and "interest d fd = (False, False)"
    and "add d fd ev = Some d1" and "remove d1 fd ev = Some d2"
  shows "invar d2 \<and> interest d2 = interest d"
proof -
  from assms have d1: "invar d1" "interest d1 = (interest d)(fd := want ev)"
    using add_interest [OF assms(1) ev] by (auto simp: want_add_def want_def)
  then have "interest d1 fd \<noteq> (False, False)" using ev by (simp add: want_eq_0)
  with d1 assms have "invar d2 \<and> interest d2 = (interest d1)(fd := want_remove (interest d1 fd) ev)"
    using remove_interest by blast
  with d1 assms show ?thesis by (auto simp: want_remove_def want_def fun_eq_iff)
qed

end

section \<open>epoll\<close>

text \<open>
  \<^verbatim>\<open>evmap\<close> is the vector of filters, \<^verbatim>\<open>evlist\<close> the result array of \<^verbatim>\<open>epoll_wait\<close>, of which only the length
  matters; \<open>kernel\<close> is the interest list inside the kernel, updated by \<^verbatim>\<open>epoll_ctl\<close> (ADD fails for a known and MOD and DEL for an
  unknown descriptor). \<^verbatim>\<open>EEV_SET\<close> ors the two flags into the \<^verbatim>\<open>events\<close> member of a stack variable that
  is not initialised: its previous value is the argument \<open>junk\<close>.
\<close>

record epoll_base =
  evmap :: "mask list"
  evlist_size :: nat
  added_fds :: int
  kernel :: "nat \<rightharpoonup> mask"

definition EPOLLIN :: mask where "EPOLLIN = 1"
definition EPOLLOUT :: mask where "EPOLLOUT = 4"
definition EPOLLERR :: mask where "EPOLLERR = 8"

definition eev_set :: "mask \<Rightarrow> mask \<Rightarrow> mask" where
  "eev_set junk flt =
     junk OR (if has flt Read then EPOLLIN else 0) OR (if has flt Write then EPOLLOUT else 0)"

datatype epoll_op = CtlAdd | CtlMod | CtlDel

fun epoll_ctl :: "epoll_op \<Rightarrow> nat \<Rightarrow> mask \<Rightarrow> (nat \<rightharpoonup> mask) \<Rightarrow> (nat \<rightharpoonup> mask)" where
  "epoll_ctl CtlAdd fd ev k = (if k fd = None then k(fd \<mapsto> ev) else k)"
| "epoll_ctl CtlMod fd ev k = (if k fd = None then k else k(fd \<mapsto> ev))"
| "epoll_ctl CtlDel fd ev k = k(fd := None)"

definition epoll_new :: epoll_base where
  "epoll_new = \<lparr>evmap = replicate EVLIST_INIT_SIZE 0, evlist_size = EVLIST_INIT_SIZE,
     added_fds = 0, kernel = (\<lambda>_. None)\<rparr>"

definition epoll_add :: "mask \<Rightarrow> epoll_base \<Rightarrow> nat \<Rightarrow> mask \<Rightarrow> epoll_base option" where
  "epoll_add junk d fd ev =
     (let em = resize_if fd (evmap d) 0
      in if fd \<ge> length em then None
         else
           let flt = em ! fd;
               op = (if flt \<noteq> 0 then CtlMod else CtlAdd);
               d1 = (if flt = 0
                     then d\<lparr>added_fds := added_fds d + 1,
                            evlist_size := (if added_fds d + 1 \<ge> int (evlist_size d)
                                            then 2 * evlist_size d else evlist_size d)\<rparr>
                     else d);
               flt' = flt OR ev
           in Some (d1\<lparr>evmap := em[fd := flt'],
                       kernel := epoll_ctl op fd (eev_set junk flt') (kernel d1)\<rparr>))"

definition epoll_remove :: "mask \<Rightarrow> epoll_base \<Rightarrow> nat \<Rightarrow> mask \<Rightarrow> epoll_base option" where
  "epoll_remove junk d fd ev =
     (if fd \<ge> length (evmap d) then None
      else
        let flt = evmap d ! fd AND NOT ev;
            d1 = d\<lparr>evmap := (evmap d)[fd := flt]\<rparr>
        in Some (if flt \<noteq> 0 then d1\<lparr>kernel := epoll_ctl CtlMod fd (eev_set junk flt) (kernel d1)\<rparr>
                 else d1\<lparr>added_fds := added_fds d1 - 1,
                         kernel := epoll_ctl CtlDel fd 0 (kernel d1)\<rparr>))"

definition epoll_evret :: "mask \<Rightarrow> mask" where
  "epoll_evret ev = (if has ev EPOLLIN then Read else 0) OR (if has ev EPOLLOUT then Write else 0)
     OR (if has ev EPOLLERR then Error else 0)"

text \<open>\<^verbatim>\<open>epoll_wait\<close> reported \<open>evs\<close>: the channels to activate with their trigger, and the return value.\<close>

definition epoll_wait :: "(nat \<times> mask) list option \<Rightarrow> (nat \<times> mask) list \<times> int" where
  "epoll_wait res =
     (case res of None \<Rightarrow> ([], -1)
      | Some evs \<Rightarrow> (map (\<lambda>(fd, ev). (fd, epoll_evret ev)) evs, int (length evs)))"

definition vec_interest :: "mask list \<Rightarrow> nat \<Rightarrow> bool \<times> bool" where
  "vec_interest em fd = (if fd < length em then want (em ! fd) else (False, False))"

text \<open>
  The filters hold only the two interests, the counter counts the descriptors with an interest,
  and the result array is longer than that count.
\<close>

definition evmap_ok :: "mask list \<Rightarrow> int \<Rightarrow> nat \<Rightarrow> bool" where
  "evmap_ok em n sz \<longleftrightarrow>
     (\<forall>m \<in> set em. rw_mask m) \<and>
     n = int (length (filter (\<lambda>m. m \<noteq> 0) em)) \<and> n < int sz \<and> 0 < length em"

definition epoll_invar :: "epoll_base \<Rightarrow> bool" where
  "epoll_invar d \<longleftrightarrow> evmap_ok (evmap d) (added_fds d) (evlist_size d)"

lemma vec_interest_resize: "vec_interest (resize_if i em 0) = vec_interest em"
  by (auto simp: fun_eq_iff vec_interest_def resize_if_def nth_append)

lemma vec_interest_update: "fd < length em \<Longrightarrow> vec_interest (em[fd := m]) = (vec_interest em)(fd := want m)"
  by (auto simp: fun_eq_iff vec_interest_def)

lemma filter_update_count:
  "i < length em \<Longrightarrow> int (length (filter P (em[i := m]))) =
     int (length (filter P em)) - of_bool (P (em ! i)) + of_bool (P m)"
proof (induction em arbitrary: i)
  case (Cons x xs)
  then show ?case by (cases i) auto
qed simp

lemma evmap_ok_update:
  assumes "evmap_ok em n sz" and "fd < length em" and "rw_mask m"
    and "n' = n - of_bool (em ! fd \<noteq> 0) + of_bool (m \<noteq> 0)" and "n' < int sz'"
  shows "evmap_ok (em[fd := m]) n' sz'"
  using assms set_update_subset_insert [of em fd m]
  by (auto simp: evmap_ok_def filter_update_count subset_iff)

lemma evmap_ok_resize: "evmap_ok em n sz \<Longrightarrow> evmap_ok (resize_if i em 0) n sz"
  by (auto simp: evmap_ok_def resize_if_def)

lemma evmap_ok_rw: "evmap_ok em n sz \<Longrightarrow> fd < length em \<Longrightarrow> rw_mask (em ! fd)"
  by (simp add: evmap_ok_def)

lemma or_eq_0_mask: "a OR b = 0 \<longleftrightarrow> a = 0 \<and> b = (0 :: mask)"
  by (metis or_eq_0_iff)

lemma epoll_add_laws:
  assumes "epoll_invar d" and "rw_mask ev" "ev \<noteq> 0" and "epoll_add junk d fd ev = Some d'"
  shows "epoll_invar d' \<and> vec_interest (evmap d') = (vec_interest (evmap d))(fd := want_add (vec_interest (evmap d) fd) ev)"
proof -
  let ?em = "resize_if fd (evmap d) 0"
  from assms(4) have fd: "fd < length ?em" by (auto simp: epoll_add_def Let_def split: if_splits)
  with assms(4) have e: "evmap d' = ?em[fd := ?em ! fd OR ev]"
    and n: "added_fds d' = added_fds d + of_bool (?em ! fd = 0)"
    and z: "evlist_size d' = (if ?em ! fd = 0 \<and> added_fds d + 1 \<ge> int (evlist_size d)
        then 2 * evlist_size d else evlist_size d)"
    by (auto simp: epoll_add_def Let_def)
  from assms(1) have ok: "evmap_ok ?em (added_fds d) (evlist_size d)"
    by (simp add: epoll_invar_def evmap_ok_resize)
  then have sz: "added_fds d < int (evlist_size d)" "0 \<le> added_fds d" by (auto simp: evmap_ok_def)
  have "epoll_invar d'"
    unfolding epoll_invar_def e
  proof (rule evmap_ok_update [OF ok fd])
    show "rw_mask (?em ! fd OR ev)" using ok fd assms(2) by (intro rw_mask_or evmap_ok_rw)
    show "added_fds d' = added_fds d - of_bool (?em ! fd \<noteq> 0) + of_bool (?em ! fd OR ev \<noteq> 0)"
      using assms(3) by (simp add: n or_eq_0_mask)
    show "added_fds d' < int (evlist_size d')" using sz by (auto simp: n z)
  qed
  moreover have "want (?em ! fd) = vec_interest (evmap d) fd"
    using fd by (metis vec_interest_def vec_interest_resize)
  ultimately show ?thesis
    by (simp add: e vec_interest_update [OF fd] vec_interest_resize want_or)
qed

lemma epoll_remove_laws:
  assumes "epoll_invar d" and "vec_interest (evmap d) fd \<noteq> (False, False)"
    and "epoll_remove junk d fd ev = Some d'"
  shows "epoll_invar d' \<and> vec_interest (evmap d') = (vec_interest (evmap d))(fd := want_remove (vec_interest (evmap d) fd) ev)"
proof -
  let ?m = "evmap d ! fd AND NOT ev"
  from assms(2) have fd: "fd < length (evmap d)" and nz: "evmap d ! fd \<noteq> 0"
    by (auto simp: vec_interest_def split: if_splits)
  with assms(3) have e: "evmap d' = (evmap d)[fd := ?m]" and z: "evlist_size d' = evlist_size d"
    and n: "added_fds d' = added_fds d - of_bool (?m = 0)"
    by (auto simp: epoll_remove_def Let_def)
  from assms(1) have ok: "evmap_ok (evmap d) (added_fds d) (evlist_size d)"
    by (simp add: epoll_invar_def)
  have "epoll_invar d'"
    unfolding epoll_invar_def e
  proof (rule evmap_ok_update [OF ok fd])
    show "rw_mask ?m" using ok fd by (intro rw_mask_and_not evmap_ok_rw)
    show "added_fds d' = added_fds d - of_bool (evmap d ! fd \<noteq> 0) + of_bool (?m \<noteq> 0)"
      using nz by (simp add: n)
    show "added_fds d' < int (evlist_size d')" using ok by (auto simp: n z evmap_ok_def)
  qed
  then show ?thesis
    using fd by (simp add: e vec_interest_update want_and_not) (simp add: vec_interest_def)
qed

text \<open>
  \<^verbatim>\<open>add\<close> succeeds for a descriptor below twice the length of the filter vector only: the vector is
  doubled once, however far the descriptor is behind its end.
\<close>

definition vec_accepts :: "mask list \<Rightarrow> nat \<Rightarrow> bool" where
  "vec_accepts em fd \<longleftrightarrow> fd < 2 * length em"

lemma epoll_add_None: "epoll_add junk d fd ev = None \<longleftrightarrow> evmap d = [] \<or> 2 * length (evmap d) \<le> fd"
  by (auto simp: epoll_add_def Let_def length_resize_if)

interpretation epoll: dispatcher epoll_invar "\<lambda>d. vec_interest (evmap d)" "\<lambda>d. vec_accepts (evmap d)"
  "epoll_add 0" "epoll_remove 0"
proof (unfold_locales, goal_cases)
  case (1 d fd ev)
  then show ?case using epoll_add_None [of 0 d fd ev]
    by (cases "epoll_add 0 d fd ev") (auto simp: vec_accepts_def epoll_invar_def evmap_ok_def)
next
  case (2 d ev fd d')
  then show ?case by (rule epoll_add_laws)
next
  case (3 d fd ev)
  then show ?case by (auto simp: epoll_remove_def vec_interest_def Let_def split: if_splits)
next
  case (4 d fd ev d')
  then show ?case by (rule epoll_remove_laws)
next
  case (5 d fd ev d' x)
  then show ?case
    by (auto simp: epoll_add_def vec_accepts_def Let_def length_resize_if split: if_splits)
next
  case (6 d fd ev d' x)
  then show ?case by (auto simp: epoll_remove_def vec_accepts_def Let_def split: if_splits)
qed

text \<open>The kernel's interest list agrees with the filters, provided \<^verbatim>\<open>eev.events\<close> starts out as zero.\<close>

definition kernel_agrees :: "epoll_base \<Rightarrow> bool" where
  "kernel_agrees d \<longleftrightarrow>
     kernel d = (\<lambda>fd. if fd < length (evmap d) \<and> evmap d ! fd \<noteq> 0
                     then Some (eev_set 0 (evmap d ! fd)) else None)"

lemma kernel_agrees_new: "kernel_agrees epoll_new"
  by (auto simp: kernel_agrees_def epoll_new_def fun_eq_iff)

lemma kernel_agrees_add:
  assumes "kernel_agrees d" and "ev \<noteq> 0" and "epoll_add 0 d fd ev = Some d'"
  shows "kernel_agrees d'"
proof -
  let ?em = "resize_if fd (evmap d) 0"
  have k: "kernel d x = (if x < length ?em \<and> ?em ! x \<noteq> 0 then Some (eev_set 0 (?em ! x)) else None)" for x
    using assms(1) by (auto simp: kernel_agrees_def resize_if_def nth_append)
  from assms(3) have fd: "fd < length ?em" by (auto simp: epoll_add_def Let_def split: if_splits)
  with assms(3) have "evmap d' = ?em[fd := ?em ! fd OR ev]"
    and "kernel d' = epoll_ctl (if ?em ! fd \<noteq> 0 then CtlMod else CtlAdd) fd (eev_set 0 (?em ! fd OR ev)) (kernel d)"
    by (auto simp: epoll_add_def Let_def)
  with fd k assms(2) show ?thesis
    by (auto simp: kernel_agrees_def fun_eq_iff nth_list_update or_eq_0_mask)
qed

lemma kernel_agrees_remove:
  assumes "kernel_agrees d" and "epoll_remove 0 d fd ev = Some d'"
    and "vec_interest (evmap d) fd \<noteq> (False, False)"
  shows "kernel_agrees d'"
proof -
  let ?m = "evmap d ! fd AND NOT ev"
  from assms(3) have fd: "fd < length (evmap d)" and nz: "evmap d ! fd \<noteq> 0"
    by (auto simp: vec_interest_def split: if_splits)
  with assms(2) have "evmap d' = (evmap d)[fd := ?m]"
    and "kernel d' = (if ?m \<noteq> 0 then epoll_ctl CtlMod fd (eev_set 0 ?m) (kernel d)
       else epoll_ctl CtlDel fd 0 (kernel d))"
    by (auto simp: epoll_remove_def Let_def)
  with fd nz assms(1) show ?thesis
    by (auto simp: kernel_agrees_def fun_eq_iff nth_list_update)
qed

section \<open>kqueue\<close>

text \<open>
  The kernel holds one entry per descriptor and filter; \<^verbatim>\<open>EV_ADD\<close> of a known entry changes nothing,
  \<^verbatim>\<open>EV_DELETE\<close> removes it.
\<close>

record kqueue_base =
  kq_evmap :: "mask list"
  kq_evlist_size :: nat
  kq_added_fds :: int
  kq_read :: "nat set"
  kq_write :: "nat set"

definition kqueue_new :: kqueue_base where
  "kqueue_new = \<lparr>kq_evmap = replicate EVLIST_INIT_SIZE 0, kq_evlist_size = EVLIST_INIT_SIZE,
     kq_added_fds = 0, kq_read = {}, kq_write = {}\<rparr>"

definition kqueue_add :: "kqueue_base \<Rightarrow> nat \<Rightarrow> mask \<Rightarrow> kqueue_base option" where
  "kqueue_add d fd ev =
     (let d1 = d\<lparr>kq_read := (if has ev Read then insert fd (kq_read d) else kq_read d),
                 kq_write := (if has ev Write then insert fd (kq_write d) else kq_write d)\<rparr>;
          em = resize_if fd (kq_evmap d) 0
      in if fd \<ge> length em then None
         else
           let d2 = (if em ! fd = 0
                     then d1\<lparr>kq_added_fds := kq_added_fds d1 + 1,
                             kq_evlist_size := (if kq_added_fds d1 + 1 \<ge> int (kq_evlist_size d1)
                                               then 2 * kq_evlist_size d1 else kq_evlist_size d1)\<rparr>
                     else d1)
           in Some (d2\<lparr>kq_evmap := em[fd := em ! fd OR ev]\<rparr>))"

definition kqueue_remove :: "kqueue_base \<Rightarrow> nat \<Rightarrow> mask \<Rightarrow> kqueue_base option" where
  "kqueue_remove d fd ev =
     (let d1 = d\<lparr>kq_read := (if has ev Read then kq_read d - {fd} else kq_read d),
                 kq_write := (if has ev Write then kq_write d - {fd} else kq_write d)\<rparr>
      in if fd \<ge> length (kq_evmap d) then None
         else
           let flt = kq_evmap d ! fd AND NOT ev; d2 = d1\<lparr>kq_evmap := (kq_evmap d)[fd := flt]\<rparr>
           in Some (if flt = 0 then d2\<lparr>kq_added_fds := kq_added_fds d2 - 1\<rparr> else d2))"

datatype kfilter = EvfiltRead | EvfiltWrite | EvfiltOther bool \<comment> \<open>is the flag EV_ERROR?\<close>

fun kqueue_evret :: "kfilter \<Rightarrow> mask" where
  "kqueue_evret EvfiltRead = Read"
| "kqueue_evret EvfiltWrite = Write"
| "kqueue_evret (EvfiltOther err) = (if err then Error else 0)"

text \<open>
  \<^verbatim>\<open>wait\<close>: several events of one descriptor come separately; the triggers are or-ed, and the channel is
  entered once per event.
\<close>

fun kqueue_collect :: "(nat \<times> kfilter) list \<Rightarrow> (nat \<Rightarrow> mask) \<Rightarrow> nat list \<Rightarrow> (nat \<Rightarrow> mask) \<times> nat list" where
  "kqueue_collect [] trig act = (trig, act)"
| "kqueue_collect ((fd, f) # evs) trig act =
     kqueue_collect evs (trig(fd := trig fd OR kqueue_evret f)) (act @ [fd])"

definition kqueue_invar :: "kqueue_base \<Rightarrow> bool" where
  "kqueue_invar d \<longleftrightarrow>
     evmap_ok (kq_evmap d) (kq_added_fds d) (kq_evlist_size d) \<and>
     (\<forall>fd. vec_interest (kq_evmap d) fd = (fd \<in> kq_read d, fd \<in> kq_write d))"

lemma kqueue_add_laws:
  assumes "kqueue_invar d" and "rw_mask ev" "ev \<noteq> 0" and "kqueue_add d fd ev = Some d'"
  shows "kqueue_invar d' \<and>
    vec_interest (kq_evmap d') = (vec_interest (kq_evmap d))(fd := want_add (vec_interest (kq_evmap d) fd) ev)"
proof -
  let ?em = "resize_if fd (kq_evmap d) 0"
  from assms(4) have fd: "fd < length ?em" by (auto simp: kqueue_add_def Let_def split: if_splits)
  then have e: "kq_evmap d' = ?em[fd := ?em ! fd OR ev]"
    and n: "kq_added_fds d' = kq_added_fds d + of_bool (?em ! fd = 0)"
    and z: "kq_evlist_size d' = (if ?em ! fd = 0 \<and> kq_added_fds d + 1 \<ge> int (kq_evlist_size d)
        then 2 * kq_evlist_size d else kq_evlist_size d)"
    and k: "kq_read d' = (if has ev Read then insert fd (kq_read d) else kq_read d)"
      "kq_write d' = (if has ev Write then insert fd (kq_write d) else kq_write d)"
    by (simp_all add: arg_cong [where f = the, OF assms(4), simplified, symmetric] kqueue_add_def Let_def)
  from assms(1) have ok: "evmap_ok ?em (kq_added_fds d) (kq_evlist_size d)"
    by (simp add: kqueue_invar_def evmap_ok_resize)
  then have sz: "kq_added_fds d < int (kq_evlist_size d)" "0 \<le> kq_added_fds d" by (auto simp: evmap_ok_def)
  have ok': "evmap_ok (kq_evmap d') (kq_added_fds d') (kq_evlist_size d')"
    unfolding e
  proof (rule evmap_ok_update [OF ok fd])
    show "rw_mask (?em ! fd OR ev)" using ok fd assms(2) by (intro rw_mask_or evmap_ok_rw)
    show "kq_added_fds d' = kq_added_fds d - of_bool (?em ! fd \<noteq> 0) + of_bool (?em ! fd OR ev \<noteq> 0)"
      using assms(3) by (simp add: n or_eq_0_mask)
    show "kq_added_fds d' < int (kq_evlist_size d')" using sz by (auto simp: n z)
  qed
  have "want (?em ! fd) = vec_interest (kq_evmap d) fd"
    using fd by (metis vec_interest_def vec_interest_resize)
  then have i: "vec_interest (kq_evmap d') = (vec_interest (kq_evmap d))(fd := want_add (vec_interest (kq_evmap d) fd) ev)"
    by (simp add: e vec_interest_update [OF fd] vec_interest_resize want_or)
  with ok' k assms(1) show ?thesis
    by (auto simp: kqueue_invar_def want_add_def)
qed

lemma kqueue_remove_laws:
  assumes "kqueue_invar d" and "vec_interest (kq_evmap d) fd \<noteq> (False, False)"
    and "kqueue_remove d fd ev = Some d'"
  shows "kqueue_invar d' \<and>
    vec_interest (kq_evmap d') = (vec_interest (kq_evmap d))(fd := want_remove (vec_interest (kq_evmap d) fd) ev)"
proof -
  let ?m = "kq_evmap d ! fd AND NOT ev"
  from assms(2) have fd: "fd < length (kq_evmap d)" and nz: "kq_evmap d ! fd \<noteq> 0"
    by (auto simp: vec_interest_def split: if_splits)
  then have e: "kq_evmap d' = (kq_evmap d)[fd := ?m]" and z: "kq_evlist_size d' = kq_evlist_size d"
    and n: "kq_added_fds d' = kq_added_fds d - of_bool (?m = 0)"
    and k: "kq_read d' = (if has ev Read then kq_read d - {fd} else kq_read d)"
      "kq_write d' = (if has ev Write then kq_write d - {fd} else kq_write d)"
    by (simp_all add: arg_cong [where f = the, OF assms(3), simplified, symmetric] kqueue_remove_def Let_def)
  from assms(1) have ok: "evmap_ok (kq_evmap d) (kq_added_fds d) (kq_evlist_size d)"
    by (simp add: kqueue_invar_def)
  have ok': "evmap_ok (kq_evmap d') (kq_added_fds d') (kq_evlist_size d')"
    unfolding e
  proof (rule evmap_ok_update [OF ok fd])
    show "rw_mask ?m" using ok fd by (intro rw_mask_and_not evmap_ok_rw)
    show "kq_added_fds d' = kq_added_fds d - of_bool (kq_evmap d ! fd \<noteq> 0) + of_bool (?m \<noteq> 0)"
      using nz by (simp add: n)
    show "kq_added_fds d' < int (kq_evlist_size d')" using ok by (auto simp: n z evmap_ok_def)
  qed
  have "vec_interest (kq_evmap d') = (vec_interest (kq_evmap d))(fd := want_remove (vec_interest (kq_evmap d) fd) ev)"
    using fd by (simp add: e vec_interest_update want_and_not) (simp add: vec_interest_def)
  with ok' k assms(1) show ?thesis by (auto simp: kqueue_invar_def want_remove_def)
qed

interpretation kqueue: dispatcher kqueue_invar "\<lambda>d. vec_interest (kq_evmap d)"
  "\<lambda>d. vec_accepts (kq_evmap d)" kqueue_add kqueue_remove
proof (unfold_locales, goal_cases)
  case (1 d fd ev)
  then show ?case
    by (auto simp: kqueue_add_def Let_def vec_accepts_def length_resize_if)
next
  case (2 d ev fd d')
  then show ?case by (rule kqueue_add_laws)
next
  case (3 d fd ev)
  then show ?case by (auto simp: kqueue_remove_def vec_interest_def Let_def split: if_splits)
next
  case (4 d fd ev d')
  then show ?case by (rule kqueue_remove_laws)
next
  case (5 d fd ev d' x)
  then show ?case
    by (auto simp: kqueue_add_def vec_accepts_def Let_def length_resize_if split: if_splits)
next
  case (6 d fd ev d' x)
  then show ?case by (auto simp: kqueue_remove_def vec_accepts_def Let_def split: if_splits)
qed

lemma kqueue_collect_trigger:
  "fst (kqueue_collect evs trig act) fd =
     fold (\<lambda>f m. m OR kqueue_evret f) (map snd (filter (\<lambda>e. fst e = fd) evs)) (trig fd)"
proof (induction evs arbitrary: trig act)
  case (Cons e evs)
  then show ?case by (cases e) simp
qed simp

lemma kqueue_collect_active: "snd (kqueue_collect evs trig act) = act @ map fst evs"
proof (induction evs arbitrary: trig act)
  case (Cons e evs)
  then show ?case by (cases e) simp
qed simp

section \<open>poll\<close>

text \<open>
  \<^verbatim>\<open>pollfds\<close> is the array handed to \<^verbatim>\<open>poll(2)\<close>, \<^verbatim>\<open>indexs\<close> the position of each descriptor in it. \<^verbatim>\<open>remove\<close>
  moves the last entry into the hole.
\<close>

record pollfd =
  pfd_fd :: nat
  pfd_events :: mask
  pfd_revents :: mask

record poll_base =
  pollfds :: "pollfd list"
  indexs :: "nat \<rightharpoonup> nat"

definition POLLIN :: mask where "POLLIN = 1"
definition POLLOUT :: mask where "POLLOUT = 4"
definition POLLERR :: mask where "POLLERR = 8"
definition POLLHUP :: mask where "POLLHUP = 16"

definition poll_evmap :: "mask \<Rightarrow> mask" where
  "poll_evmap ev = (if has ev Read then POLLIN else 0) OR (if has ev Write then POLLOUT else 0)"

definition poll_new :: poll_base where
  "poll_new = \<lparr>pollfds = [], indexs = (\<lambda>_. None)\<rparr>"

definition poll_add :: "poll_base \<Rightarrow> nat \<Rightarrow> mask \<Rightarrow> poll_base option" where
  "poll_add d fd ev =
     (let poll_events = poll_evmap ev
      in case indexs d fd of
           None \<Rightarrow>
             let pfds = pollfds d @ [\<lparr>pfd_fd = fd, pfd_events = poll_events, pfd_revents = 0\<rparr>]
             in Some (d\<lparr>pollfds := pfds, indexs := (indexs d)(fd \<mapsto> length pfds - 1)\<rparr>)
         | Some i \<Rightarrow>
             if i \<ge> length (pollfds d) then None
             else Some (d\<lparr>pollfds := (pollfds d)[i := (pollfds d ! i)
                          \<lparr>pfd_events := pfd_events (pollfds d ! i) OR poll_events\<rparr>]\<rparr>))"

definition poll_remove :: "poll_base \<Rightarrow> nat \<Rightarrow> mask \<Rightarrow> poll_base option" where
  "poll_remove d fd ev =
     (let poll_events = poll_evmap ev
      in case indexs d fd of
           None \<Rightarrow> Some d
         | Some i \<Rightarrow>
             if i \<ge> length (pollfds d) then None
             else
               let pfd = (pollfds d ! i)\<lparr>pfd_events := pfd_events (pollfds d ! i) AND NOT poll_events\<rparr>;
                   pfds = (pollfds d)[i := pfd]
               in if pfd_events pfd = 0 then
                    let back = last pfds;
                        idx = ((indexs d)(pfd_fd back \<mapsto> i))(fd := None)
                    in Some (d\<lparr>pollfds := butlast (pfds[i := back]), indexs := idx\<rparr>)
                  else Some (d\<lparr>pollfds := pfds\<rparr>))"

definition poll_evret :: "mask \<Rightarrow> mask" where
  "poll_evret revents =
     (if revents = POLLIN OR POLLHUP then Read OR Write
      else (if has revents POLLIN then Read else 0) OR (if has revents POLLOUT then Write else 0)
        OR (if has revents POLLERR then Error else 0))"

text \<open>
  \<^verbatim>\<open>wait\<close> scans the array for reported events until it has seen as many as \<^verbatim>\<open>poll(2)\<close> announced.
\<close>

fun poll_scan :: "pollfd list \<Rightarrow> nat \<Rightarrow> (nat \<times> mask) list" where
  "poll_scan [] n = []"
| "poll_scan (p # ps) n =
     (if sint (pfd_revents p) > 0 then
        (pfd_fd p, poll_evret (pfd_revents p)) # (if n - 1 = 0 then [] else poll_scan ps (n - 1))
      else poll_scan ps n)"

definition poll_interest :: "poll_base \<Rightarrow> nat \<Rightarrow> bool \<times> bool" where
  "poll_interest d fd =
     (case indexs d fd of
        None \<Rightarrow> (False, False)
      | Some i \<Rightarrow> (has (pfd_events (pollfds d ! i)) POLLIN, has (pfd_events (pollfds d ! i)) POLLOUT))"

definition poll_mask :: "mask \<Rightarrow> bool" where
  "poll_mask m \<longleftrightarrow> m AND (POLLIN OR POLLOUT) = m"

definition poll_invar :: "poll_base \<Rightarrow> bool" where
  "poll_invar d \<longleftrightarrow>
     (\<forall>fd i. indexs d fd = Some i \<longleftrightarrow> i < length (pollfds d) \<and> pfd_fd (pollfds d ! i) = fd) \<and>
     (\<forall>p \<in> set (pollfds d). poll_mask (pfd_events p))"

lemmas poll_bits = mask_bits POLLIN_def POLLOUT_def poll_mask_def poll_evmap_def

lemma poll_mask_evmap [simp]: "poll_mask (poll_evmap ev)"
  by (simp add: poll_mask_def poll_evmap_def POLLIN_def POLLOUT_def)

lemma poll_mask_or: "poll_mask a \<Longrightarrow> poll_mask b \<Longrightarrow> poll_mask (a OR b)"
  by (simp add: poll_mask_def bit.conj_disj_distrib2)

lemma poll_mask_and_not: "poll_mask a \<Longrightarrow> poll_mask (a AND b)"
  unfolding poll_mask_def by (metis and.assoc and.commute)

lemma poll_mask_eq_0: "poll_mask m \<Longrightarrow> (has m POLLIN, has m POLLOUT) = (False, False) \<Longrightarrow> m = 0"
proof -
  assume m: "poll_mask m" and z: "(has m POLLIN, has m POLLOUT) = (False, False)"
  have "m = (m AND POLLIN) OR (m AND POLLOUT)"
    using m by (simp only: poll_mask_def bit.conj_disj_distrib)
  with z show "m = 0" by simp
qed

lemma poll_want_add:
  "(has (m OR poll_evmap ev) POLLIN, has (m OR poll_evmap ev) POLLOUT) =
   want_add (has m POLLIN, has m POLLOUT) ev"
  by (auto simp: poll_bits want_add_def)

lemma poll_want_remove:
  "(has (m AND NOT (poll_evmap ev)) POLLIN, has (m AND NOT (poll_evmap ev)) POLLOUT) =
   want_remove (has m POLLIN, has m POLLOUT) ev"
  by (auto simp: poll_bits want_remove_def)

lemma poll_indexs_lt: "poll_invar d \<Longrightarrow> indexs d fd = Some i \<Longrightarrow> i < length (pollfds d) \<and> pfd_fd (pollfds d ! i) = fd"
  by (auto simp: poll_invar_def)

lemma poll_distinct: "poll_invar d \<Longrightarrow> i < length (pollfds d) \<Longrightarrow> j < length (pollfds d) \<Longrightarrow>
    pfd_fd (pollfds d ! i) = pfd_fd (pollfds d ! j) \<Longrightarrow> i = j"
  by (metis option.inject poll_invar_def)

lemma poll_add_laws:
  assumes "poll_invar d" and "poll_add d fd ev = Some d'"
  shows "poll_invar d' \<and> poll_interest d' = (poll_interest d)(fd := want_add (poll_interest d fd) ev)"
proof (cases "indexs d fd")
  case None
  let ?p = "\<lparr>pfd_fd = fd, pfd_events = poll_evmap ev, pfd_revents = 0\<rparr>"
  from None assms(2) have d': "pollfds d' = pollfds d @ [?p]" "indexs d' = (indexs d)(fd \<mapsto> length (pollfds d))"
    by (auto simp: poll_add_def)
  have fresh: "pfd_fd (pollfds d ! i) \<noteq> fd" if "i < length (pollfds d)" for i
    using None assms(1) that by (metis option.distinct(1) poll_invar_def)
  have old: "indexs d x = Some i \<longleftrightarrow> i < length (pollfds d) \<and> pfd_fd (pollfds d ! i) = x" for x i
    using assms(1) by (simp add: poll_invar_def)
  have "poll_invar d'"
    using assms(1) fresh by (auto simp: poll_invar_def d' nth_append less_Suc_eq)
  moreover have "poll_interest d' x = ((poll_interest d)(fd := want_add (poll_interest d fd) ev)) x" for x
    using None poll_want_add [of 0 ev] poll_indexs_lt [OF assms(1), of x]
    by (cases "indexs d x") (auto simp: poll_interest_def d' nth_append)
  ultimately show ?thesis by blast
next
  case (Some i)
  with assms(1) have i: "i < length (pollfds d)" "pfd_fd (pollfds d ! i) = fd"
    by (simp_all add: poll_indexs_lt)
  let ?q = "(pollfds d ! i)\<lparr>pfd_events := pfd_events (pollfds d ! i) OR poll_evmap ev\<rparr>"
  from Some i assms(2) have d': "pollfds d' = (pollfds d)[i := ?q]" "indexs d' = indexs d"
    by (auto simp: poll_add_def)
  have "poll_mask (pfd_events ?q)"
    using assms(1) i by (auto simp: poll_invar_def intro: poll_mask_or)
  then have "poll_invar d'"
    using assms(1) i set_update_subset_insert [of "pollfds d" i ?q]
    by (auto simp: poll_invar_def d' nth_list_update subset_iff)
  moreover have "poll_interest d' x = ((poll_interest d)(fd := want_add (poll_interest d fd) ev)) x" for x
  proof (cases "x = fd")
    case True
    with Some i show ?thesis by (simp add: poll_interest_def d' poll_want_add)
  next
    case False
    with Some i poll_indexs_lt [OF assms(1), of x] show ?thesis
      by (auto simp: poll_interest_def d' nth_list_update split: option.splits)
  qed
  ultimately show ?thesis by blast
qed

lemma poll_remove_keep:
  assumes inv: "poll_invar d" and i: "indexs d fd = Some i"
    and q: "q = (pollfds d ! i)\<lparr>pfd_events := m\<rparr>" "poll_mask m"
  shows "poll_invar (d\<lparr>pollfds := (pollfds d)[i := q]\<rparr>) \<and>
    poll_interest (d\<lparr>pollfds := (pollfds d)[i := q]\<rparr>) = (poll_interest d)(fd := (has m POLLIN, has m POLLOUT))"
proof
  from inv i have lt: "i < length (pollfds d)" "pfd_fd (pollfds d ! i) = fd" by (simp_all add: poll_indexs_lt)
  show "poll_invar (d\<lparr>pollfds := (pollfds d)[i := q]\<rparr>)"
    using inv lt q set_update_subset_insert [of "pollfds d" i q]
    by (auto simp: poll_invar_def nth_list_update subset_iff)
  show "poll_interest (d\<lparr>pollfds := (pollfds d)[i := q]\<rparr>) = (poll_interest d)(fd := (has m POLLIN, has m POLLOUT))"
  proof
    fix x
    show "poll_interest (d\<lparr>pollfds := (pollfds d)[i := q]\<rparr>) x =
        ((poll_interest d)(fd := (has m POLLIN, has m POLLOUT))) x"
      using i lt q poll_indexs_lt [OF inv, of x]
      by (cases "x = fd") (auto simp: poll_interest_def nth_list_update split: option.splits)
  qed
qed

text \<open>The last entry moves into the hole: what the array and the index look like afterwards.\<close>

lemma poll_hole:
  assumes inv: "poll_invar d" and i: "i < length (pollfds d)"
    and n: "n = butlast ((pollfds d)[i := last (pollfds d)])"
    and ix: "idx = ((indexs d)(pfd_fd (last (pollfds d)) \<mapsto> i))(pfd_fd (pollfds d ! i) := None)"
  shows "poll_invar (d\<lparr>pollfds := n, indexs := idx\<rparr>) \<and>
    poll_interest (d\<lparr>pollfds := n, indexs := idx\<rparr>) =
      (poll_interest d)(pfd_fd (pollfds d ! i) := (False, False))"
proof -
  let ?fd = "pfd_fd (pollfds d ! i)"
  define l where "l = length (pollfds d) - 1"
  from i have last: "last (pollfds d) = pollfds d ! l" and l: "l < length (pollfds d)"
    by (cases "pollfds d = []"; simp add: last_conv_nth l_def)+
  have lt: "j < length (pollfds d) \<longleftrightarrow> j < l \<or> j = l" for j
    using i by (auto simp: l_def)
  have len: "length n = l" using i by (simp add: n l_def)
  have nth: "n ! j = (if j = i then pollfds d ! l else pollfds d ! j)" if "j < l" for j
    using that i by (simp add: n nth_butlast nth_list_update last l_def)
  have old: "indexs d x = Some j \<longleftrightarrow> j < length (pollfds d) \<and> pfd_fd (pollfds d ! j) = x" for x j
    using inv by (simp add: poll_invar_def)
  note dist = poll_distinct [OF inv]
  have idx: "idx x = Some j \<longleftrightarrow> j < l \<and> pfd_fd (n ! j) = x" for x j
  proof (cases "x = ?fd")
    case True
    then show ?thesis using dist [of i l] dist [of i j] i l by (auto simp: ix nth)
  next
    case x: False
    show ?thesis
    proof (cases "x = pfd_fd (pollfds d ! l)")
      case True
      with x have "i \<noteq> l" by auto
      then have il: "i < l" using i by (simp add: lt)
      have "idx x = Some j \<longleftrightarrow> j = i" using True x by (auto simp: ix last)
      moreover have "j < l \<and> pfd_fd (n ! j) = x \<longleftrightarrow> j = i"
        using True il dist [of j l] by (auto simp: nth lt split: if_splits)
      ultimately show ?thesis by simp
    next
      case False
      have "idx x = indexs d x" using False x by (simp add: ix last)
      then show ?thesis using False x by (cases "j = i") (auto simp: old nth lt)
    qed
  qed
  have "set n \<subseteq> set (pollfds d)"
    using i set_update_subset_insert [of "pollfds d" i "last (pollfds d)"]
    by (auto simp: n last dest!: in_set_butlastD intro: l nth_mem)
  with inv idx len have inv': "poll_invar (d\<lparr>pollfds := n, indexs := idx\<rparr>)"
    by (auto simp: poll_invar_def)
  have "poll_interest (d\<lparr>pollfds := n, indexs := idx\<rparr>) x =
      ((poll_interest d)(?fd := (False, False))) x" for x
  proof (cases "idx x")
    case None
    then have "x = ?fd \<or> indexs d x = None" by (auto simp: ix split: if_splits)
    with None show ?thesis by (auto simp: poll_interest_def)
  next
    case (Some j)
    then have x: "x \<noteq> ?fd" by (auto simp: ix)
    from Some idx have j: "j < l" "pfd_fd (n ! j) = x" by auto
    then have "indexs d x = Some (if j = i then l else j)"
      using l by (auto simp: old nth)
    with Some x j show ?thesis by (simp add: poll_interest_def nth)
  qed
  then show ?thesis using inv' by blast
qed

lemma poll_remove_laws:
  assumes inv: "poll_invar d" and int: "poll_interest d fd \<noteq> (False, False)"
    and "poll_remove d fd ev = Some d'"
  shows "poll_invar d' \<and> poll_interest d' = (poll_interest d)(fd := want_remove (poll_interest d fd) ev)"
proof -
  from int obtain i where i: "indexs d fd = Some i" by (auto simp: poll_interest_def split: option.splits)
  with inv have lt: "i < length (pollfds d)" "pfd_fd (pollfds d ! i) = fd" by (simp_all add: poll_indexs_lt)
  let ?m = "pfd_events (pollfds d ! i) AND NOT (poll_evmap ev)"
  let ?q = "(pollfds d ! i)\<lparr>pfd_events := ?m\<rparr>"
  let ?d = "d\<lparr>pollfds := (pollfds d)[i := ?q]\<rparr>"
  have "poll_mask ?m" using inv lt by (auto simp: poll_invar_def intro: poll_mask_and_not)
  then have k: "poll_invar ?d" "poll_interest ?d = (poll_interest d)(fd := (has ?m POLLIN, has ?m POLLOUT))"
    using poll_remove_keep [OF inv i refl] by blast+
  have w: "(has ?m POLLIN, has ?m POLLOUT) = want_remove (poll_interest d fd) ev"
    using i by (simp add: poll_want_remove poll_interest_def)
  show ?thesis
  proof (cases "?m = 0")
    case False
    with assms(3) i lt have "d' = ?d" by (simp add: poll_remove_def Let_def)
    with k w show ?thesis by simp
  next
    case True
    let ?n = "butlast ((pollfds ?d)[i := last (pollfds ?d)])"
    let ?idx = "((indexs ?d)(pfd_fd (last (pollfds ?d)) \<mapsto> i))(pfd_fd (pollfds ?d ! i) := None)"
    have "d' = ?d\<lparr>pollfds := ?n, indexs := ?idx\<rparr>"
      using assms(3) i lt True by (auto simp: poll_remove_def Let_def)
    moreover have "pfd_fd (pollfds ?d ! i) = fd" using lt by simp
    moreover have "(poll_interest ?d)(fd := (False, False)) = (poll_interest d)(fd := want_remove (poll_interest d fd) ev)"
      using k(2) w True by (auto simp: fun_eq_iff)
    ultimately show ?thesis
      using poll_hole [OF k(1) _ refl refl, of i] lt by simp
  qed
qed

interpretation poll: dispatcher poll_invar poll_interest "\<lambda>d fd. True" poll_add poll_remove
proof (unfold_locales, goal_cases)
  case (1 d fd ev)
  then show ?case
    by (auto simp: poll_add_def Let_def split: option.splits dest: poll_indexs_lt)
next
  case (2 d ev fd d')
  then show ?case by (intro poll_add_laws)
next
  case (3 d fd ev)
  then show ?case
    by (auto simp: poll_remove_def Let_def split: option.splits dest: poll_indexs_lt)
next
  case (4 d fd ev d')
  then show ?case by (rule poll_remove_laws)
qed simp_all

section \<open>select\<close>

text \<open>
  Two descriptor sets of capacity \<^verbatim>\<open>FD_SETSIZE\<close>, the set of registered descriptors and an upper bound
  \<^verbatim>\<open>maxfd\<close> of it, which \<^verbatim>\<open>remove\<close> lowers by one only.
\<close>

record select_base =
  rdset :: "nat set"
  wrset :: "nat set"
  sel_fds :: "nat set"
  maxfd :: int

definition FD_SETSIZE :: nat where
  "FD_SETSIZE = 1024"

definition select_new :: select_base where
  "select_new = \<lparr>rdset = {}, wrset = {}, sel_fds = {}, maxfd = -1\<rparr>"

definition select_add :: "select_base \<Rightarrow> nat \<Rightarrow> mask \<Rightarrow> select_base option" where
  "select_add d fd ev =
     (if fd \<ge> FD_SETSIZE then None
      else
        let d1 = d\<lparr>rdset := (if has ev Read then insert fd (rdset d) else rdset d),
                    wrset := (if has ev Write then insert fd (wrset d) else wrset d)\<rparr>
        in Some (if fd \<notin> sel_fds d1 then d1\<lparr>sel_fds := insert fd (sel_fds d1), maxfd := max (maxfd d1) (int fd)\<rparr>
                 else d1))"

definition select_remove :: "select_base \<Rightarrow> nat \<Rightarrow> mask \<Rightarrow> select_base option" where
  "select_remove d fd ev =
     (if fd \<ge> FD_SETSIZE then None
      else
        let d1 = d\<lparr>rdset := (if has ev Read then rdset d - {fd} else rdset d),
                    wrset := (if has ev Write then wrset d - {fd} else wrset d)\<rparr>
        in Some (if fd \<notin> rdset d1 \<and> fd \<notin> wrset d1
                 then d1\<lparr>maxfd := (if int fd = maxfd d1 then maxfd d1 - 1 else maxfd d1),
                         sel_fds := sel_fds d1 - {fd}\<rparr>
                 else d1))"

text \<open>
  \<^verbatim>\<open>wait\<close>: \<open>order\<close> is the iteration order of \<^verbatim>\<open>fds\<close>, \<open>rd\<close> and \<open>wr\<close> the sets \<^verbatim>\<open>select(2)\<close> returned and \<open>n\<close> its result.
  Every visited channel is activated; the countdown counts channels, not events.
\<close>

fun select_scan :: "nat list \<Rightarrow> nat set \<Rightarrow> nat set \<Rightarrow> nat \<Rightarrow> (nat \<times> mask) list" where
  "select_scan [] rd wr n = []"
| "select_scan (fd # order) rd wr n =
     (let t = (if fd \<in> rd then Read else 0) OR (if fd \<in> wr then Write else 0)
      in (fd, t) # (if t \<noteq> 0 \<and> n - 1 = 0 then []
                    else select_scan order rd wr (if t \<noteq> 0 then n - 1 else n)))"

definition select_interest :: "select_base \<Rightarrow> nat \<Rightarrow> bool \<times> bool" where
  "select_interest d fd = (fd \<in> rdset d, fd \<in> wrset d)"

definition select_invar :: "select_base \<Rightarrow> bool" where
  "select_invar d \<longleftrightarrow>
     sel_fds d = rdset d \<union> wrset d \<and> (\<forall>fd \<in> sel_fds d. int fd \<le> maxfd d \<and> fd < FD_SETSIZE) \<and> -1 \<le> maxfd d"

lemma has_Read_or_Write: "rw_mask ev \<Longrightarrow> ev \<noteq> 0 \<Longrightarrow> has ev Read \<or> has ev Write"
  using want_eq_0 [of ev] by (auto simp: want_def)

interpretation select: dispatcher select_invar select_interest "\<lambda>d fd. fd < FD_SETSIZE"
  select_add select_remove
proof (unfold_locales, goal_cases)
  case (1 d fd ev)
  then show ?case by (simp add: select_add_def Let_def)
next
  case (2 d ev fd d')
  then have fd: "fd < FD_SETSIZE" and d': "d' = the (select_add d fd ev)"
    by (auto simp: select_add_def split: if_splits)
  have "rdset d' = (if has ev Read then insert fd (rdset d) else rdset d)"
    "wrset d' = (if has ev Write then insert fd (wrset d) else wrset d)"
    "sel_fds d' = insert fd (sel_fds d)"
    "maxfd d' = (if fd \<in> sel_fds d then maxfd d else max (maxfd d) (int fd))"
    using fd by (auto simp: d' select_add_def Let_def)
  note d'_eqs = this
  have "select_interest d' = (select_interest d)(fd := want_add (select_interest d fd) ev)"
    by (auto simp: select_interest_def want_add_def fun_eq_iff d'_eqs)
  moreover have "sel_fds d' = rdset d' \<union> wrset d'"
    using 2(1) has_Read_or_Write [OF 2(2,3)] by (auto simp: d'_eqs select_invar_def)
  moreover have "\<forall>x \<in> sel_fds d'. int x \<le> maxfd d' \<and> x < FD_SETSIZE" "-1 \<le> maxfd d'"
    using 2(1) fd by (auto simp: d'_eqs select_invar_def le_max_iff_disj)
  ultimately show ?case by (simp add: select_invar_def)
next
  case (3 d fd ev)
  then have "fd < FD_SETSIZE" by (auto simp: select_interest_def select_invar_def Ball_def)
  then show ?case by (simp add: select_remove_def Let_def)
next
  case (4 d fd ev d')
  then have fd: "fd < FD_SETSIZE" and d': "d' = the (select_remove d fd ev)"
    by (auto simp: select_remove_def split: if_splits)
  have "select_interest d' = (select_interest d)(fd := want_remove (select_interest d fd) ev)"
    using fd by (auto simp: d' select_interest_def select_remove_def want_remove_def fun_eq_iff Let_def)
  moreover have "select_invar d'"
  proof -
    let ?gone = "fd \<notin> rdset d' \<and> fd \<notin> wrset d'"
    have e: "rdset d' = (if has ev Read then rdset d - {fd} else rdset d)"
      "wrset d' = (if has ev Write then wrset d - {fd} else wrset d)"
      "sel_fds d' = (if ?gone then sel_fds d - {fd} else sel_fds d)"
      "maxfd d' = (if ?gone \<and> int fd = maxfd d then maxfd d - 1 else maxfd d)"
      using fd by (simp_all add: d' select_remove_def Let_def)
    have b: "int x \<le> maxfd d' \<and> x < FD_SETSIZE" if x: "x \<in> sel_fds d'" for x
    proof -
      have "x \<in> sel_fds d" "?gone \<longrightarrow> x \<noteq> fd" using x by (auto simp: e(3) split: if_splits)
      moreover have "int x \<le> maxfd d" "x < FD_SETSIZE"
        using 4(1) \<open>x \<in> sel_fds d\<close> by (auto simp: select_invar_def)
      ultimately show ?thesis by (auto simp: e(4))
    qed
    have "sel_fds d' = rdset d' \<union> wrset d'"
      using 4(1) unfolding e(3) by (auto simp: e(1,2) select_invar_def split: if_splits)
    moreover have "-1 \<le> maxfd d'" using 4(1) by (auto simp: e(4) select_invar_def)
    ultimately show ?thesis using b by (auto simp: select_invar_def)
  qed
  ultimately show ?case by blast
qed simp_all

text \<open>Every back end starts empty.\<close>

lemma dispatchers_init:
  "epoll_invar epoll_new" "kqueue_invar kqueue_new" "poll_invar poll_new" "select_invar select_new"
  by (auto simp: epoll_invar_def epoll_new_def kqueue_invar_def kqueue_new_def poll_invar_def poll_new_def
      select_invar_def select_new_def evmap_ok_def EVLIST_INIT_SIZE_def vec_interest_def)

end
