(* ===== verification/Channel.thy ===== *)
theory Channel
  imports Dispatcher
begin

unbundle bit_operations_syntax

text \<open>
  \<^verbatim>\<open>class channel\<close> (\<^verbatim>\<open>include/angel/channel.h\<close>, \<^verbatim>\<open>src/channel.cc\<close>): the events of interest of one file
  descriptor, its handlers, and the dispatch of triggered events. The operations call the back end
  through its virtual functions, which are the arguments \<open>add\<close> and \<open>remove\<close>. The lemmas are proved
  once against the contract of a back end (locale \<open>dispatcher\<close>): the interest registered with the
  back end is at all times the channel's own filter.
\<close>

record 'h channel =
  evfd :: nat
  cfilter :: mask
  trigger :: mask
  read_handler :: "'h option"
  write_handler :: "'h option"
  error_handler :: "'h option"

definition channel_new :: "nat \<Rightarrow> 'h channel" where
  "channel_new fd = \<lparr>evfd = fd, cfilter = 0, trigger = 0,
     read_handler = None, write_handler = None, error_handler = None\<rparr>"

definition is_reading :: "'h channel \<Rightarrow> bool" where
  "is_reading c \<longleftrightarrow> has (cfilter c) Read"

definition is_writing :: "'h channel \<Rightarrow> bool" where
  "is_writing c \<longleftrightarrow> has (cfilter c) Write"

type_synonym 'd virt = "'d \<Rightarrow> nat \<Rightarrow> mask \<Rightarrow> 'd option"

definition enable_read :: "'d virt \<Rightarrow> 'h channel \<times> 'd \<Rightarrow> ('h channel \<times> 'd) option" where
  "enable_read add cd =
     (let (c, d) = cd
      in if \<not> is_reading c
         then map_option (\<lambda>d'. (c\<lparr>cfilter := cfilter c OR Read\<rparr>, d')) (add d (evfd c) Read)
         else Some (c, d))"

definition disable_read :: "'d virt \<Rightarrow> 'h channel \<times> 'd \<Rightarrow> ('h channel \<times> 'd) option" where
  "disable_read remove cd =
     (let (c, d) = cd
      in if is_reading c
         then map_option (\<lambda>d'. (c\<lparr>cfilter := cfilter c AND NOT Read\<rparr>, d')) (remove d (evfd c) Read)
         else Some (c, d))"

definition enable_write :: "'d virt \<Rightarrow> 'h channel \<times> 'd \<Rightarrow> ('h channel \<times> 'd) option" where
  "enable_write add cd =
     (let (c, d) = cd
      in if \<not> is_writing c
         then map_option (\<lambda>d'. (c\<lparr>cfilter := cfilter c OR Write\<rparr>, d')) (add d (evfd c) Write)
         else Some (c, d))"

definition disable_write :: "'d virt \<Rightarrow> 'h channel \<times> 'd \<Rightarrow> ('h channel \<times> 'd) option" where
  "disable_write remove cd =
     (let (c, d) = cd
      in if is_writing c
         then map_option (\<lambda>d'. (c\<lparr>cfilter := cfilter c AND NOT Write\<rparr>, d')) (remove d (evfd c) Write)
         else Some (c, d))"

definition disable_all :: "'d virt \<Rightarrow> 'h channel \<times> 'd \<Rightarrow> ('h channel \<times> 'd) option" where
  "disable_all remove cd =
     (let (c, d) = cd
      in if cfilter c \<noteq> 0
         then map_option (\<lambda>d'. (c\<lparr>read_handler := None, write_handler := None, error_handler := None,
                                  cfilter := 0\<rparr>, d')) (remove d (evfd c) (cfilter c))
         else Some (c, d))"

text \<open>
  \<^verbatim>\<open>handle_event\<close>: error, read and write handlers in this order, each looked up when its turn comes,
  so that a handler can take the later ones away. \<open>run h\<close> is the effect of the call of handler \<open>h\<close>
  on this channel; the second component lists the calls.
\<close>

definition handle_one ::
  "('h \<Rightarrow> 'h channel \<Rightarrow> 'h channel) \<Rightarrow> mask \<Rightarrow> ('h channel \<Rightarrow> 'h option) \<Rightarrow> 'h channel \<times> 'h list \<Rightarrow> 'h channel \<times> 'h list" where
  "handle_one run ev handler st =
     (let (c, calls) = st
      in if has (trigger c) ev then
           case handler c of None \<Rightarrow> (c, calls) | Some h \<Rightarrow> (run h c, calls @ [h])
         else (c, calls))"

definition handle_event :: "('h \<Rightarrow> 'h channel \<Rightarrow> 'h channel) \<Rightarrow> 'h channel \<Rightarrow> 'h channel \<times> 'h list" where
  "handle_event run c =
     (if trigger c = 0 then (c, [])
      else
        let s1 = handle_one run Error error_handler (c, []);
            s2 = handle_one run Read read_handler s1;
            s3 = handle_one run Write write_handler s2
        in ((fst s3)\<lparr>trigger := 0\<rparr>, snd s3))"

datatype chan_op = EnableRead | DisableRead | EnableWrite | DisableWrite | DisableAll

fun chan_step :: "'d virt \<Rightarrow> 'd virt \<Rightarrow> chan_op \<Rightarrow> 'h channel \<times> 'd \<Rightarrow> ('h channel \<times> 'd) option" where
  "chan_step add remove EnableRead cd = enable_read add cd"
| "chan_step add remove DisableRead cd = disable_read remove cd"
| "chan_step add remove EnableWrite cd = enable_write add cd"
| "chan_step add remove DisableWrite cd = disable_write remove cd"
| "chan_step add remove DisableAll cd = disable_all remove cd"

fun chan_run :: "'d virt \<Rightarrow> 'd virt \<Rightarrow> chan_op list \<Rightarrow> 'h channel \<times> 'd \<Rightarrow> ('h channel \<times> 'd) option" where
  "chan_run add remove [] cd = Some cd"
| "chan_run add remove (op # ops) cd =
     (case chan_step add remove op cd of None \<Rightarrow> None | Some cd' \<Rightarrow> chan_run add remove ops cd')"

text \<open>
  All channels of a loop, each one on its own descriptor, over one back end: a call is addressed to
  the channel of a descriptor.
\<close>

fun chans_run ::
  "'d virt \<Rightarrow> 'd virt \<Rightarrow> (nat \<times> chan_op) list \<Rightarrow> (nat \<Rightarrow> 'h channel) \<times> 'd \<Rightarrow> ((nat \<Rightarrow> 'h channel) \<times> 'd) option" where
  "chans_run add remove [] st = Some st"
| "chans_run add remove ((fd, op) # ops) st =
     (case chan_step add remove op (fst st fd, snd st) of None \<Rightarrow> None
      | Some (c, d) \<Rightarrow> chans_run add remove ops ((fst st)(fd := c), d))"

definition ev2str :: "mask \<Rightarrow> string" where
  "ev2str events =
     (if events = Read then ''<Read>''
      else if events = Write then ''<Write>''
      else if events = Error then ''<Error>''
      else if events = Read OR Write then ''<Read|Write>''
      else if events = Read OR Error then ''<Read|Error>''
      else if events = Write OR Error then ''<Write|Error>''
      else ''<None>'')"

section \<open>Masks of a channel\<close>

lemma rw_Read_Write [simp]: "rw_mask Read" "rw_mask Write" "Read \<noteq> 0" "Write \<noteq> 0"
  by (simp_all add: rw_mask_def Read_def Write_def take_bit_eq_mod)

lemma want_add_Read: "want_add (want m) Read = want (m OR Read)" "want_add (want m) Write = want (m OR Write)"
  by (simp_all add: want_or)

lemma want_remove_self: "want_remove (want m) m = (False, False)"
  by (auto simp: want_remove_def want_def)

context dispatcher
begin

definition synced :: "'h channel \<Rightarrow> 'd \<Rightarrow> bool" where
  "synced c d \<longleftrightarrow> invar d \<and> rw_mask (cfilter c) \<and> interest d (evfd c) = want (cfilter c) \<and> accepts d (evfd c)"

lemma synced_add:
  assumes "synced c d" and "rw_mask ev" and "ev \<noteq> 0"
  shows "\<exists>d'. add d (evfd c) ev = Some d' \<and> synced (c\<lparr>cfilter := cfilter c OR ev\<rparr>) d' \<and>
    (\<forall>x. x \<noteq> evfd c \<longrightarrow> interest d' x = interest d x) \<and> (\<forall>x. accepts d x \<longrightarrow> accepts d' x)"
proof -
  have inv: "invar d" "rw_mask (cfilter c)" "accepts d (evfd c)" "interest d (evfd c) = want (cfilter c)"
    using assms by (auto simp: synced_def)
  then obtain d' where d': "add d (evfd c) ev = Some d'"
    using add_ok assms by blast
  then have "invar d' \<and> interest d' = (interest d)(evfd c := want_add (want (cfilter c)) ev)"
    using add_interest [OF inv(1) assms(2,3) d'] inv by simp
  then show ?thesis
    using d' add_accepts [OF d'] inv assms by (simp add: synced_def want_or rw_mask_or)
qed

lemma synced_remove:
  assumes "synced c d" and "cfilter c \<noteq> 0"
  shows "\<exists>d'. remove d (evfd c) ev = Some d' \<and> synced (c\<lparr>cfilter := cfilter c AND NOT ev\<rparr>) d' \<and>
    (\<forall>x. x \<noteq> evfd c \<longrightarrow> interest d' x = interest d x) \<and> (\<forall>x. accepts d x \<longrightarrow> accepts d' x)"
proof -
  have inv: "invar d" "rw_mask (cfilter c)" "accepts d (evfd c)" "interest d (evfd c) = want (cfilter c)"
    using assms by (auto simp: synced_def)
  then have ne: "interest d (evfd c) \<noteq> (False, False)" using assms by (simp add: want_eq_0)
  then obtain d' where d': "remove d (evfd c) ev = Some d'"
    using remove_ok inv by blast
  then have "invar d' \<and> interest d' = (interest d)(evfd c := want_remove (want (cfilter c)) ev)"
    using remove_interest [OF inv(1) ne d'] inv by simp
  then show ?thesis
    using d' remove_accepts [OF d'] inv by (simp add: synced_def want_and_not rw_mask_and_not)
qed

lemma synced_handlers:
  "synced (c\<lparr>read_handler := r, write_handler := w, error_handler := e, cfilter := f\<rparr>) d =
   synced (c\<lparr>cfilter := f\<rparr>) d"
  by (simp add: synced_def)

lemma chan_step_synced:
  assumes "synced c d"
  shows "\<exists>c' d'. chan_step add remove op (c, d) = Some (c', d') \<and> synced c' d' \<and> evfd c' = evfd c \<and>
    (\<forall>x. x \<noteq> evfd c \<longrightarrow> interest d' x = interest d x) \<and> (\<forall>x. accepts d x \<longrightarrow> accepts d' x)"
proof -
  have nz: "is_reading c \<Longrightarrow> cfilter c \<noteq> 0" "is_writing c \<Longrightarrow> cfilter c \<noteq> 0"
    by (auto simp: is_reading_def is_writing_def)
  show ?thesis
  proof (cases op)
    case EnableRead
    then show ?thesis using synced_add [OF assms, of Read] assms by (auto simp: enable_read_def)
  next
    case DisableRead
    then show ?thesis using synced_remove [OF assms, of Read] nz assms by (auto simp: disable_read_def)
  next
    case EnableWrite
    then show ?thesis using synced_add [OF assms, of Write] assms by (auto simp: enable_write_def)
  next
    case DisableWrite
    then show ?thesis using synced_remove [OF assms, of Write] nz assms by (auto simp: disable_write_def)
  next
    case DisableAll
    show ?thesis
    proof (cases "cfilter c = 0")
      case False
      from synced_remove [OF assms False, of "cfilter c"] obtain d' where
        "remove d (evfd c) (cfilter c) = Some d'" "synced (c\<lparr>cfilter := 0\<rparr>) d'"
        "\<forall>x. x \<noteq> evfd c \<longrightarrow> interest d' x = interest d x" "\<forall>x. accepts d x \<longrightarrow> accepts d' x" by auto
      then show ?thesis using DisableAll False by (simp add: disable_all_def synced_handlers)
    qed (use DisableAll assms in \<open>simp add: disable_all_def\<close>)
  qed
qed

lemma chan_run_synced:
  assumes "synced c d"
  shows "\<exists>c' d'. chan_run add remove ops (c, d) = Some (c', d') \<and> synced c' d' \<and> evfd c' = evfd c \<and>
    (\<forall>x. x \<noteq> evfd c \<longrightarrow> interest d' x = interest d x) \<and> (\<forall>x. accepts d x \<longrightarrow> accepts d' x)"
  using assms
proof (induction ops arbitrary: c d)
  case (Cons op ops)
  obtain c1 d1 where 1: "chan_step add remove op (c, d) = Some (c1, d1)" "synced c1 d1" "evfd c1 = evfd c"
    "\<And>x. x \<noteq> evfd c \<Longrightarrow> interest d1 x = interest d x" "\<And>x. accepts d x \<Longrightarrow> accepts d1 x"
    using chan_step_synced [OF Cons.prems, of op] by metis
  from Cons.IH [OF 1(2)] 1 show ?case by fastforce
qed simp

definition all_synced :: "nat set \<Rightarrow> (nat \<Rightarrow> 'h channel) \<times> 'd \<Rightarrow> bool" where
  "all_synced S st \<longleftrightarrow> (\<forall>fd \<in> S. evfd (fst st fd) = fd \<and> synced (fst st fd) (snd st))"

lemma all_synced_interest: "all_synced S (cs, d) \<Longrightarrow> fd \<in> S \<Longrightarrow> interest d fd = want (cfilter (cs fd))"
  by (fastforce simp: all_synced_def synced_def)

lemma chans_step_synced:
  assumes "all_synced S (cs, d)" and "fd \<in> S"
  shows "\<exists>c' d'. chan_step add remove op (cs fd, d) = Some (c', d') \<and> all_synced S (cs(fd := c'), d')"
proof -
  have sy: "synced (cs fd) d" "evfd (cs fd) = fd" using assms by (auto simp: all_synced_def)
  obtain c' d' where 1: "chan_step add remove op (cs fd, d) = Some (c', d')" "synced c' d'" "evfd c' = fd"
    "\<forall>x. x \<noteq> fd \<longrightarrow> interest d' x = interest d x" "\<forall>x. accepts d x \<longrightarrow> accepts d' x"
    using chan_step_synced [OF sy(1), of op] sy(2) by auto
  have "synced (cs x) d'" if "x \<in> S" "x \<noteq> fd" for x
    using assms(1) that 1 by (auto simp: all_synced_def synced_def)
  then show ?thesis using 1 assms by (auto simp: all_synced_def)
qed

lemma chans_run_synced:
  assumes "all_synced S (cs, d)" and "\<forall>op \<in> set ops. fst op \<in> S"
  shows "\<exists>cs' d'. chans_run add remove ops (cs, d) = Some (cs', d') \<and> all_synced S (cs', d')"
  using assms
proof (induction ops arbitrary: cs d)
  case (Cons op ops)
  then obtain c' d' where "chan_step add remove (snd op) (cs (fst op), d) = Some (c', d')"
    "all_synced S (cs(fst op := c'), d')"
    using chans_step_synced [OF Cons.prems(1), of "fst op" "snd op"] by auto
  then show ?case using Cons.IH Cons.prems by (cases op) auto
qed simp

end

section \<open>Event dispatch\<close>

text \<open>What a handler that closes the channel does to it: \<^verbatim>\<open>disable_all\<close> on a registered channel.\<close>

lemma handle_event_silenced:
  assumes "has (trigger c) Read" and "trigger c AND Error = 0" and "read_handler c = Some h"
    and "write_handler (run h c) = None"
  shows "snd (handle_event run c) = [h]"
  using assms by (auto simp: handle_event_def handle_one_def Let_def split: if_splits)

lemma handle_event_clears: "trigger (fst (handle_event run c)) = 0"
  by (auto simp: handle_event_def Let_def)

lemma disable_all_silences:
  "disable_all remove (c, d) = Some (c', d') \<Longrightarrow> cfilter c \<noteq> 0 \<Longrightarrow>
   cfilter c' = 0 \<and> read_handler c' = None \<and> write_handler c' = None \<and> error_handler c' = None"
  by (auto simp: disable_all_def)


section \<open>The choice of the back end\<close>

text \<open>The channel's own state after a call that succeeds does not depend on the back end.\<close>

fun chan_effect :: "chan_op \<Rightarrow> 'h channel \<Rightarrow> 'h channel" where
  "chan_effect EnableRead c = c\<lparr>cfilter := cfilter c OR Read\<rparr>"
| "chan_effect DisableRead c = c\<lparr>cfilter := cfilter c AND NOT Read\<rparr>"
| "chan_effect EnableWrite c = c\<lparr>cfilter := cfilter c OR Write\<rparr>"
| "chan_effect DisableWrite c = c\<lparr>cfilter := cfilter c AND NOT Write\<rparr>"
| "chan_effect DisableAll c =
     (if cfilter c = 0 then c
      else c\<lparr>read_handler := None, write_handler := None, error_handler := None, cfilter := 0\<rparr>)"

lemma bit_Read_Write: "bit Read n \<longleftrightarrow> n = 0" "bit Write n \<longleftrightarrow> n = 1"
  "m AND Read = 0 \<longleftrightarrow> \<not> bit m 0" "m AND Write = 0 \<longleftrightarrow> \<not> bit m 1"
  by (simp_all only: bit_event_masks and_two_power Read_def Write_def One_nat_def)

lemma or_present: "has m Read \<Longrightarrow> m OR Read = m" "has m Write \<Longrightarrow> m OR Write = m"
  by (rule bit_word_eqI, auto simp: bit_Read_Write bit_or_iff)+

lemma and_not_absent: "m AND Read = 0 \<Longrightarrow> m AND NOT Read = m" "m AND Write = 0 \<Longrightarrow> m AND NOT Write = m"
  by (rule bit_word_eqI, auto simp: bit_Read_Write bit_and_iff bit_not_iff intro: gr0I)+

lemma chan_step_effect: "chan_step add remove op (c, d) = Some (c', d') \<Longrightarrow> c' = chan_effect op c"
  by (cases op)
    (auto simp: enable_read_def disable_read_def enable_write_def disable_write_def disable_all_def
      is_reading_def is_writing_def or_present and_not_absent split: if_splits)

definition chans_effect :: "(nat \<times> chan_op) list \<Rightarrow> (nat \<Rightarrow> 'h channel) \<Rightarrow> nat \<Rightarrow> 'h channel" where
  "chans_effect = fold (\<lambda>(fd, op) cs. cs(fd := chan_effect op (cs fd)))"

lemma chans_run_effect: "chans_run add remove ops (cs, d) = Some (cs', d') \<Longrightarrow> cs' = chans_effect ops cs"
proof (induction ops arbitrary: cs d)
  case (Cons op ops)
  then obtain c1 d1 where "chan_step add remove (snd op) (cs (fst op), d) = Some (c1, d1)"
    "chans_run add remove ops (cs(fst op := c1), d1) = Some (cs', d')"
    by (cases op) (auto split: option.splits)
  with Cons.IH show ?case by (cases op) (auto simp: chans_effect_def dest: chan_step_effect)
qed (simp add: chans_effect_def)

lemma fresh_synced:
  "epoll.all_synced {..<128} (channel_new, epoll_new)"
  "kqueue.all_synced {..<128} (channel_new, kqueue_new)"
  "poll.all_synced {..<128} (channel_new, poll_new)"
  "select.all_synced {..<128} (channel_new, select_new)"
  using dispatchers_init
  unfolding epoll.all_synced_def epoll.synced_def kqueue.all_synced_def kqueue.synced_def
    poll.all_synced_def poll.synced_def select.all_synced_def select.synced_def
  by (auto simp: channel_new_def vec_accepts_def vec_interest_def epoll_new_def kqueue_new_def poll_new_def
      poll_interest_def select_new_def select_interest_def EVLIST_INIT_SIZE_def FD_SETSIZE_def)



end
