(* ===== verification/Evloop.thy ===== *)
theory Evloop
  imports Channel
begin

text \<open>
  \<^verbatim>\<open>class evloop\<close> (\<^verbatim>\<open>include/angel/evloop.h\<close>, \<^verbatim>\<open>src/evloop.cc\<close>) and \<^verbatim>\<open>class evloop_group\<close>
  (\<^verbatim>\<open>src/evloop_group.h\<close>): the task queue that other threads fill, the pair of sockets that wakes the
  loop up, the deferred removal of channels, and the body of \<^verbatim>\<open>run\<close>. The operations are functions
  on the state; the interleaving of the loop thread with the threads that call \<^verbatim>\<open>queue_in_loop\<close> and
  \<^verbatim>\<open>quit\<close> at any time is the step relation \<open>loop_step\<close>, in which each critical section is one step.
  Shown are: tasks run exactly once and in the order they were queued; a loop about to block with
  tasks in its queue has a byte to wake it up; queued tasks leave at most two bytes in the pair;
  a channel is not erased while the loop still dispatches events to it; the loop ends after \<^verbatim>\<open>quit\<close>
  with all tasks executed.
\<close>

section \<open>State and operations\<close>

text \<open>The two lambdas of the library that the queue holds besides the user's ones: \<^verbatim>\<open>channel::remove\<close> erases
  the channel from \<^verbatim>\<open>channel_map\<close> later.\<close>

datatype 'f task = User 'f | EraseChannel nat

record 'f evloop =
  functors :: "'f task list"
  wake_pair :: "u8 list" \<comment> \<open>bytes written to \<^verbatim>\<open>wake_pair[1]\<close> and not yet read from \<^verbatim>\<open>wake_pair[0]\<close>\<close>
  is_quit :: bool
  channel_map :: "nat set"
  registered :: "nat set" \<comment> \<open>descriptors with a non-empty filter\<close>

definition evloop_new :: "nat \<Rightarrow> 'f evloop" where
  "evloop_new wake_fd = \<lparr>functors = [], wake_pair = [], is_quit = False,
     channel_map = {wake_fd}, registered = {wake_fd}\<rparr>"

definition wakeup :: "u8 \<Rightarrow> ('f, 'z) evloop_scheme \<Rightarrow> ('f, 'z) evloop_scheme" where
  "wakeup v s = s\<lparr>wake_pair := wake_pair s @ [v]\<rparr>"

text \<open>On an empty pair \<^verbatim>\<open>read\<close> fails (the descriptor does not block), which is only logged.\<close>

definition wakeup_read :: "('f, 'z) evloop_scheme \<Rightarrow> ('f, 'z) evloop_scheme" where
  "wakeup_read s =
     (case wake_pair s of
        [] \<Rightarrow> s
      | v # vs \<Rightarrow> (let s' = s\<lparr>wake_pair := vs\<rparr> in if v \<noteq> 0 then s'\<lparr>is_quit := True\<rparr> else s'))"

definition queue_in_loop :: "'f task \<Rightarrow> ('f, 'z) evloop_scheme \<Rightarrow> ('f, 'z) evloop_scheme" where
  "queue_in_loop cb s =
     (let s' = s\<lparr>functors := functors s @ [cb]\<rparr>
      in if length (functors s') = 1 then wakeup 0 s' else s')"

definition quit :: "('f, 'z) evloop_scheme \<Rightarrow> ('f, 'z) evloop_scheme" where
  "quit s = wakeup 1 s"

text \<open>\<^verbatim>\<open>run_in_loop\<close>: \<open>run\<close> is what the call of the task does.\<close>

definition run_in_loop ::
  "('f task \<Rightarrow> ('f, 'z) evloop_scheme \<Rightarrow> ('f, 'z) evloop_scheme) \<Rightarrow> bool \<Rightarrow> 'f task \<Rightarrow>
    ('f, 'z) evloop_scheme \<Rightarrow> ('f, 'z) evloop_scheme" where
  "run_in_loop run is_io_loop_thread cb s =
     (if \<not> is_io_loop_thread then queue_in_loop cb s else run cb s)"

text \<open>
  \<^verbatim>\<open>channel::add\<close> and \<^verbatim>\<open>channel::remove\<close> in the loop thread: \<open>None\<close> is the failed \<^verbatim>\<open>Assert\<close> for a
  second channel on a descriptor.
\<close>

definition channel_add :: "nat \<Rightarrow> ('f, 'z) evloop_scheme \<Rightarrow> ('f, 'z) evloop_scheme option" where
  "channel_add fd s =
     (if fd \<in> channel_map s then None
      else Some (s\<lparr>channel_map := insert fd (channel_map s), registered := insert fd (registered s)\<rparr>))"

definition channel_remove :: "nat \<Rightarrow> ('f, 'z) evloop_scheme \<Rightarrow> ('f, 'z) evloop_scheme" where
  "channel_remove fd s = queue_in_loop (EraseChannel fd) (s\<lparr>registered := registered s - {fd}\<rparr>)"

text \<open>\<^verbatim>\<open>do_functors\<close>: the swap under the lock, then the calls without it.\<close>

definition swap_functors :: "('f, 'z) evloop_scheme \<Rightarrow> ('f, 'z) evloop_scheme \<times> 'f task list" where
  "swap_functors s = (s\<lparr>functors := []\<rparr>, functors s)"

fun run_task :: "('f \<Rightarrow> ('f, 'z) evloop_scheme \<Rightarrow> ('f, 'z) evloop_scheme) \<Rightarrow> 'f task \<Rightarrow>
    ('f, 'z) evloop_scheme \<Rightarrow> ('f, 'z) evloop_scheme" where
  "run_task call (User f) s = call f s"
| "run_task call (EraseChannel fd) s = s\<lparr>channel_map := channel_map s - {fd}\<rparr>"

definition do_functors :: "('f \<Rightarrow> ('f, 'z) evloop_scheme \<Rightarrow> ('f, 'z) evloop_scheme) \<Rightarrow>
    ('f, 'z) evloop_scheme \<Rightarrow> ('f, 'z) evloop_scheme" where
  "do_functors call s = (let (s', tfuncs) = swap_functors s in fold (run_task call) tfuncs s')"

text \<open>
  The body of the loop in \<^verbatim>\<open>run\<close>, alone in its thread: the dispatcher reports the wake channel when the
  pair is readable, and \<open>dispatch\<close> is the effect of all other events and of the expired timers.
\<close>

definition run_once :: "('f \<Rightarrow> ('f, 'z) evloop_scheme \<Rightarrow> ('f, 'z) evloop_scheme) \<Rightarrow>
    (('f, 'z) evloop_scheme \<Rightarrow> ('f, 'z) evloop_scheme) \<Rightarrow> ('f, 'z) evloop_scheme \<Rightarrow> ('f, 'z) evloop_scheme" where
  "run_once call dispatch s =
     do_functors call (dispatch (if wake_pair s \<noteq> [] then wakeup_read s else s))"

text \<open>
  \<^verbatim>\<open>run\<close> with a bound on the iterations of its two loops, the main loop and the one that empties the queue before the return;
  \<open>None\<close> means that the bound was too small.
\<close>

fun drain :: "nat \<Rightarrow> ('f \<Rightarrow> ('f, 'z) evloop_scheme \<Rightarrow> ('f, 'z) evloop_scheme) \<Rightarrow>
    ('f, 'z) evloop_scheme \<Rightarrow> ('f, 'z) evloop_scheme option" where
  "drain fuel call s =
     (if functors s = [] then Some s
      else case fuel of 0 \<Rightarrow> None | Suc n \<Rightarrow> drain n call (do_functors call s))"

declare drain.simps [simp del]

fun run_main :: "nat \<Rightarrow> ('f \<Rightarrow> ('f, 'z) evloop_scheme \<Rightarrow> ('f, 'z) evloop_scheme) \<Rightarrow>
    (('f, 'z) evloop_scheme \<Rightarrow> ('f, 'z) evloop_scheme) \<Rightarrow> ('f, 'z) evloop_scheme \<Rightarrow> ('f, 'z) evloop_scheme option" where
  "run_main fuel call dispatch s =
     (if is_quit s then Some s
      else case fuel of 0 \<Rightarrow> None | Suc n \<Rightarrow> run_main n call dispatch (run_once call dispatch s))"

declare run_main.simps [simp del]

definition run :: "nat \<Rightarrow> ('f \<Rightarrow> ('f, 'z) evloop_scheme \<Rightarrow> ('f, 'z) evloop_scheme) \<Rightarrow>
    (('f, 'z) evloop_scheme \<Rightarrow> ('f, 'z) evloop_scheme) \<Rightarrow> ('f, 'z) evloop_scheme \<Rightarrow> ('f, 'z) evloop_scheme option" where
  "run fuel call dispatch s =
     (case run_main fuel call dispatch (s\<lparr>is_quit := False\<rparr>) of
        None \<Rightarrow> None
      | Some s' \<Rightarrow> drain fuel call s')"

text \<open>\<^verbatim>\<open>evloop_group::get_next_loop\<close>: the index of the chosen loop and the next state of \<^verbatim>\<open>next_index\<close>.\<close>

definition get_next_loop :: "nat \<Rightarrow> nat \<Rightarrow> nat \<times> nat" where
  "get_next_loop sz next_index = (let i = (if next_index \<ge> sz then 0 else next_index) in (i, i + 1))"

fun next_loops :: "nat \<Rightarrow> nat \<Rightarrow> nat \<Rightarrow> nat list" where
  "next_loops sz 0 i = []"
| "next_loops sz (Suc n) i = (let (k, i') = get_next_loop sz i in k # next_loops sz n i')"

section \<open>Interleaving\<close>

text \<open>
  The place of the loop thread in \<^verbatim>\<open>run\<close>: before or inside \<^verbatim>\<open>dispatcher->wait\<close>; in the loop over
  \<^verbatim>\<open>active_channels\<close> with the channels still to handle; before the swap of \<^verbatim>\<open>do_functors\<close>; calling the
  tasks taken; testing the queue after the main loop; calling tasks there; returned.
\<close>

datatype 'f place = Waiting | Handling "nat list" | BeforeSwap | Running "'f task list"
  | Draining | DrainRunning "'f task list" | Returned

record 'f loop = "'f evloop" +
  place :: "'f place"
  queued :: "'f task list" \<comment> \<open>history: all tasks in the order they were queued\<close>
  executed :: "'f task list" \<comment> \<open>history: all tasks in the order they were called\<close>

definition loop_init :: "nat \<Rightarrow> 'f loop" where
  "loop_init wake_fd = \<lparr>functors = [], wake_pair = [], is_quit = False, channel_map = {wake_fd},
     registered = {wake_fd}, place = Waiting, queued = [], executed = []\<rparr>"

fun pending :: "'f place \<Rightarrow> 'f task list" where
  "pending (Running ts) = ts"
| "pending (DrainRunning ts) = ts"
| "pending _ = []"

definition execute :: "'f task \<Rightarrow> 'f loop \<Rightarrow> 'f loop" where
  "execute t s = run_task (\<lambda>f x. x) t (s\<lparr>executed := executed s @ [t]\<rparr>)"

text \<open>
  \<open>queue\<close>, \<open>quit\<close>, \<open>add\<close> and \<open>remove\<close> are calls of other threads, of handlers and of the tasks
  themselves (the two latter in the loop thread). The dispatcher reports registered channels, and
  the wake channel when and only when its pair is readable; it is handled like every other channel.
  A channel is removed once and not again before it is erased.
\<close>

inductive loop_step :: "nat \<Rightarrow> 'f loop \<Rightarrow> 'f loop \<Rightarrow> bool" for wake_fd where
  queue: "loop_step wake_fd s (queue_in_loop (User f) (s\<lparr>queued := queued s @ [User f]\<rparr>))"
| quit: "loop_step wake_fd s (quit s)"
| add: "channel_add fd s = Some s' \<Longrightarrow> loop_step wake_fd s s'"
| remove: "fd \<in> channel_map s \<Longrightarrow> EraseChannel fd \<notin> set (pending (place s) @ functors s) \<Longrightarrow> fd \<noteq> wake_fd \<Longrightarrow>
    loop_step wake_fd s (channel_remove fd (s\<lparr>queued := queued s @ [EraseChannel fd]\<rparr>))"
| wait: "place s = Waiting \<Longrightarrow> set active \<subseteq> registered s \<Longrightarrow> distinct active \<Longrightarrow>
    (wake_fd \<in> set active) = (wake_pair s \<noteq> []) \<Longrightarrow>
    loop_step wake_fd s (s\<lparr>place := Handling active\<rparr>)"
| handle: "place s = Handling (fd # fds) \<Longrightarrow>
    loop_step wake_fd s ((if fd = wake_fd then wakeup_read s else s)\<lparr>place := Handling fds\<rparr>)"
| handled: "place s = Handling [] \<Longrightarrow> loop_step wake_fd s (s\<lparr>place := BeforeSwap\<rparr>)"
| swap: "place s = BeforeSwap \<Longrightarrow>
    loop_step wake_fd s ((fst (swap_functors s))\<lparr>place := Running (snd (swap_functors s))\<rparr>)"
| call: "place s = Running (t # ts) \<Longrightarrow> loop_step wake_fd s ((execute t s)\<lparr>place := Running ts\<rparr>)"
| again: "place s = Running [] \<Longrightarrow>
    loop_step wake_fd s (s\<lparr>place := (if is_quit s then Draining else Waiting)\<rparr>)"
| drain: "place s = Draining \<Longrightarrow> functors s \<noteq> [] \<Longrightarrow>
    loop_step wake_fd s ((fst (swap_functors s))\<lparr>place := DrainRunning (snd (swap_functors s))\<rparr>)"
| drain_call: "place s = DrainRunning (t # ts) \<Longrightarrow>
    loop_step wake_fd s ((execute t s)\<lparr>place := DrainRunning ts\<rparr>)"
| drained: "place s = DrainRunning [] \<Longrightarrow> loop_step wake_fd s (s\<lparr>place := Draining\<rparr>)"
| return: "place s = Draining \<Longrightarrow> functors s = [] \<Longrightarrow> loop_step wake_fd s (s\<lparr>place := Returned\<rparr>)"

inductive reachable :: "nat \<Rightarrow> 'f loop \<Rightarrow> bool" for wake_fd where
  init: "reachable wake_fd (loop_init wake_fd)"
| step: "reachable wake_fd s \<Longrightarrow> loop_step wake_fd s s' \<Longrightarrow> reachable wake_fd s'"

inductive_cases loop_stepE: "loop_step w s s'"

section \<open>Invariants\<close>

lemmas loop_op_defs = queue_in_loop_def wakeup_def quit_def channel_add_def channel_remove_def
  wakeup_read_def swap_functors_def execute_def

lemma reachable_invariant:
  assumes "reachable w s" and "P (loop_init w)" and "\<And>s s'. P s \<Longrightarrow> loop_step w s s' \<Longrightarrow> P s'"
  shows "P s"
  using assms by (induction rule: reachable.induct) auto

lemma execute_simps [simp]:
  "functors (execute t s) = functors s" "wake_pair (execute t s) = wake_pair s"
  "is_quit (execute t s) = is_quit s" "registered (execute t s) = registered s"
  "queued (execute t s) = queued s" "executed (execute t s) = executed s @ [t]"
  by (cases t; simp add: execute_def)+

lemma execute_channel_map: "channel_map (execute t s) =
    (case t of User f \<Rightarrow> channel_map s | EraseChannel fd \<Rightarrow> channel_map s - {fd})"
  by (cases t) (simp_all add: execute_def)

lemma wakeup_read_simps [simp]:
  "functors (wakeup_read s) = functors s" "registered (wakeup_read s) = registered s"
  "channel_map (wakeup_read s) = channel_map s" "wake_pair (wakeup_read s) = tl (wake_pair s)"
  by (auto simp: wakeup_read_def Let_def split: list.splits)

lemma wakeup_read_loop [simp]:
  "queued (wakeup_read s) = queued s" "executed (wakeup_read s) = executed s" "place (wakeup_read s) = place s"
  for s :: "'f loop"
  by (auto simp: wakeup_read_def Let_def split: list.splits)

definition fifo :: "'f loop \<Rightarrow> bool" where
  "fifo s \<longleftrightarrow> queued s = executed s @ pending (place s) @ functors s"

lemma fifo_step: "fifo s \<Longrightarrow> loop_step w s s' \<Longrightarrow> fifo s'"
  by (erule loop_stepE) (auto simp: fifo_def queue_in_loop_def wakeup_def quit_def channel_add_def
      channel_remove_def swap_functors_def Let_def split: if_splits)

definition awake :: "'f loop \<Rightarrow> bool" where
  "awake s \<longleftrightarrow> (place s = Waiting \<or> (\<exists>ts. place s = Running ts)) \<longrightarrow> functors s \<noteq> [] \<longrightarrow> wake_pair s \<noteq> []"

lemma awake_step: "awake s \<Longrightarrow> loop_step w s s' \<Longrightarrow> awake s'"
  by (erule loop_stepE) (auto simp: awake_def queue_in_loop_def wakeup_def quit_def channel_add_def
      channel_remove_def swap_functors_def Let_def split: if_splits)

text \<open>A \<^verbatim>\<open>quit\<close> was seen, or its byte is still in the pair.\<close>

definition quitting :: "('f, 'z) evloop_scheme \<Rightarrow> bool" where
  "quitting s \<longleftrightarrow> is_quit s \<or> (\<exists>v \<in> set (wake_pair s). v \<noteq> 0)"

fun pair_bound :: "nat \<Rightarrow> 'f place \<Rightarrow> bool \<Rightarrow> nat" where
  "pair_bound w (Handling fds) e = (if w \<in> set fds then 1 else 0) + (if e then 0 else 1)"
| "pair_bound w BeforeSwap e = (if e then 0 else 1)"
| "pair_bound w p e = (if e then 1 else 2)"

definition bounded :: "nat \<Rightarrow> 'f loop \<Rightarrow> bool" where
  "bounded w s \<longleftrightarrow> quitting s \<or>
     (length (wake_pair s) \<le> pair_bound w (place s) (functors s = []) \<and>
      (\<forall>fds. place s = Handling fds \<longrightarrow> distinct fds \<and> (w \<in> set fds \<longrightarrow> wake_pair s \<noteq> [])) \<and>
      place s \<noteq> Draining \<and> (\<forall>ts. place s \<noteq> DrainRunning ts) \<and> place s \<noteq> Returned)"

lemma quitting_step: "quitting s \<Longrightarrow> loop_step w s s' \<Longrightarrow> quitting s'"
  by (erule loop_stepE) (auto simp: quitting_def queue_in_loop_def wakeup_def quit_def channel_add_def
      channel_remove_def swap_functors_def wakeup_read_def Let_def split: if_splits list.splits)

lemma bounded_queue:
  assumes "bounded w s" and "wake_pair s' = wake_pair s" and "place s' = place s" and "is_quit s' = is_quit s"
    and "functors s' = functors s"
  shows "bounded w (queue_in_loop t s')"
proof (cases "quitting s")
  case True
  then show ?thesis using assms by (auto simp: bounded_def quitting_def queue_in_loop_def wakeup_def Let_def)
next
  case False
  then have b: "length (wake_pair s) \<le> pair_bound w (place s) (functors s = [])"
    "\<forall>fds. place s = Handling fds \<longrightarrow> distinct fds \<and> (w \<in> set fds \<longrightarrow> wake_pair s \<noteq> [])"
    "place s \<noteq> Draining" "\<forall>ts. place s \<noteq> DrainRunning ts" "place s \<noteq> Returned"
    using assms(1) by (auto simp: bounded_def)
  show ?thesis
    using b assms(2-)
    by (cases "place s") (auto simp: bounded_def queue_in_loop_def wakeup_def Let_def)
qed

lemma bounded_handle:
  assumes "bounded w s" and "place s = Handling (fd # fds)"
  shows "bounded w ((if fd = w then wakeup_read s else s)\<lparr>place := Handling fds\<rparr>)"
proof (cases "quitting s")
  case True
  then show ?thesis
    by (auto simp: bounded_def quitting_def wakeup_read_def Let_def split: list.splits)
next
  case False
  then show ?thesis using assms by (cases "wake_pair s") (auto simp: bounded_def)
qed

lemma bounded_step:
  assumes "bounded w s" and "loop_step w s s'"
  shows "bounded w s'"
  using assms(2)
proof (cases rule: loop_step.cases)
  case (queue f)
  then show ?thesis using bounded_queue [OF assms(1)] by simp
next
  case (remove fd)
  then show ?thesis using bounded_queue [OF assms(1)] by (simp add: channel_remove_def)
next
  case (handle fd fds)
  then show ?thesis using bounded_handle [OF assms(1)] by simp
next
  case quit
  then show ?thesis by (auto simp: bounded_def quitting_def quit_def wakeup_def)
qed (use assms(1) in \<open>auto simp: bounded_def quitting_def channel_add_def swap_functors_def split: if_splits\<close>)

fun erasures :: "'f task list \<Rightarrow> nat list" where
  "erasures [] = []"
| "erasures (User f # ts) = erasures ts"
| "erasures (EraseChannel fd # ts) = fd # erasures ts"

lemma erasures_append [simp]: "erasures (xs @ ys) = erasures xs @ erasures ys"
  by (induction xs rule: erasures.induct) auto

lemma set_erasures: "set (erasures ts) = {fd. EraseChannel fd \<in> set ts}"
  by (induction ts rule: erasures.induct) auto

definition alive :: "nat \<Rightarrow> 'f loop \<Rightarrow> bool" where
  "alive w s \<longleftrightarrow> w \<in> registered s \<and> registered s \<subseteq> channel_map s \<and>
     distinct (erasures (pending (place s) @ functors s)) \<and>
     set (erasures (pending (place s) @ functors s)) \<subseteq> channel_map s - registered s \<and>
     (\<forall>fds. place s = Handling fds \<longrightarrow> set fds \<subseteq> channel_map s)"

lemma alive_execute:
  assumes "alive w s" and "pending (place s) = t # ts" and "\<And>fds. place s \<noteq> Handling fds"
    and "pending p = ts" and "\<And>fds. p \<noteq> Handling fds"
  shows "alive w ((execute t s)\<lparr>place := p\<rparr>)"
  using assms by (cases t) (auto simp: alive_def execute_channel_map)

lemma alive_step:
  assumes "alive w s" and "loop_step w s s'"
  shows "alive w s'"
  using assms(2)
proof (cases rule: loop_step.cases)
  case (call t ts)
  then show ?thesis using alive_execute [OF assms(1)] by simp
next
  case (drain_call t ts)
  then show ?thesis using alive_execute [OF assms(1)] by simp
next
  case (handle fd fds)
  then show ?thesis using assms(1) by (auto simp: alive_def)
next
  case (remove fd)
  then show ?thesis
    using assms(1)
    by (auto simp: alive_def set_erasures channel_remove_def queue_in_loop_def wakeup_def Let_def)
next
  case (add fd)
  then show ?thesis using assms(1) by (auto simp: alive_def channel_add_def split: if_splits)
next
  case (wait active)
  then show ?thesis using assms(1) by (auto simp: alive_def)
qed (use assms(1) in \<open>auto simp: alive_def queue_in_loop_def quit_def wakeup_def swap_functors_def Let_def\<close>)

lemma loop_init_invariants: "fifo (loop_init w)" "awake (loop_init w)" "bounded w (loop_init w)" "alive w (loop_init w)"
  by (simp_all add: loop_init_def fifo_def awake_def bounded_def alive_def)

lemma reachable_facts:
  assumes "reachable w s"
  shows "fifo s" "awake s" "bounded w s" "alive w s"
proof -
  show "fifo s" by (rule reachable_invariant [OF assms, where P = fifo]) (blast intro: loop_init_invariants fifo_step)+
  show "awake s" by (rule reachable_invariant [OF assms, where P = awake]) (blast intro: loop_init_invariants awake_step)+
  show "bounded w s" by (rule reachable_invariant [OF assms, where P = "bounded w"]) (blast intro: loop_init_invariants bounded_step)+
  show "alive w s" by (rule reachable_invariant [OF assms, where P = "alive w"]) (blast intro: loop_init_invariants alive_step)+
qed

lemma run_calls:
  "place s = Running ts \<Longrightarrow> \<exists>s'. (loop_step w)\<^sup>*\<^sup>* s s' \<and> place s' = Running [] \<and> executed s' = executed s @ ts"
proof (induction ts arbitrary: s)
  case (Cons t ts)
  let ?s = "(execute t s)\<lparr>place := Running ts\<rparr>"
  have "loop_step w s ?s" using Cons.prems by (rule loop_step.call)
  moreover obtain s' where "(loop_step w)\<^sup>*\<^sup>* ?s s'" "place s' = Running []" "executed s' = executed ?s @ ts"
    using Cons.IH [of ?s] by auto
  ultimately show ?case by (intro exI [of _ s']) (auto intro: converse_rtranclp_into_rtranclp)
qed auto

lemma run_swap:
  assumes "place s = BeforeSwap"
  shows "\<exists>s'. (loop_step w)\<^sup>*\<^sup>* s s' \<and> place s' = Running [] \<and> executed s' = executed s @ functors s"
proof -
  let ?s = "(fst (swap_functors s))\<lparr>place := Running (snd (swap_functors s))\<rparr>"
  have "loop_step w s ?s" using assms by (rule loop_step.swap)
  moreover obtain s' where "(loop_step w)\<^sup>*\<^sup>* ?s s'" "place s' = Running []"
    "executed s' = executed s @ functors s"
    using run_calls [of ?s "functors s" w] by (auto simp: swap_functors_def)
  ultimately show ?thesis by (meson converse_rtranclp_into_rtranclp)
qed

lemma run_woken:
  assumes "place s = Waiting" and "wake_pair s \<noteq> []" and "w \<in> registered s"
  shows "\<exists>s'. (loop_step w)\<^sup>*\<^sup>* s s' \<and> place s' = Running [] \<and> executed s' = executed s @ functors s"
proof -
  let ?s1 = "s\<lparr>place := Handling [w]\<rparr>"
  let ?s2 = "(wakeup_read ?s1)\<lparr>place := Handling []\<rparr>"
  let ?s3 = "?s2\<lparr>place := BeforeSwap\<rparr>"
  have "loop_step w s ?s1" using assms by (intro loop_step.wait) auto
  moreover have "loop_step w ?s1 ?s2" using loop_step.handle [of ?s1 w "[]" w] by simp
  moreover have "loop_step w ?s2 ?s3" by (rule loop_step.handled) simp
  moreover obtain s' where "(loop_step w)\<^sup>*\<^sup>* ?s3 s'" "place s' = Running []"
    "executed s' = executed s @ functors s"
    using run_swap [of ?s3 w] by auto
  ultimately show ?thesis by (meson converse_rtranclp_into_rtranclp)
qed

section \<open>The main loop and \<^verbatim>\<open>quit\<close>\<close>

text \<open>What a task or a handler may do to the loop: write into the pair, but not set the flag.\<close>

definition only_wakes :: "(('f, 'z) evloop_scheme \<Rightarrow> ('f, 'z) evloop_scheme) \<Rightarrow> bool" where
  "only_wakes g \<longleftrightarrow> (\<forall>s. is_quit (g s) = is_quit s \<and> prefix (wake_pair s) (wake_pair (g s)))"

lemma only_wakes_run_task: "\<forall>f. only_wakes (call f) \<Longrightarrow> only_wakes (run_task call t)"
  by (cases t) (auto simp: only_wakes_def)

lemma only_wakes_fold: "(\<And>t. only_wakes (g t)) \<Longrightarrow> only_wakes (fold g ts)"
proof (induction ts)
  case (Cons t ts)
  then have "only_wakes (fold g ts)" "only_wakes (g t)" by auto
  then show ?case unfolding only_wakes_def by (metis comp_apply fold.simps(2) prefix_order.trans)
qed (simp add: only_wakes_def)

lemma only_wakes_do_functors:
  assumes "\<forall>f. only_wakes (call f)"
  shows "only_wakes (do_functors call)"
proof -
  have "only_wakes (fold (run_task call) ts)" for ts
    using assms by (intro only_wakes_fold only_wakes_run_task)
  then have "is_quit (fold (run_task call) ts s) = is_quit s \<and>
      prefix (wake_pair s) (wake_pair (fold (run_task call) ts s))" for ts s
    by (simp add: only_wakes_def)
  from this [where s = "s\<lparr>functors := []\<rparr>" for s] show ?thesis
    by (simp add: only_wakes_def do_functors_def swap_functors_def)
qed

lemma run_once_wake:
  assumes "\<forall>f. only_wakes (call f)" and "only_wakes dispatch" and "wake_pair s = v # vs"
  shows "is_quit (run_once call dispatch s) = (is_quit s \<or> v \<noteq> 0)"
    and "prefix vs (wake_pair (run_once call dispatch s))"
proof -
  let ?s = "wakeup_read s"
  have r: "is_quit ?s = (is_quit s \<or> v \<noteq> 0)" "wake_pair ?s = vs"
    using assms(3) by (auto simp: wakeup_read_def Let_def)
  have d: "is_quit (do_functors call (dispatch ?s)) = is_quit ?s"
    "prefix (wake_pair ?s) (wake_pair (do_functors call (dispatch ?s)))"
  proof -
    have f: "is_quit (do_functors call t) = is_quit t \<and> prefix (wake_pair t) (wake_pair (do_functors call t))" for t
      using only_wakes_do_functors [OF assms(1)] by (simp add: only_wakes_def)
    have g: "is_quit (dispatch t) = is_quit t \<and> prefix (wake_pair t) (wake_pair (dispatch t))" for t
      using assms(2) by (simp add: only_wakes_def)
    show "is_quit (do_functors call (dispatch ?s)) = is_quit ?s"
      "prefix (wake_pair ?s) (wake_pair (do_functors call (dispatch ?s)))"
      using f [of "dispatch ?s"] g [of ?s] by (auto intro: prefix_order.trans)
  qed
  with r show "is_quit (run_once call dispatch s) = (is_quit s \<or> v \<noteq> 0)"
    and "prefix vs (wake_pair (run_once call dispatch s))"
    using assms(3) by (simp_all add: run_once_def)
qed

lemma run_main_quits:
  assumes "\<forall>f. only_wakes (call f)" and "only_wakes dispatch"
    and "k < length (wake_pair s)" and "wake_pair s ! k \<noteq> 0"
  shows "\<exists>s'. run_main (Suc k) call dispatch s = Some s' \<and> is_quit s'"
  using assms(3,4)
proof (induction k arbitrary: s)
  case 0
  then obtain v vs where v: "wake_pair s = v # vs" "v \<noteq> 0" by (cases "wake_pair s") auto
  then show ?case using run_once_wake [OF assms(1,2) v(1)] by (simp add: run_main.simps)
next
  case (Suc k)
  then obtain v vs where v: "wake_pair s = v # vs" "k < length vs" "vs ! k \<noteq> 0" by (cases "wake_pair s") auto
  let ?s = "run_once call dispatch s"
  have "k < length (wake_pair ?s)" "wake_pair ?s ! k \<noteq> 0"
    using run_once_wake(2) [OF assms(1,2) v(1)] v(2,3) by (auto simp: prefix_def nth_append)
  from Suc.IH [OF this] show ?case by (subst run_main.simps) auto
qed

section \<open>Round robin\<close>

lemma next_loops_eq:
  "0 < sz \<Longrightarrow> i \<le> sz \<Longrightarrow> next_loops sz n i = map (\<lambda>k. (i + k) mod sz) [0..<n]"
proof (induction n arbitrary: i)
  case (Suc n)
  let ?j = "if i \<ge> sz then 0 else i"
  have j: "?j = i mod sz" using Suc.prems by auto
  have "next_loops sz n (?j + 1) = map (\<lambda>k. (?j + 1 + k) mod sz) [0..<n]"
    using Suc.prems by (intro Suc.IH) auto
  also have "\<dots> = map (\<lambda>k. (i + Suc k) mod sz) [0..<n]"
    by (auto simp: j) (metis add.assoc add_Suc mod_Suc_eq mod_add_left_eq)
  finally show ?case using j by (simp add: get_next_loop_def Let_def map_upt_Suc del: upt_Suc)
qed simp

section \<open>Properties\<close>

text \<open>
  C4: in every reachable state, in which any number of threads have queued tasks at any time, the
  tasks called so far, those taken from the queue and those still in it are, in this order, all
  the tasks that were ever queued: none is lost, duplicated or overtaken. When \<^verbatim>\<open>run\<close> leaves its last
  loop, every task queued until then has been called.
\<close>

theorem functors_fifo:
  assumes "reachable w s"
  shows "queued s = executed s @ pending (place s) @ functors s \<and>
    (place s = Draining \<and> functors s = [] \<longrightarrow> executed s = queued s)"
  using reachable_facts(1) [OF assms] by (simp add: fifo_def)

text \<open>
  C5: no wakeup is lost although only the first task of a batch wakes the loop. A loop that is
  about to block with tasks in its queue has a byte in its pair, so the wake channel is reported
  by every wait, and the loop thread alone then calls all these tasks.
\<close>

theorem no_lost_wakeup:
  assumes "reachable w s" and "place s = Waiting" and "functors s \<noteq> []"
  shows "wake_pair s \<noteq> [] \<and>
    (\<exists>s'. (loop_step w)\<^sup>*\<^sup>* s s' \<and> place s' = Running [] \<and> executed s' = executed s @ functors s)"
proof -
  have "wake_pair s \<noteq> []" "w \<in> registered s"
    using reachable_facts [OF assms(1)] assms(2,3) by (auto simp: awake_def alive_def)
  then show ?thesis using run_woken [OF assms(2)] by blast
qed

text \<open>
  As long as \<^verbatim>\<open>quit\<close> was not called, the pair never holds more than two unread bytes, however many
  tasks are queued and however late the loop reads them: the write in \<^verbatim>\<open>wakeup\<close> cannot block on a full
  buffer.
\<close>

theorem wake_pair_bounded:
  assumes "reachable w s" and "\<not> quitting s"
  shows "length (wake_pair s) \<le> 2"
proof -
  have "length (wake_pair s) \<le> pair_bound w (place s) (functors s = [])"
    using reachable_facts(3) [OF assms(1)] assms(2) by (simp add: bounded_def)
  also have "\<dots> \<le> 2" by (cases "place s") auto
  finally show ?thesis .
qed

text \<open>
  While the loop handles the active channels, every channel it still has to handle is in
  \<^verbatim>\<open>channel_map\<close>, also when a handler before it called \<^verbatim>\<open>remove\<close> on it: no dangling pointer is used.
  And a channel that waits for its erasure is not registered with the dispatcher any more.
\<close>

theorem active_channels_alive:
  assumes "reachable w s"
  shows "(\<forall>fds. place s = Handling fds \<longrightarrow> set fds \<subseteq> channel_map s) \<and>
    (\<forall>fd. EraseChannel fd \<in> set (pending (place s) @ functors s) \<longrightarrow> fd \<in> channel_map s - registered s)"
  using reachable_facts(4) [OF assms] by (auto simp: alive_def set_erasures)

text \<open>
  C9: \<^verbatim>\<open>quit\<close> ends the main loop. With the byte of \<^verbatim>\<open>quit\<close> behind \<open>k\<close> other bytes in the pair, \<open>k + 1\<close>
  iterations are enough, whatever tasks and handlers do (short of reading the pair).
\<close>

theorem quit_ends_run:
  assumes "\<forall>f. only_wakes (call f)" and "only_wakes dispatch"
  shows "\<exists>s'. run_main (Suc (length (wake_pair s))) call dispatch (quit s) = Some s' \<and> is_quit s'"
  by (rule run_main_quits) (use assms in \<open>auto simp: quit_def wakeup_def nth_append\<close>)

text \<open>A group of loops is used evenly: the \<open>k\<close>-th connection goes to the loop \<open>k mod size\<close>.\<close>

theorem round_robin:
  assumes "0 < sz"
  shows "next_loops sz n 0 = map (\<lambda>k. k mod sz) [0..<n]"
  using next_loops_eq [OF assms, of 0 n] by simp

section \<open>Witnesses\<close>

lemma reachable_queued: "reachable w (queue_in_loop (User f) ((loop_init w)\<lparr>queued := [User f]\<rparr>))"
proof -
  have "loop_step w (loop_init w) (queue_in_loop (User f) ((loop_init w)\<lparr>queued := queued (loop_init w) @ [User f]\<rparr>))"
    by (rule loop_step.queue)
  then show ?thesis using reachable.init reachable.step by (fastforce simp: loop_init_def)
qed

text \<open>A channel on descriptor 5 that is removed by the handler of another one, before its own turn.\<close>

definition removed_while_active :: "unit loop" where
  "removed_while_active = channel_remove 5 \<lparr>functors = [], wake_pair = [], is_quit = False,
     channel_map = {5, 3}, registered = {5, 3}, place = Handling [5], queued = [EraseChannel 5], executed = []\<rparr>"

lemma reachable_removed: "reachable 3 removed_while_active"
proof -
  let ?s1 = "(loop_init 3 :: unit loop)\<lparr>channel_map := {5, 3}, registered := {5, 3}\<rparr>"
  let ?s2 = "?s1\<lparr>place := Handling [5]\<rparr>"
  have "loop_step 3 (loop_init 3) ?s1"
    by (rule loop_step.add [of 5]) (simp add: channel_add_def loop_init_def)
  moreover have "loop_step 3 ?s1 ?s2"
    by (rule loop_step.wait) (auto simp: loop_init_def)
  moreover have "loop_step 3 ?s2 (channel_remove 5 (?s2\<lparr>queued := queued ?s2 @ [EraseChannel 5]\<rparr>))"
    by (rule loop_step.remove) (auto simp: loop_init_def)
  ultimately have "reachable 3 (channel_remove 5 (?s2\<lparr>queued := queued ?s2 @ [EraseChannel 5]\<rparr>))"
    by (meson reachable.init reachable.step)
  then show ?thesis by (simp add: removed_while_active_def loop_init_def)
qed

theorem functors_fifo_witness:
  "functors (queue_in_loop (User ()) ((loop_init 3)\<lparr>queued := [User ()]\<rparr>)) = [User ()]"
  using functors_fifo [OF reachable_queued [of 3 "()"]]
  by (simp add: loop_init_def queue_in_loop_def wakeup_def)

theorem no_lost_wakeup_witness:
  "wake_pair (queue_in_loop (User ()) ((loop_init 3)\<lparr>queued := [User ()]\<rparr>)) \<noteq> []"
  using no_lost_wakeup [OF reachable_queued [of 3 "()"]]
  by (simp add: queue_in_loop_def wakeup_def loop_init_def)

theorem wake_pair_bounded_witness:
  "length (wake_pair (queue_in_loop (User ()) ((loop_init 3)\<lparr>queued := [User ()]\<rparr>))) \<le> 2"
  using wake_pair_bounded [OF reachable_queued [of 3 "()"]]
  by (simp add: queue_in_loop_def wakeup_def loop_init_def quitting_def)

theorem active_channels_alive_witness:
  "place removed_while_active = Handling [5] \<and> 5 \<in> channel_map removed_while_active \<and>
   5 \<notin> registered removed_while_active"
  using active_channels_alive [OF reachable_removed]
  by (simp add: removed_while_active_def channel_remove_def queue_in_loop_def wakeup_def)

theorem quit_ends_run_witness:
  "\<exists>s'. run_main 1 (\<lambda>f s. queue_in_loop (User f) s) (\<lambda>s. s) (quit (evloop_new 3 :: unit evloop)) = Some s' \<and> is_quit s'"
  using quit_ends_run [of "\<lambda>f s. queue_in_loop (User f) s" "\<lambda>s. s" "evloop_new 3 :: unit evloop"]
  by (simp add: only_wakes_def queue_in_loop_def wakeup_def Let_def evloop_new_def)

theorem round_robin_witness: "next_loops 3 5 0 = [0, 1, 2, 0, 1]"
  using round_robin [of 3 5] by (simp add: upt_rec)

end
