(* ===== verification/Timer.thy ===== *)
theory Timer
  imports Prelude "HOL-Library.Multiset"
begin

text \<open>
  \<^verbatim>\<open>class timer_t\<close> (\<^verbatim>\<open>src/timer.h\<close>, \<^verbatim>\<open>src/timer.cc\<close>) and the timer functions of the event loop
  (\<^verbatim>\<open>run_after\<close>, \<^verbatim>\<open>run_every\<close> and \<^verbatim>\<open>cancel_timer\<close> in \<^verbatim>\<open>src/evloop.cc\<close>): the tasks are kept twice, in a multiset ordered by
  expiration time and in a map by id. A \<^verbatim>\<open>std::multiset\<close> is the list of its elements in iteration
  order, where a new element goes behind the equal ones. The calls are those of the loop thread,
  for which \<^verbatim>\<open>run_in_loop\<close> runs the call at once. Times are mathematical integers: the additions of the code are taken not to
  overflow \<^verbatim>\<open>int64_t\<close>. The effect of a callback on the timers is the argument \<open>call\<close>.
\<close>

section \<open>State and operations\<close>

record 'cb timer_task =
  tid :: nat
  expire :: int
  interval :: int
  timer_cb :: 'cb

record 'cb timer =
  timer_set :: "'cb timer_task list"
  timer_map :: "nat \<rightharpoonup> 'cb timer_task"
  timer_id :: nat

definition timer_new :: "'cb timer" where
  "timer_new = \<lparr>timer_set = [], timer_map = Map.empty, timer_id = 1\<rparr>"

definition timeout :: "int \<Rightarrow> 'cb timer \<Rightarrow> int" where
  "timeout now t =
     (case timer_set t of
        [] \<Rightarrow> -1
      | task # _ \<Rightarrow> (let timeval = expire task - now in if timeval > 0 then timeval else 0))"

definition multiset_emplace :: "'cb timer_task \<Rightarrow> 'cb timer_task list \<Rightarrow> 'cb timer_task list" where
  "multiset_emplace x xs =
     takeWhile (\<lambda>y. expire y \<le> expire x) xs @ x # dropWhile (\<lambda>y. expire y \<le> expire x) xs"

text \<open>\<^verbatim>\<open>timer_map.emplace\<close> keeps an element that is already there.\<close>

definition add_timer_in_loop :: "'cb timer_task \<Rightarrow> 'cb timer \<Rightarrow> 'cb timer" where
  "add_timer_in_loop task t =
     t\<lparr>timer_set := multiset_emplace task (timer_set t),
       timer_map := (if timer_map t (tid task) = None then (timer_map t)(tid task \<mapsto> task) else timer_map t)\<rparr>"

definition add_timer :: "'cb timer_task \<Rightarrow> 'cb timer \<Rightarrow> nat \<times> 'cb timer" where
  "add_timer task t =
     (let i = timer_id t
      in (i, add_timer_in_loop (task\<lparr>tid := i\<rparr>) (t\<lparr>timer_id := i + 1\<rparr>)))"

fun erase_in_range :: "nat \<Rightarrow> 'cb timer_task list \<Rightarrow> 'cb timer_task list option" where
  "erase_in_range i [] = None"
| "erase_in_range i (x # xs) = (if tid x = i then Some xs else map_option ((#) x) (erase_in_range i xs))"

definition cancel_timer_in_loop :: "nat \<Rightarrow> 'cb timer \<Rightarrow> 'cb timer" where
  "cancel_timer_in_loop i t =
     (case timer_map t i of
        None \<Rightarrow> t
      | Some task \<Rightarrow>
          let before = takeWhile (\<lambda>y. expire y < expire task) (timer_set t);
              rest = dropWhile (\<lambda>y. expire y < expire task) (timer_set t);
              range = takeWhile (\<lambda>y. expire y \<le> expire task) rest;
              after = dropWhile (\<lambda>y. expire y \<le> expire task) rest
          in case erase_in_range i range of
               None \<Rightarrow> t
             | Some range' \<Rightarrow> t\<lparr>timer_set := before @ range' @ after, timer_map := (timer_map t)(i := None)\<rparr>)"

definition cancel_timer :: "nat \<Rightarrow> 'cb timer \<Rightarrow> 'cb timer" where
  "cancel_timer i t = (if i = 0 then t else cancel_timer_in_loop i t)"

definition run_after :: "int \<Rightarrow> int \<Rightarrow> 'cb \<Rightarrow> 'cb timer \<Rightarrow> nat \<times> 'cb timer" where
  "run_after now timeout_ms cb t =
     add_timer \<lparr>tid = 0, expire = now + timeout_ms, interval = 0, timer_cb = cb\<rparr> t"

definition run_every :: "int \<Rightarrow> int \<Rightarrow> 'cb \<Rightarrow> 'cb timer \<Rightarrow> nat \<times> 'cb timer" where
  "run_every now interval_ms cb t =
     add_timer \<lparr>tid = 0, expire = now + interval_ms, interval = interval_ms, timer_cb = cb\<rparr> t"

text \<open>
  One round of the loop in \<^verbatim>\<open>tick\<close> (\<open>None\<close>: the loop ends), and the loop with a bound on its rounds,
  which returns the tasks in the order their callbacks were called.
\<close>

definition tick_round :: "('cb \<Rightarrow> 'cb timer \<Rightarrow> 'cb timer) \<Rightarrow> int \<Rightarrow> 'cb timer \<Rightarrow> ('cb timer_task \<times> 'cb timer) option" where
  "tick_round call now t =
     (case timer_set t of
        [] \<Rightarrow> None
      | cur # rest \<Rightarrow>
          if expire cur > now then None
          else
            let t1 = t\<lparr>timer_set := rest, timer_map := (timer_map t)(tid cur := None)\<rparr>;
                t2 = call (timer_cb cur) t1
            in Some (cur,
                 if interval cur > 0
                 then add_timer_in_loop (cur\<lparr>expire := expire cur + interval cur\<rparr>) t2
                 else t2))"

fun tick :: "nat \<Rightarrow> ('cb \<Rightarrow> 'cb timer \<Rightarrow> 'cb timer) \<Rightarrow> int \<Rightarrow> 'cb timer \<Rightarrow> ('cb timer_task list \<times> 'cb timer) option" where
  "tick fuel call now t =
     (case tick_round call now t of
        None \<Rightarrow> Some ([], t)
      | Some (cur, t') \<Rightarrow>
          case fuel of
            0 \<Rightarrow> None
          | Suc n \<Rightarrow> map_option (\<lambda>(fired, t''). (cur # fired, t'')) (tick n call now t'))"

declare tick.simps [simp del]

section \<open>Invariant\<close>

definition timer_invar :: "'cb timer \<Rightarrow> bool" where
  "timer_invar t \<longleftrightarrow>
     sorted (map expire (timer_set t)) \<and> distinct (map tid (timer_set t)) \<and>
     (\<forall>i x. timer_map t i = Some x \<longleftrightarrow> x \<in> set (timer_set t) \<and> tid x = i) \<and>
     (\<forall>x \<in> set (timer_set t). 0 < tid x \<and> tid x < timer_id t) \<and> 0 < timer_id t"

lemma timer_invar_map: "timer_invar t \<Longrightarrow> timer_map t i = Some x \<longleftrightarrow> x \<in> set (timer_set t) \<and> tid x = i"
  by (simp add: timer_invar_def)

lemma timer_invar_None: "timer_invar t \<Longrightarrow> timer_map t i = None \<longleftrightarrow> i \<notin> tid ` set (timer_set t)"
proof -
  assume inv: "timer_invar t"
  have "(\<exists>x. timer_map t i = Some x) \<longleftrightarrow> i \<in> tid ` set (timer_set t)"
    unfolding timer_invar_map [OF inv] by auto
  then show ?thesis by auto
qed

lemma set_multiset_emplace [simp]: "set (multiset_emplace x xs) = insert x (set xs)"
  by (auto simp: multiset_emplace_def dest: set_takeWhileD set_dropWhileD)
    (metis UnE set_append takeWhile_dropWhile_id)

lemma mset_multiset_emplace: "mset (multiset_emplace x xs) = add_mset x (mset xs)"
proof -
  have "mset (takeWhile P xs) + mset (dropWhile P xs) = mset xs" for P
    by (metis mset_append takeWhile_dropWhile_id)
  then show ?thesis by (simp add: multiset_emplace_def)
qed

lemma distinct_multiset_emplace:
  "distinct (map tid (multiset_emplace x xs)) \<longleftrightarrow> tid x \<notin> tid ` set xs \<and> distinct (map tid xs)"
proof -
  have "mset (map tid (multiset_emplace x xs)) = mset (map tid (x # xs))"
    using mset_multiset_emplace [of x xs] by simp
  then have "distinct (map tid (multiset_emplace x xs)) \<longleftrightarrow> distinct (map tid (x # xs))"
    by (rule mset_eq_imp_distinct_iff)
  then show ?thesis by simp
qed

lemma sorted_multiset_emplace:
  assumes "sorted (map expire xs)"
  shows "sorted (map expire (multiset_emplace x xs))"
proof -
  let ?P = "\<lambda>y. expire y \<le> expire x"
  have "sorted (map expire (takeWhile ?P xs @ dropWhile ?P xs))" using assms by simp
  then have s: "sorted (map expire (takeWhile ?P xs))" "sorted (map expire (dropWhile ?P xs))"
    by (simp_all add: sorted_append del: takeWhile_dropWhile_id)
  have "expire x < expire y" if y: "y \<in> set (dropWhile ?P xs)" for y
  proof -
    obtain z zs where z: "dropWhile ?P xs = z # zs" using y by (cases "dropWhile ?P xs") auto
    then have "\<not> ?P z" by (metis dropWhile_eq_Cons_conv)
    moreover have "expire z \<le> expire y" using s(2) y z by auto
    ultimately show ?thesis by simp
  qed
  moreover have "\<And>y. y \<in> set (takeWhile ?P xs) \<Longrightarrow> expire y \<le> expire x" by (auto dest: set_takeWhileD)
  ultimately show ?thesis
    using s by (fastforce simp: multiset_emplace_def sorted_append)
qed

lemma add_timer_in_loop_set [simp]: "timer_set (add_timer_in_loop x t) = multiset_emplace x (timer_set t)"
  "timer_id (add_timer_in_loop x t) = timer_id t"
  by (simp_all add: add_timer_in_loop_def)

lemma add_timer_in_loop_invar:
  assumes "timer_invar t" and "tid x \<notin> tid ` set (timer_set t)" and "0 < tid x" and "tid x < timer_id t"
  shows "timer_invar (add_timer_in_loop x t)"
    and "timer_map (add_timer_in_loop x t) = (timer_map t)(tid x \<mapsto> x)"
proof -
  have n: "timer_map t (tid x) = None" using timer_invar_None [OF assms(1)] assms(2) by simp
  then show "timer_map (add_timer_in_loop x t) = (timer_map t)(tid x \<mapsto> x)"
    by (simp add: add_timer_in_loop_def)
  with assms show "timer_invar (add_timer_in_loop x t)"
    unfolding timer_invar_def
    by (auto simp: sorted_multiset_emplace distinct_multiset_emplace image_iff)
qed

lemma timer_invar_id: "timer_invar t \<Longrightarrow> timer_id t \<notin> tid ` set (timer_set t)"
  by (auto simp: timer_invar_def)

lemma timer_invar_next: "timer_invar t \<Longrightarrow> timer_invar (t\<lparr>timer_id := timer_id t + 1\<rparr>)"
  by (auto simp: timer_invar_def)

lemma add_timer_invar:
  assumes "timer_invar t"
  shows "timer_invar (snd (add_timer x t))"
    and "timer_map (snd (add_timer x t)) = (timer_map t)(timer_id t \<mapsto> x\<lparr>tid := timer_id t\<rparr>)"
    and "fst (add_timer x t) = timer_id t" and "timer_id (snd (add_timer x t)) = timer_id t + 1"
  using add_timer_in_loop_invar [OF timer_invar_next [OF assms], of "x\<lparr>tid := timer_id t\<rparr>"]
    timer_invar_id [OF assms] assms
  by (auto simp: add_timer_def Let_def timer_invar_def)

lemma erase_in_range_Some:
  "distinct (map tid xs) \<Longrightarrow> i \<in> tid ` set xs \<Longrightarrow> erase_in_range i xs = Some (filter (\<lambda>y. tid y \<noteq> i) xs)"
proof (induction xs)
  case (Cons x xs)
  have "filter (\<lambda>y. tid y \<noteq> tid x) xs = xs" using Cons.prems by (auto simp: filter_id_conv image_iff)
  then show ?case using Cons by (auto simp: image_iff)
qed simp

lemma timer_invar_unique:
  "timer_invar t \<Longrightarrow> x \<in> set (timer_set t) \<Longrightarrow> y \<in> set (timer_set t) \<Longrightarrow> tid x = tid y \<Longrightarrow> x = y"
  by (auto simp: timer_invar_def distinct_map inj_on_def)

lemma sorted_dropWhile_le:
  assumes "sorted (map f xs)" and "y \<in> set (dropWhile (\<lambda>x. f x < c) xs)"
  shows "c \<le> f y"
proof -
  obtain z zs where z: "dropWhile (\<lambda>x. f x < c) xs = z # zs" using assms(2) by (cases "dropWhile (\<lambda>x. f x < c) xs") auto
  have "sorted (map f (takeWhile (\<lambda>x. f x < c) xs @ z # zs))" using assms(1) z [symmetric] by simp
  then have "f z \<le> f y" using assms(2) z by (auto simp: sorted_append)
  moreover have "\<not> f z < c" using z by (metis dropWhile_eq_Cons_conv)
  ultimately show ?thesis by simp
qed

text \<open>The search in the range of equal expiration times finds the task, and removes nothing else.\<close>

lemma cancel_timer_in_loop_set:
  assumes inv: "timer_invar t"
  shows "timer_set (cancel_timer_in_loop i t) = filter (\<lambda>y. tid y \<noteq> i) (timer_set t)"
    and "timer_map (cancel_timer_in_loop i t) = (timer_map t)(i := None)"
    and "timer_id (cancel_timer_in_loop i t) = timer_id t"
proof -
  have "timer_set (cancel_timer_in_loop i t) = filter (\<lambda>y. tid y \<noteq> i) (timer_set t) \<and>
      timer_map (cancel_timer_in_loop i t) = (timer_map t)(i := None) \<and>
      timer_id (cancel_timer_in_loop i t) = timer_id t"
  proof (cases "timer_map t i")
    case None
    then have "filter (\<lambda>y. tid y \<noteq> i) (timer_set t) = timer_set t"
      using timer_invar_None [OF inv, of i] by (auto simp: filter_id_conv)
    with None show ?thesis by (simp add: cancel_timer_in_loop_def fun_upd_idem)
  next
    case (Some task)
    then have task: "task \<in> set (timer_set t)" "tid task = i" using timer_invar_map [OF inv] by auto
    define before rest where "before = takeWhile (\<lambda>y. expire y < expire task) (timer_set t)"
      and "rest = dropWhile (\<lambda>y. expire y < expire task) (timer_set t)"
    define range after where "range = takeWhile (\<lambda>y. expire y \<le> expire task) rest"
      and "after = dropWhile (\<lambda>y. expire y \<le> expire task) rest"
    have split: "timer_set t = before @ range @ after"
      by (simp add: before_def rest_def range_def after_def)
    have ne: "y \<noteq> task" if "y \<in> set before \<union> set after" for y
    proof
      assume "y = task"
      with that consider "task \<in> set before" | "task \<in> set after" by auto
      then show False
      proof cases
        case 1
        then show False by (auto simp: before_def dest: set_takeWhileD)
      next
        case 2
        then obtain z zs where z: "after = z # zs" by (cases after) auto
        have "sorted (map expire (before @ range @ z # zs))"
          using inv split z by (simp add: timer_invar_def)
        then have "expire z \<le> expire task" using 2 z by (auto simp: sorted_append)
        moreover have "\<not> expire z \<le> expire task" using z unfolding after_def by (metis dropWhile_eq_Cons_conv)
        ultimately show False by simp
      qed
    qed
    have "task \<in> set range" using task(1) split ne by auto
    moreover have "distinct (map tid range)" using inv split by (simp add: timer_invar_def)
    ultimately have e: "erase_in_range i range = Some (filter (\<lambda>y. tid y \<noteq> i) range)"
      using erase_in_range_Some task(2) by blast
    have keep: "filter (\<lambda>y. tid y \<noteq> i) xs = xs" if "set xs \<subseteq> set before \<union> set after" for xs
    proof -
      have "tid y \<noteq> i" if y: "y \<in> set before \<union> set after" for y
      proof -
        have "y \<in> set (timer_set t)" unfolding split using y by auto
        from timer_invar_unique [OF inv this task(1)] show ?thesis using task(2) ne [OF y] by metis
      qed
      then show ?thesis using that by (meson filter_id_conv subsetD)
    qed
    have "cancel_timer_in_loop i t =
        t\<lparr>timer_set := before @ filter (\<lambda>y. tid y \<noteq> i) range @ after, timer_map := (timer_map t)(i := None)\<rparr>"
      using Some e by (simp add: cancel_timer_in_loop_def Let_def before_def rest_def range_def after_def)
    then show ?thesis
      using keep [of before] keep [of after] by (simp add: split)
  qed
  then show "timer_set (cancel_timer_in_loop i t) = filter (\<lambda>y. tid y \<noteq> i) (timer_set t)"
    and "timer_map (cancel_timer_in_loop i t) = (timer_map t)(i := None)"
    and "timer_id (cancel_timer_in_loop i t) = timer_id t" by simp_all
qed

lemma sorted_map_filter': "sorted (map f xs) \<Longrightarrow> sorted (map f (filter P xs))"
  by (induction xs) auto

lemma cancel_timer_in_loop_invar:
  assumes "timer_invar t"
  shows "timer_invar (cancel_timer_in_loop i t)"
proof -
  have "((timer_map t)(i := None)) j = Some x \<longleftrightarrow> x \<in> set (filter (\<lambda>y. tid y \<noteq> i) (timer_set t)) \<and> tid x = j" for j x
    using timer_invar_map [OF assms, of j x] by auto
  then show ?thesis
    using assms unfolding timer_invar_def cancel_timer_in_loop_set [OF assms]
    by (simp add: sorted_map_filter' distinct_map_filter)
qed

lemma cancel_timer_eq:
  assumes "timer_invar t"
  shows "timer_map (cancel_timer i t) = (timer_map t)(i := None)" "timer_invar (cancel_timer i t)"
    "timer_id (cancel_timer i t) = timer_id t"
proof -
  have "timer_map t 0 = None" using assms timer_invar_None [OF assms, of 0] by (auto simp: timer_invar_def)
  then show "timer_map (cancel_timer i t) = (timer_map t)(i := None)"
    using assms by (auto simp: cancel_timer_def cancel_timer_in_loop_set)
  show "timer_invar (cancel_timer i t)" "timer_id (cancel_timer i t) = timer_id t"
    using assms by (auto simp: cancel_timer_def cancel_timer_in_loop_set cancel_timer_in_loop_invar)
qed

section \<open>The contract: timers by id\<close>

text \<open>
  What the event loop relies on: a store of tasks by id, to which \<^verbatim>\<open>add_timer\<close> adds a task under a new id,
  from which \<^verbatim>\<open>cancel_timer\<close> takes the one with the given id, and whose first element has the earliest time.
\<close>

locale timer_store =
  fixes invar :: "'t \<Rightarrow> bool"
    and lookup :: "'t \<Rightarrow> nat \<rightharpoonup> 'cb timer_task"
    and next_id :: "'t \<Rightarrow> nat"
    and add :: "'cb timer_task \<Rightarrow> 't \<Rightarrow> nat \<times> 't"
    and cancel :: "nat \<Rightarrow> 't \<Rightarrow> 't"
  assumes add_law: "invar t \<Longrightarrow> add x t = (i, t') \<Longrightarrow>
      invar t' \<and> i = next_id t \<and> next_id t' = i + 1 \<and> lookup t' = (lookup t)(i \<mapsto> x\<lparr>tid := i\<rparr>)"
    and cancel_law: "invar t \<Longrightarrow>
      invar (cancel i t) \<and> next_id (cancel i t) = next_id t \<and> lookup (cancel i t) = (lookup t)(i := None)"
    and fresh_law: "invar t \<Longrightarrow> next_id t \<le> i \<Longrightarrow> lookup t i = None"
begin

lemma add_cancel:
  assumes "invar t" and "add x t = (i, t')"
  shows "lookup (cancel i t') = lookup t" "invar (cancel i t')"
proof -
  have 1: "invar t'" "i = next_id t" "lookup t' = (lookup t)(i \<mapsto> x\<lparr>tid := i\<rparr>)"
    using add_law [OF assms] by simp_all
  then show "lookup (cancel i t') = lookup t" "invar (cancel i t')"
    using cancel_law [OF 1(1), of i] fresh_law [OF assms(1), of i] by (auto simp: fun_eq_iff)
qed

lemma add_two_ids:
  assumes "invar t" and "add x t = (i, t1)" and "add y t1 = (j, t2)"
  shows "i < j" "lookup t2 i = Some (x\<lparr>tid := i\<rparr>)" "lookup t2 j = Some (y\<lparr>tid := j\<rparr>)"
  using add_law [OF assms(1,2)] add_law [OF _ assms(3)] by auto

text \<open>What a callback can do to the timers: a sequence of these calls. It never brings a used id back.\<close>

fun calls :: "('cb timer_task + nat) list \<Rightarrow> 't \<Rightarrow> 't" where
  "calls [] t = t"
| "calls (Inl x # cs) t = calls cs (snd (add x t))"
| "calls (Inr i # cs) t = calls cs (cancel i t)"

lemma calls_invar:
  "invar t \<Longrightarrow> invar (calls cs t) \<and> next_id t \<le> next_id (calls cs t) \<and>
    (\<forall>i < next_id t. lookup (calls cs t) i \<in> {None, lookup t i})"
proof (induction cs t rule: calls.induct)
  case (2 x cs t)
  obtain i t' where "add x t = (i, t')" by fastforce
  with 2 add_law [OF 2(2) this] show ?case by (auto split: if_splits) (metis less_SucI less_irrefl)+
next
  case (3 i cs t)
  then show ?case using cancel_law [OF 3(2), of i] by (auto split: if_splits)
qed auto

end

interpretation timers: timer_store timer_invar timer_map timer_id add_timer cancel_timer
proof (unfold_locales, goal_cases)
  case (1 t x i t')
  then show ?case using add_timer_invar [OF 1(1), of x] by auto
next
  case (2 t i)
  then show ?case using cancel_timer_eq [OF 2] by simp
next
  case (3 t i)
  then show ?case using timer_invar_None [OF 3(1), of i] by (auto simp: timer_invar_def)
qed

section \<open>Expiration\<close>

lemma timer_new_invar: "timer_invar timer_new"
  by (simp add: timer_invar_def timer_new_def)

text \<open>A callback is well behaved if its effect is that of some sequence of calls of the public functions.\<close>

definition cb_ok :: "('cb \<Rightarrow> 'cb timer \<Rightarrow> 'cb timer) \<Rightarrow> bool" where
  "cb_ok call \<longleftrightarrow> (\<forall>cb t. timer_invar t \<longrightarrow> timer_invar (call cb t) \<and> timer_id t \<le> timer_id (call cb t) \<and>
     (\<forall>i < timer_id t. timer_map (call cb t) i \<in> {None, timer_map t i}))"

lemma cb_ok_calls: "cb_ok (\<lambda>cb. timers.calls (cs cb))"
  using timers.calls_invar by (auto simp: cb_ok_def)

lemma timer_invar_tl:
  assumes "timer_invar t" and "timer_set t = cur # rest"
  shows "timer_invar (t\<lparr>timer_set := rest, timer_map := (timer_map t)(tid cur := None)\<rparr>)"
    and "tid cur \<notin> tid ` set rest"
proof -
  show n: "tid cur \<notin> tid ` set rest" using assms by (auto simp: timer_invar_def)
  have "((timer_map t)(tid cur := None)) j = Some x \<longleftrightarrow> x \<in> set rest \<and> tid x = j" for j x
    using timer_invar_map [OF assms(1), of j x] n assms(2) by (auto simp: image_iff)
  then show "timer_invar (t\<lparr>timer_set := rest, timer_map := (timer_map t)(tid cur := None)\<rparr>)"
    using assms by (simp add: timer_invar_def)
qed

lemma tick_round_invar:
  assumes "cb_ok call" and "timer_invar t" and "tick_round call now t = Some (cur, t')"
  shows "timer_invar t'" and "cur \<in> set (timer_set t)" and "expire cur \<le> now"
    and "timer_map t' (tid cur) =
      (if interval cur > 0 then Some (cur\<lparr>expire := expire cur + interval cur\<rparr>) else None)"
proof -
  obtain rest where r: "timer_set t = cur # rest" "expire cur \<le> now"
    using assms(3) by (auto simp: tick_round_def Let_def split: list.splits if_splits)
  let ?t1 = "t\<lparr>timer_set := rest, timer_map := (timer_map t)(tid cur := None)\<rparr>"
  let ?t2 = "call (timer_cb cur) ?t1"
  have t': "t' = (if interval cur > 0 then add_timer_in_loop (cur\<lparr>expire := expire cur + interval cur\<rparr>) ?t2 else ?t2)"
    using assms(3) r by (auto simp: tick_round_def Let_def)
  have id: "0 < tid cur" "tid cur < timer_id t" using assms(2) r by (auto simp: timer_invar_def)
  have t2: "timer_invar ?t2" "timer_map ?t2 (tid cur) = None" "tid cur < timer_id ?t2"
  proof -
    have "\<forall>i < timer_id ?t1. timer_map ?t2 i \<in> {None, timer_map ?t1 i}" "timer_id ?t1 \<le> timer_id ?t2" "timer_invar ?t2"
      using assms(1) [unfolded cb_ok_def, rule_format, OF timer_invar_tl(1) [OF assms(2) r(1)], of "timer_cb cur"]
      by simp_all
    with id show "timer_invar ?t2" "timer_map ?t2 (tid cur) = None" "tid cur < timer_id ?t2" by auto
  qed
  then have "tid cur \<notin> tid ` set (timer_set ?t2)" using timer_invar_None by blast
  with t2 id add_timer_in_loop_invar [OF t2(1), of "cur\<lparr>expire := expire cur + interval cur\<rparr>"] t'
  show "timer_invar t'" and "timer_map t' (tid cur) =
      (if interval cur > 0 then Some (cur\<lparr>expire := expire cur + interval cur\<rparr>) else None)"
    by auto
  show "cur \<in> set (timer_set t)" and "expire cur \<le> now" using r by auto
qed

lemma tick_round_None: "tick_round call now t = None \<longleftrightarrow> (timer_set t = [] \<or> expire (hd (timer_set t)) > now)"
  by (auto simp: tick_round_def Let_def split: list.splits)

lemma tick_result:
  assumes "cb_ok call" and "timer_invar t" and "tick fuel call now t = Some (fired, t')"
  shows "timer_invar t' \<and> (\<forall>x \<in> set fired. expire x \<le> now) \<and> (\<forall>x \<in> set (timer_set t'). now < expire x)"
  using assms(2,3)
proof (induction fuel arbitrary: t fired)
  case 0
  then have n: "tick_round call now t = None" "t' = t" "fired = []"
    by (auto simp: tick.simps [of 0] split: option.splits)
  then have "\<forall>x \<in> set (timer_set t). now < expire x"
    using 0(1) by (cases "timer_set t") (auto simp: tick_round_None timer_invar_def)
  with n 0 show ?case by simp
next
  case (Suc k)
  show ?case
  proof (cases "tick_round call now t")
    case None
    then have "\<forall>x \<in> set (timer_set t). now < expire x"
      using Suc(2) by (cases "timer_set t") (auto simp: tick_round_None timer_invar_def)
    with None Suc show ?thesis by (simp add: tick.simps [of "Suc k"])
  next
    case (Some p)
    obtain cur t1 where p: "p = (cur, t1)" by fastforce
    with Some Suc(3) obtain fired' where f: "tick k call now t1 = Some (fired', t')" "fired = cur # fired'"
      by (auto simp: tick.simps [of "Suc k"])
    from Suc.IH [OF _ f(1)] tick_round_invar [OF assms(1) Suc(2) Some [unfolded p]] f(2) show ?thesis by simp
  qed
qed

section \<open>Termination and order of \<^verbatim>\<open>tick\<close>\<close>

text \<open>Callbacks whose new timers are not due yet at the time \<^verbatim>\<open>tick\<close> started.\<close>

definition cb_late :: "int \<Rightarrow> ('cb \<Rightarrow> 'cb timer \<Rightarrow> 'cb timer) \<Rightarrow> bool" where
  "cb_late now call \<longleftrightarrow> (\<forall>cb t. timer_invar t \<longrightarrow>
     set (timer_set (call cb t)) \<subseteq> set (timer_set t) \<union> {x. now < expire x})"

definition work :: "int \<Rightarrow> 'cb timer \<Rightarrow> nat" where
  "work now t = (\<Sum>x \<in> set (timer_set t). nat (now - expire x + 1))"

lemma work_mono: "set (timer_set t') \<subseteq> set (timer_set t) \<union> {x. now < expire x} \<Longrightarrow> work now t' \<le> work now t"
proof -
  assume a: "set (timer_set t') \<subseteq> set (timer_set t) \<union> {x. now < expire x}"
  let ?w = "\<lambda>x. nat (now - expire x + 1)"
  have "sum ?w (set (timer_set t')) = sum ?w (set (timer_set t') \<inter> {x. expire x \<le> now})"
    by (rule sum.mono_neutral_right) auto
  also have "\<dots> \<le> sum ?w (set (timer_set t))"
    using a by (intro sum_mono2) force+
  finally show ?thesis by (simp add: work_def)
qed

lemma work_add: "work now (add_timer_in_loop x t) \<le> nat (now - expire x + 1) + work now t"
  by (cases "x \<in> set (timer_set t)") (simp_all add: work_def insert_absorb)

lemma tick_round_split:
  assumes "cb_late now call" and "timer_invar t" and "tick_round call now t = Some (cur, t')"
  obtains rest where "timer_set t = cur # rest" "expire cur \<le> now"
    "set (timer_set t') \<subseteq> (if interval cur > 0 then {cur\<lparr>expire := expire cur + interval cur\<rparr>} else {}) \<union>
       set rest \<union> {x. now < expire x}"
proof -
  obtain rest where r: "timer_set t = cur # rest" "expire cur \<le> now"
    using assms(3) by (auto simp: tick_round_def Let_def split: list.splits if_splits)
  let ?t1 = "t\<lparr>timer_set := rest, timer_map := (timer_map t)(tid cur := None)\<rparr>"
  have "set (timer_set (call (timer_cb cur) ?t1)) \<subseteq> set rest \<union> {x. now < expire x}"
    using assms(1) [unfolded cb_late_def, rule_format, OF timer_invar_tl(1) [OF assms(2) r(1)], of "timer_cb cur"]
    by simp
  moreover have "t' = (if interval cur > 0 then add_timer_in_loop (cur\<lparr>expire := expire cur + interval cur\<rparr>)
      (call (timer_cb cur) ?t1) else call (timer_cb cur) ?t1)"
    using r assms(3) by (auto simp: tick_round_def Let_def)
  ultimately show thesis by (intro that [OF r]) auto
qed

lemma tick_round_work:
  assumes "cb_late now call" and "timer_invar t" and "tick_round call now t = Some (cur, t')"
  shows "work now t' < work now t"
proof -
  obtain rest where r: "timer_set t = cur # rest" "expire cur \<le> now"
    "set (timer_set t') \<subseteq> (if interval cur > 0 then {cur\<lparr>expire := expire cur + interval cur\<rparr>} else {}) \<union>
       set rest \<union> {x. now < expire x}"
    using tick_round_split [OF assms] .
  let ?t1 = "t\<lparr>timer_set := rest\<rparr>" and ?next = "cur\<lparr>expire := expire cur + interval cur\<rparr>"
  have "cur \<notin> set rest" using assms(2) r(1) by (auto simp: timer_invar_def)
  then have "work now t = nat (now - expire cur + 1) + work now ?t1" using r(1) by (simp add: work_def)
  moreover have "work now t' \<le> (if interval cur > 0 then nat (now - expire ?next + 1) else 0) + work now ?t1"
  proof (cases "interval cur > 0")
    case True
    then have "work now t' \<le> work now (add_timer_in_loop ?next ?t1)"
      using r(3) by (intro work_mono) auto
    then show ?thesis using work_add [of now ?next ?t1] True by simp
  next
    case False
    then show ?thesis using r(3) work_mono [of t' ?t1] by simp
  qed
  ultimately show ?thesis using r(2) by (simp split: if_splits)
qed

lemma tick_enough:
  assumes "cb_ok call" and "cb_late now call" and "timer_invar t" and "work now t \<le> fuel"
  shows "\<exists>fired t'. tick fuel call now t = Some (fired, t')"
  using assms(3,4)
proof (induction fuel arbitrary: t)
  case 0
  then have "tick_round call now t = None"
    using tick_round_work [OF assms(2)] by (cases "tick_round call now t") fastforce+
  then show ?case by (simp add: tick.simps [of 0])
next
  case (Suc k)
  show ?case
  proof (cases "tick_round call now t")
    case (Some p)
    obtain cur t1 where p: "p = (cur, t1)" by fastforce
    have "work now t1 \<le> k" "timer_invar t1"
      using tick_round_work [OF assms(2) Suc(2) Some [unfolded p]] Suc(3)
        tick_round_invar(1) [OF assms(1) Suc(2) Some [unfolded p]] by auto
    from Suc.IH [OF this(2,1)] Some p show ?thesis by (auto simp: tick.simps [of "Suc k"])
  qed (simp add: tick.simps [of "Suc k"])
qed

lemma tick_sorted:
  assumes "cb_ok call" and "cb_late now call" and "timer_invar t" and "tick fuel call now t = Some (fired, t')"
    and "\<forall>x \<in> set (timer_set t). b \<le> expire x \<or> now < expire x"
  shows "sorted (map expire fired) \<and> (\<forall>x \<in> set fired. b \<le> expire x)"
  using assms(3-)
proof (induction fuel arbitrary: t fired b)
  case 0
  then show ?case by (auto simp: tick.simps [of 0] split: option.splits)
next
  case (Suc k)
  show ?case
  proof (cases "tick_round call now t")
    case (Some p)
    obtain cur t1 where p: "p = (cur, t1)" by fastforce
    with Some Suc(3) obtain fired' where f: "tick k call now t1 = Some (fired', t')" "fired = cur # fired'"
      by (auto simp: tick.simps [of "Suc k"])
    obtain rest where r: "timer_set t = cur # rest" "expire cur \<le> now"
      "set (timer_set t1) \<subseteq> (if interval cur > 0 then {cur\<lparr>expire := expire cur + interval cur\<rparr>} else {}) \<union>
         set rest \<union> {x. now < expire x}"
      using tick_round_split [OF assms(2) Suc(2) Some [unfolded p]] .
    have "\<forall>x \<in> set rest. expire cur \<le> expire x" using Suc(2) r(1) by (auto simp: timer_invar_def)
    then have "\<forall>x \<in> set (timer_set t1). expire cur \<le> expire x \<or> now < expire x"
      using r(3) by (auto split: if_splits)
    from Suc.IH [OF tick_round_invar(1) [OF assms(1) Suc(2) Some [unfolded p]] f(1) this]
    show ?thesis using f(2) r Suc(4) by force
  qed (use Suc in \<open>auto simp: tick.simps [of "Suc k"]\<close>)
qed

text \<open>When a task is due until \<open>now\<close>: once, or again and again at the distance of its interval.\<close>

definition due :: "int \<Rightarrow> 'cb timer_task \<Rightarrow> int list" where
  "due now x =
     (if now < expire x then []
      else if interval x > 0
      then map (\<lambda>k. expire x + int k * interval x) [0..<nat ((now - expire x) div interval x) + 1]
      else [expire x])"

lemma due_interval:
  assumes "interval x > 0" and "expire x \<le> now"
  shows "due now x = expire x # due now (x\<lparr>expire := expire x + interval x\<rparr>)"
proof (cases "now < expire x + interval x")
  case True
  then have "(now - expire x) div interval x = 0" using assms by (intro div_pos_pos_trivial) auto
  with True assms show ?thesis by (simp add: due_def)
next
  case False
  have "(now - expire x) div interval x = (now - expire x - interval x) div interval x + 1"
    using assms by (metis add.commute div_add_self2 diff_add_cancel less_irrefl)
  moreover have "0 \<le> (now - expire x - interval x) div interval x"
    using False assms by (simp add: pos_imp_zdiv_nonneg_iff)
  ultimately have n: "nat ((now - expire x) div interval x) = Suc (nat ((now - (expire x + interval x)) div interval x))"
    by (simp add: nat_add_distrib algebra_simps)
  show ?thesis
    using False assms by (simp add: due_def n map_upt_Suc algebra_simps del: upt_Suc)
qed

lemma tick_round_other:
  assumes "\<forall>cb t. timer_map (call cb t) i = timer_map t i"
    and "tick_round call now t = Some (cur, t')" and "tid cur \<noteq> i"
  shows "timer_map t' i = timer_map t i"
  using assms by (auto simp: tick_round_def add_timer_in_loop_def Let_def split: list.splits if_splits)

lemma tick_absent:
  assumes "cb_ok call" and "\<forall>cb t. timer_map (call cb t) i = timer_map t i"
    and "timer_invar t" and "tick fuel call now t = Some (fired, t')" and "timer_map t i = None"
  shows "\<forall>y \<in> set fired. tid y \<noteq> i"
  using assms(3-)
proof (induction fuel arbitrary: t fired)
  case 0
  then show ?case by (auto simp: tick.simps [of 0] split: option.splits)
next
  case (Suc k)
  show ?case
  proof (cases "tick_round call now t")
    case (Some p)
    obtain cur t1 where p: "p = (cur, t1)" by fastforce
    with Some Suc(3) obtain fired' where f: "tick k call now t1 = Some (fired', t')" "fired = cur # fired'"
      by (auto simp: tick.simps [of "Suc k"])
    note r = tick_round_invar [OF assms(1) Suc(2) Some [unfolded p]]
    have ne: "tid cur \<noteq> i" using r(2) timer_invar_None [OF Suc(2), of i] Suc(4) by auto
    then have "timer_map t1 i = None"
      using tick_round_other [OF assms(2) Some [unfolded p]] Suc(4) by simp
    from Suc.IH [OF r(1) f(1) this] ne f(2) show ?thesis by simp
  qed (use Suc in \<open>auto simp: tick.simps [of "Suc k"]\<close>)
qed

lemma tick_due:
  assumes "cb_ok call" and "\<forall>cb t. timer_map (call cb t) i = timer_map t i"
    and "timer_invar t" and "tick fuel call now t = Some (fired, t')" and "timer_map t i = Some x"
  shows "map expire (filter (\<lambda>y. tid y = i) fired) = due now x"
  using assms(3-)
proof (induction fuel arbitrary: t fired x)
  case 0
  then have n: "tick_round call now t = None" "fired = []" by (auto simp: tick.simps [of 0] split: option.splits)
  have "x \<in> set (timer_set t)" using timer_invar_map [OF 0(1)] 0(3) by simp
  then have "now < expire x" using n(1) 0(1) by (cases "timer_set t") (auto simp: tick_round_None timer_invar_def)
  with n show ?case by (simp add: due_def)
next
  case (Suc k)
  have x: "x \<in> set (timer_set t)" "tid x = i" using timer_invar_map [OF Suc(2)] Suc(4) by simp_all
  show ?case
  proof (cases "tick_round call now t")
    case None
    then have "now < expire x" using x Suc(2) by (cases "timer_set t") (auto simp: tick_round_None timer_invar_def)
    with None Suc(3) show ?thesis by (simp add: tick.simps [of "Suc k"] due_def)
  next
    case (Some p)
    obtain cur t1 where p: "p = (cur, t1)" by fastforce
    with Some Suc(3) obtain fired' where f: "tick k call now t1 = Some (fired', t')" "fired = cur # fired'"
      by (auto simp: tick.simps [of "Suc k"])
    note r = tick_round_invar [OF assms(1) Suc(2) Some [unfolded p]]
    show ?thesis
    proof (cases "tid cur = i")
      case True
      then have cur: "cur = x" using timer_invar_unique [OF Suc(2) r(2) x(1)] x(2) by simp
      show ?thesis
      proof (cases "interval x > 0")
        case pos: True
        then have "timer_map t1 i = Some (x\<lparr>expire := expire x + interval x\<rparr>)" using r(4) cur x(2) by simp
        from Suc.IH [OF r(1) f(1) this] show ?thesis
          using f(2) cur True due_interval [OF pos] r(3) by simp
      next
        case False
        have "timer_map t1 i = None" using r(4) cur False x(2) by simp
        then have "\<forall>y \<in> set fired'. tid y \<noteq> i"
          using tick_absent [OF assms(1,2) r(1) f(1)] by blast
        then show ?thesis using f(2) cur False r(3) x(2) by (simp add: due_def)
      qed
    next
      case False
      have "timer_map t1 i = Some x"
        using tick_round_other [OF assms(2) Some [unfolded p] False] Suc(4) by simp
      from Suc.IH [OF r(1) f(1) this] show ?thesis using f(2) False by simp
    qed
  qed
qed

section \<open>Properties\<close>

text \<open>
  After any sequence of calls of \<^verbatim>\<open>add_timer\<close> and \<^verbatim>\<open>cancel_timer\<close> the multiset and the map hold the same
  tasks, the multiset in the order of expiration and each id once; an id that was returned is not given out again.
\<close>

theorem timer_calls_invar:
  "timer_invar (timers.calls cs timer_new) \<and>
   (timer_map (timers.calls cs timer_new) i = Some x \<longleftrightarrow> x \<in> set (timer_set (timers.calls cs timer_new)) \<and> tid x = i)"
  using timers.calls_invar [OF timer_new_invar, of cs] timer_invar_map by blast

text \<open>
  \<^verbatim>\<open>cancel_timer\<close> undoes \<^verbatim>\<open>run_after\<close> and \<^verbatim>\<open>run_every\<close>: the tasks by id are those from before, also
  when other tasks have the same expiration time.
\<close>

theorem run_cancel:
  assumes "timer_invar t"
  shows "timer_map (cancel_timer (fst (run_after now d cb t)) (snd (run_after now d cb t))) = timer_map t \<and>
    timer_map (cancel_timer (fst (run_every now d cb t)) (snd (run_every now d cb t))) = timer_map t"
  using timers.add_cancel [OF assms, of _ "fst (add_timer x t)" "snd (add_timer x t)" for x]
  by (simp add: run_after_def run_every_def)

text \<open>
  C7: \<^verbatim>\<open>tick\<close> ends, although repeated tasks are put back while it runs, calls only tasks that are due,
  in the order of their expiration times, and leaves no due task behind. Callbacks may add and
  cancel timers, as long as the new ones are not due at once.
\<close>

theorem tick_correct:
  assumes "cb_ok call" and "cb_late now call" and "timer_invar t"
  shows "\<exists>fired t'. tick (work now t) call now t = Some (fired, t') \<and> timer_invar t' \<and>
    sorted (map expire fired) \<and> (\<forall>x \<in> set fired. expire x \<le> now) \<and>
    (\<forall>x \<in> set (timer_set t'). now < expire x)"
proof -
  obtain fired t' where f: "tick (work now t) call now t = Some (fired, t')"
    using tick_enough [OF assms order_refl] by blast
  have "\<exists>b. \<forall>x \<in> set (timer_set t). b \<le> expire x"
    by (cases "timer_set t") (use assms(3) in \<open>auto simp: timer_invar_def\<close>)
  then obtain b where "\<forall>x \<in> set (timer_set t). b \<le> expire x \<or> now < expire x" by blast
  from tick_sorted [OF assms f this] tick_result [OF assms(1,3) f] f show ?thesis by blast
qed

text \<open>
  Repeated tasks do not drift. In one \<^verbatim>\<open>tick\<close>, however late, a repeated task is called once for
  each multiple of its interval since its expiration time, and a single one exactly once if it is due.
\<close>

theorem tick_no_drift:
  assumes "cb_ok call" and "\<forall>cb t. timer_map (call cb t) i = timer_map t i"
    and "timer_invar t" and "tick fuel call now t = Some (fired, t')" and "timer_map t i = Some x"
  shows "map expire (filter (\<lambda>y. tid y = i) fired) = due now x"
  using assms by (rule tick_due)

text \<open>
  The time the loop sleeps is the time until the earliest task, zero if one is overdue, and
  \<open>-1\<close> exactly without tasks.
\<close>

theorem timeout_earliest:
  assumes "timer_invar t"
  shows "(timeout now t = -1 \<longleftrightarrow> timer_set t = []) \<and>
    (timer_set t \<noteq> [] \<longrightarrow> timeout now t = max 0 (Min (expire ` set (timer_set t)) - now))"
proof (cases "timer_set t")
  case (Cons x xs)
  have "\<forall>y \<in> set xs. expire x \<le> expire y" using assms Cons by (auto simp: timer_invar_def)
  then have "Min (expire ` set (timer_set t)) = expire x" using Cons by (intro Min_eqI) auto
  with Cons show ?thesis by (auto simp: timeout_def Let_def max_def)
qed (simp add: timeout_def)

text \<open>
  A repeated task cannot stop itself. Whatever its callback does, also the call of
  \<^verbatim>\<open>cancel_timer\<close> with its own id, the task is in the map again afterwards, one interval later.
\<close>

theorem interval_timer_rearmed:
  assumes "timer_invar t" and "timer_set t = cur # rest" and "expire cur \<le> now" and "0 < interval cur"
  shows "\<exists>t'. tick_round (\<lambda>_. cancel_timer (tid cur)) now t = Some (cur, t') \<and>
    timer_map t' (tid cur) = Some (cur\<lparr>expire := expire cur + interval cur\<rparr>)"
proof -
  have "cb_ok (\<lambda>_. cancel_timer (tid cur))" by (auto simp: cb_ok_def cancel_timer_eq)
  moreover obtain t' where t': "tick_round (\<lambda>_. cancel_timer (tid cur)) now t = Some (cur, t')"
    using assms by (simp add: tick_round_def)
  ultimately show ?thesis using tick_round_invar(4) [OF _ assms(1) t'] assms(4) by simp
qed

section \<open>Witnesses\<close>

definition sample_timers :: "unit timer" where
  "sample_timers = snd (run_after 100 20 () (snd (run_every 100 10 () timer_new)))"

lemma sample_timers_eq: "sample_timers = \<lparr>timer_set =
    [\<lparr>tid = 1, expire = 110, interval = 10, timer_cb = ()\<rparr>, \<lparr>tid = 2, expire = 120, interval = 0, timer_cb = ()\<rparr>],
   timer_map = [1 \<mapsto> \<lparr>tid = 1, expire = 110, interval = 10, timer_cb = ()\<rparr>,
     2 \<mapsto> \<lparr>tid = 2, expire = 120, interval = 0, timer_cb = ()\<rparr>], timer_id = 3\<rparr>"
  by (simp add: sample_timers_def run_after_def run_every_def add_timer_def add_timer_in_loop_def
      multiset_emplace_def timer_new_def Let_def numeral_2_eq_2)

lemma sample_timers_invar: "timer_invar sample_timers"
proof -
  have "timer_invar (snd (add_timer y (snd (add_timer x timer_new))))" for x y :: "unit timer_task"
    by (intro add_timer_invar(1) timer_new_invar)
  then show ?thesis by (simp add: sample_timers_def run_after_def run_every_def)
qed

theorem run_cancel_witness:
  "timer_map (cancel_timer (fst (run_after 100 20 () sample_timers)) (snd (run_after 100 20 () sample_timers)))
   = timer_map sample_timers"
  using run_cancel [OF sample_timers_invar] by blast

lemma idle_callbacks: "cb_ok (\<lambda>_ t. t)" "cb_late now (\<lambda>_ t. t)"
  by (auto simp: cb_ok_def cb_late_def)

theorem tick_correct_witness:
  "\<exists>fired t'. tick (work 125 sample_timers) (\<lambda>_ t. t) 125 sample_timers = Some (fired, t') \<and>
     sorted (map expire fired)"
  using tick_correct [OF idle_callbacks sample_timers_invar] by blast

lemma sample_tick: "\<exists>t'. tick 4 (\<lambda>_ t. t) 125 sample_timers = Some
   ([\<lparr>tid = 1, expire = 110, interval = 10, timer_cb = ()\<rparr>, \<lparr>tid = 2, expire = 120, interval = 0, timer_cb = ()\<rparr>,
     \<lparr>tid = 1, expire = 120, interval = 10, timer_cb = ()\<rparr>], t')"
  by (simp add: sample_timers_eq tick.simps tick_round_def add_timer_in_loop_def multiset_emplace_def Let_def
      numeral_eq_Suc)

theorem tick_no_drift_witness:
  "due 125 \<lparr>tid = 1, expire = 110, interval = 10, timer_cb = ()\<rparr> = [110, 120]"
proof -
  obtain t' where t': "tick 4 (\<lambda>_ t. t) 125 sample_timers = Some
     ([\<lparr>tid = 1, expire = 110, interval = 10, timer_cb = ()\<rparr>, \<lparr>tid = 2, expire = 120, interval = 0, timer_cb = ()\<rparr>,
       \<lparr>tid = 1, expire = 120, interval = 10, timer_cb = ()\<rparr>], t')"
    using sample_tick by blast
  have "timer_map sample_timers 1 = Some \<lparr>tid = 1, expire = 110, interval = 10, timer_cb = ()\<rparr>"
    by (simp add: sample_timers_eq)
  from tick_no_drift [OF idle_callbacks(1) _ sample_timers_invar t' this] show ?thesis by simp
qed

theorem timeout_earliest_witness: "timeout 95 sample_timers = max 0 (Min {110, 120} - 95)"
  using timeout_earliest [OF sample_timers_invar, of 95] by (simp add: sample_timers_eq)

theorem interval_timer_rearmed_witness:
  "\<exists>t'. tick_round (\<lambda>_. cancel_timer 1) 125 sample_timers =
     Some (\<lparr>tid = 1, expire = 110, interval = 10, timer_cb = ()\<rparr>, t') \<and>
     timer_map t' 1 = Some \<lparr>tid = 1, expire = 120, interval = 10, timer_cb = ()\<rparr>"
  using interval_timer_rearmed [OF sample_timers_invar, of "\<lparr>tid = 1, expire = 110, interval = 10, timer_cb = ()\<rparr>" _ 125]
  by (simp add: sample_timers_eq)

end
