(* ===== verification/Connection.thy ===== *)
theory Connection
  imports Buffer Timer
begin

text \<open>
  \<^verbatim>\<open>class connection\<close> (\<^verbatim>\<open>include/angel/connection.h\<close>, \<^verbatim>\<open>src/connection.cc\<close>): the send path with its three
  queues, closing, reading, the idle timer. All functions run in the loop thread. A system call's answer is an
  argument (\<open>sys\<close>), and what reaches the peer is recorded in \<open>wire\<close>, together with the calls of
  send-complete handlers. The contents of the files sent are the argument \<open>content\<close>. The three
  queues implement one queue of \<open>item\<close>s (\<open>queue_rel\<close>), and the main results say that the peer receives
  what was sent, in order and completely.
\<close>

section \<open>State\<close>

datatype conn_state = Connected | Closing | Closed

record out_file =
  ffd :: nat
  offset :: nat
  count :: nat

text \<open>What can be seen from outside: a byte on the socket, or the call of a send-complete handler.\<close>

datatype 'h event = Byte char | Called 'h

text \<open>
  \<open>writing\<close> is \<^verbatim>\<open>channel->is_writing()\<close>, \<open>removed\<close> that \<^verbatim>\<open>channel->remove()\<close> was called; \<open>loop_timers\<close> are
  the timers of the loop, where the callback is the id of the connection to close; \<open>close_calls\<close> and
  \<open>high_water_calls\<close> count the calls of the two handlers.
\<close>

record 'h conn =
  conn_id :: nat
  state :: conn_state
  reset_by_peer :: bool
  writing :: bool
  removed :: bool
  input_buf :: buffer
  output_buf :: buffer
  byte_stream_queue :: "(nat \<times> nat) list"
  send_file_queue :: "(nat \<times> out_file) list"
  send_complete_handler_queue :: "(nat \<times> 'h) list"
  send_id :: nat
  next_id :: nat
  high_water_mark :: nat
  high_water_calls :: nat
  close_calls :: nat
  ttl_timer_id :: nat
  ttl_ms :: int
  loop_timers :: "nat timer"
  wire :: "'h event list"

definition conn_new :: "nat \<Rightarrow> nat timer \<Rightarrow> 'h conn" where
  "conn_new cid timers0 = \<lparr>conn_id = cid, state = Connected, reset_by_peer = False, writing = False, removed = False,
     input_buf = buffer_new init_size, output_buf = buffer_new init_size,
     byte_stream_queue = [], send_file_queue = [], send_complete_handler_queue = [],
     send_id = 1, next_id = 1, high_water_mark = 0, high_water_calls = 0, close_calls = 0,
     ttl_timer_id = 0, ttl_ms = 0, loop_timers = timers0, wire = []\<rparr>"

definition send_queue_is_empty :: "'h conn \<Rightarrow> bool" where
  "send_queue_is_empty c \<longleftrightarrow> byte_stream_queue c = [] \<and> send_file_queue c = []"

section \<open>Closing and errors\<close>

definition handle_close :: "bool \<Rightarrow> 'h conn \<Rightarrow> 'h conn" where
  "handle_close is_forced c =
     (if state c = Closed then c
      else
        let c1 = (if ttl_timer_id c > 0
                  then c\<lparr>loop_timers := cancel_timer (ttl_timer_id c) (loop_timers c), ttl_timer_id := 0\<rparr>
                  else c)
        in if \<not> is_forced \<and> \<not> send_queue_is_empty c1 then c1\<lparr>state := Closing\<rparr>
           else c1\<lparr>state := Closed, writing := False, removed := True, close_calls := close_calls c1 + 1\<rparr>)"

definition force_close_connection :: "'h conn \<Rightarrow> 'h conn" where
  "force_close_connection c = handle_close True c"

text \<open>The answer of a system call: a number of bytes, \<^verbatim>\<open>EAGAIN\<close> and the like, or another error.\<close>

datatype sys = Done nat | Again | Failed

definition handle_error :: "bool \<Rightarrow> 'h conn \<Rightarrow> 'h conn" where
  "handle_error transient c = (if transient then c else force_close_connection c)"

text \<open>The result \<open>-2\<close>: the connection was closed; \<open>-1\<close>: try again later. The kernel takes at most what it was given.\<close>

definition write_result :: "bool \<Rightarrow> 'h conn \<Rightarrow> 'h conn \<times> int" where
  "write_result transient c =
     (let c' = handle_error transient c in (c', if state c' = Closed then -2 else -1))"

definition conn_write :: "sys \<Rightarrow> string \<Rightarrow> 'h conn \<Rightarrow> 'h conn \<times> int" where
  "conn_write r data c =
     (case r of
        Done n \<Rightarrow> (c\<lparr>wire := wire c @ map Byte (take n data)\<rparr>, int (length (take n data)))
      | Again \<Rightarrow> write_result True c
      | Failed \<Rightarrow> write_result False c)"

definition file_bytes :: "(nat \<Rightarrow> string) \<Rightarrow> out_file \<Rightarrow> string" where
  "file_bytes content f = take (count f) (drop (offset f) (content (ffd f)))"

definition conn_sendfile :: "(nat \<Rightarrow> string) \<Rightarrow> sys \<Rightarrow> out_file \<Rightarrow> 'h conn \<Rightarrow> 'h conn \<times> int" where
  "conn_sendfile content r f c = conn_write r (file_bytes content f) c"

section \<open>Sending\<close>

text \<open>
  \<^verbatim>\<open>data + n\<close> with \<open>len\<close> bytes from there, \<open>prev\<close> being the byte in front of \<open>data\<close>.
\<close>

definition bytes_at :: "char \<Rightarrow> string \<Rightarrow> int \<Rightarrow> nat \<Rightarrow> string" where
  "bytes_at prev data n len = take len (drop (nat (n + 1)) (prev # data))"

definition send_in_loop :: "char \<Rightarrow> sys \<Rightarrow> string \<Rightarrow> 'h conn \<Rightarrow> 'h conn" where
  "send_in_loop prev r data c =
     (if state c = Closed then c
      else
        let (c1, n) = (if \<not> writing c \<and> send_queue_is_empty c then conn_write r data c else (c, 0));
            len = (if n > 0 then length data - nat n else length data)
        in if n = -2 then c1
           else if len > 0 then
             let c2 = c1\<lparr>output_buf := append_buf (output_buf c1) (bytes_at prev data n len),
                         byte_stream_queue := byte_stream_queue c1 @ [(send_id c1, len)],
                         send_id := send_id c1 + 1, writing := True\<rparr>
             in if high_water_mark c2 > 0 \<and> readable (output_buf c2) \<ge> high_water_mark c2
                then c2\<lparr>high_water_calls := high_water_calls c2 + 1\<rparr> else c2
           else c1)"

definition send_file_in_loop :: "(nat \<Rightarrow> string) \<Rightarrow> sys \<Rightarrow> out_file \<Rightarrow> 'h conn \<Rightarrow> 'h conn" where
  "send_file_in_loop content r f c =
     (if state c = Closed then c
      else
        let (c1, n) = (if \<not> writing c \<and> send_queue_is_empty c then conn_sendfile content r f c else (c, 0));
            f1 = (if n > 0 then f\<lparr>offset := offset f + nat n, count := count f - nat n\<rparr> else f)
        in if n = -2 then c1
           else if count f1 > 0 then
             c1\<lparr>send_file_queue := send_file_queue c1 @ [(send_id c1, f1)],
                send_id := send_id c1 + 1, writing := True\<rparr>
           else c1)"

text \<open>\<^verbatim>\<open>set_send_complete_handler\<close> does not look at the state; on a closed connection the channel has no handlers any more.\<close>

definition set_send_complete_handler :: "'h \<Rightarrow> 'h conn \<Rightarrow> 'h conn" where
  "set_send_complete_handler h c =
     c\<lparr>send_complete_handler_queue := send_complete_handler_queue c @ [(send_id c, h)],
       send_id := send_id c + 1, writing := True\<rparr>"

text \<open>The four parts of \<^verbatim>\<open>handle_write\<close>; the flag says whether the function returned in between.\<close>

definition write_bytes :: "sys \<Rightarrow> 'h conn \<Rightarrow> 'h conn \<times> bool" where
  "write_bytes r c =
     (case byte_stream_queue c of
        [] \<Rightarrow> (c, False)
      | (i, len) # q \<Rightarrow>
          if i \<noteq> next_id c then (c, False)
          else
            let (c1, n) = conn_write r (take len (peek (output_buf c))) c
            in if n > 0 then
                 let c2 = c1\<lparr>output_buf := retrieve (output_buf c1) (nat n)\<rparr>
                 in (if len - nat n = 0
                     then c2\<lparr>byte_stream_queue := q, next_id := next_id c2 + 1\<rparr>
                     else c2\<lparr>byte_stream_queue := (i, len - nat n) # q\<rparr>, False)
               else (c1, n = -2))"

definition write_file_part :: "(nat \<Rightarrow> string) \<Rightarrow> sys \<Rightarrow> 'h conn \<Rightarrow> 'h conn \<times> bool" where
  "write_file_part content r c =
     (case send_file_queue c of
        [] \<Rightarrow> (c, False)
      | (i, f) # q \<Rightarrow>
          if i \<noteq> next_id c then (c, False)
          else
            let (c1, n) = conn_sendfile content r f c
            in if n > 0 then
                 let f1 = f\<lparr>offset := offset f + nat n, count := count f - nat n\<rparr>
                 in (if count f1 = 0
                     then c1\<lparr>send_file_queue := q, next_id := next_id c1 + 1\<rparr>
                     else c1\<lparr>send_file_queue := (i, f1) # q\<rparr>, False)
               else (c1, n = -2))"

text \<open>The handler is called while it is still at the front of its queue; \<open>call h\<close> is what it does to the connection.\<close>

definition call_complete :: "('h \<Rightarrow> 'h conn \<Rightarrow> 'h conn) \<Rightarrow> 'h conn \<Rightarrow> 'h conn" where
  "call_complete call c =
     (case send_complete_handler_queue c of
        [] \<Rightarrow> c
      | (i, h) # q \<Rightarrow>
          if i \<noteq> next_id c then c
          else
            let c1 = call h (c\<lparr>wire := wire c @ [Called h]\<rparr>)
            in c1\<lparr>send_complete_handler_queue := tl (send_complete_handler_queue c1), next_id := next_id c1 + 1\<rparr>)"

definition write_finish :: "'h conn \<Rightarrow> 'h conn" where
  "write_finish c =
     (if send_queue_is_empty c \<and> send_complete_handler_queue c = []
      then let c1 = c\<lparr>writing := False\<rparr>
           in if state c1 = Closing then force_close_connection c1 else c1
      else c)"

definition handle_write ::
  "(nat \<Rightarrow> string) \<Rightarrow> ('h \<Rightarrow> 'h conn \<Rightarrow> 'h conn) \<Rightarrow> sys \<Rightarrow> sys \<Rightarrow> 'h conn \<Rightarrow> 'h conn" where
  "handle_write content call r1 r2 c =
     (if state c = Closed \<or> \<not> writing c then c
      else
        let (c1, ret1) = write_bytes r1 c
        in if ret1 then c1
           else
             let (c2, ret2) = write_file_part content r2 c1
             in if ret2 then c2 else write_finish (call_complete call c2))"

section \<open>Idle timer and reading\<close>

definition set_ttl_timer :: "int \<Rightarrow> 'h conn \<Rightarrow> 'h conn" where
  "set_ttl_timer now c =
     (let (i, t) = run_after now (ttl_ms c) (conn_id c) (loop_timers c)
      in c\<lparr>ttl_timer_id := i, loop_timers := t\<rparr>)"

definition set_ttl :: "int \<Rightarrow> int \<Rightarrow> 'h conn \<Rightarrow> 'h conn" where
  "set_ttl now ms c =
     (if ms \<le> 0 then c
      else set_ttl_timer now (c\<lparr>ttl_ms := ms, loop_timers := cancel_timer (ttl_timer_id c) (loop_timers c)\<rparr>))"

definition update_ttl_timer :: "int \<Rightarrow> 'h conn \<Rightarrow> 'h conn" where
  "update_ttl_timer now c =
     (if ttl_timer_id c > 0
      then set_ttl_timer now (c\<lparr>loop_timers := cancel_timer (ttl_timer_id c) (loop_timers c)\<rparr>)
      else c)"

text \<open>\<open>inp\<close>: the bytes \<^verbatim>\<open>readv\<close> returned, \<open>Inr transient\<close> an error. \<open>handler\<close> is the message handler, if it is set.\<close>

definition handle_read ::
  "int \<Rightarrow> string + bool \<Rightarrow> ('h conn \<Rightarrow> 'h conn) option \<Rightarrow> 'h conn \<Rightarrow> 'h conn" where
  "handle_read now inp handler c =
     update_ttl_timer now
       (case inp of
          Inr transient \<Rightarrow> handle_error transient c
        | Inl bs \<Rightarrow>
            let c1 = c\<lparr>input_buf := fst (read_fd (input_buf c) (Some bs))\<rparr>
            in if length bs > 0 then
                 case handler of
                   Some g \<Rightarrow> g c1
                 | None \<Rightarrow> c1\<lparr>input_buf := retrieve_all (input_buf c1)\<rparr>
               else (force_close_connection (c1\<lparr>reset_by_peer := True\<rparr>))\<lparr>reset_by_peer := False\<rparr>)"

definition send :: "int \<Rightarrow> char \<Rightarrow> sys \<Rightarrow> string \<Rightarrow> 'h conn \<Rightarrow> 'h conn" where
  "send now prev r data c = update_ttl_timer now (send_in_loop prev r data c)"

definition send_file :: "int \<Rightarrow> (nat \<Rightarrow> string) \<Rightarrow> sys \<Rightarrow> out_file \<Rightarrow> 'h conn \<Rightarrow> 'h conn" where
  "send_file now content r f c = update_ttl_timer now (send_file_in_loop content r f c)"

definition close :: "'h conn \<Rightarrow> 'h conn" where
  "close c = handle_close False c"

text \<open>The handlers themselves are the functions that the operations are given; only the mark is stored here.\<close>

definition set_high_water_mark_handler :: "nat \<Rightarrow> 'h conn \<Rightarrow> 'h conn" where
  "set_high_water_mark_handler bytes c = c\<lparr>high_water_mark := bytes\<rparr>"

definition get_state_str :: "'h conn \<Rightarrow> string" where
  "get_state_str c = (case state c of Connected \<Rightarrow> ''<Connected>'' | Closing \<Rightarrow> ''<Closing>'' | Closed \<Rightarrow> ''<Closed>'')"

section \<open>One queue behind the three\<close>

datatype 'h item = Data string | FilePart out_file | Complete 'h

fun bytes_q :: "nat \<Rightarrow> 'h item list \<Rightarrow> (nat \<times> nat) list" where
  "bytes_q n [] = []"
| "bytes_q n (Data s # r) = (n, length s) # bytes_q (Suc n) r"
| "bytes_q n (FilePart f # r) = bytes_q (Suc n) r"
| "bytes_q n (Complete h # r) = bytes_q (Suc n) r"

fun files_q :: "nat \<Rightarrow> 'h item list \<Rightarrow> (nat \<times> out_file) list" where
  "files_q n [] = []"
| "files_q n (Data s # r) = files_q (Suc n) r"
| "files_q n (FilePart f # r) = (n, f) # files_q (Suc n) r"
| "files_q n (Complete h # r) = files_q (Suc n) r"

fun handlers_q :: "nat \<Rightarrow> 'h item list \<Rightarrow> (nat \<times> 'h) list" where
  "handlers_q n [] = []"
| "handlers_q n (Data s # r) = handlers_q (Suc n) r"
| "handlers_q n (FilePart f # r) = handlers_q (Suc n) r"
| "handlers_q n (Complete h # r) = (n, h) # handlers_q (Suc n) r"

fun data_of :: "'h item list \<Rightarrow> string" where
  "data_of [] = []"
| "data_of (Data s # r) = s @ data_of r"
| "data_of (FilePart f # r) = data_of r"
| "data_of (Complete h # r) = data_of r"

text \<open>What the peer and the handlers are going to see.\<close>

fun flat :: "(nat \<Rightarrow> string) \<Rightarrow> 'h item list \<Rightarrow> 'h event list" where
  "flat content [] = []"
| "flat content (Data s # r) = map Byte s @ flat content r"
| "flat content (FilePart f # r) = map Byte (file_bytes content f) @ flat content r"
| "flat content (Complete h # r) = Called h # flat content r"

fun item_ok :: "'h item \<Rightarrow> bool" where
  "item_ok (Data s) = (s \<noteq> [])"
| "item_ok (FilePart f) = (0 < count f)"
| "item_ok (Complete h) = True"

definition queues_hold :: "'h conn \<Rightarrow> 'h item list \<Rightarrow> bool" where
  "queues_hold c items \<longleftrightarrow>
     byte_stream_queue c = bytes_q (next_id c) items \<and> send_file_queue c = files_q (next_id c) items \<and>
     send_complete_handler_queue c = handlers_q (next_id c) items \<and>
     send_id c = next_id c + length items \<and>
     buffer_wf (output_buf c) \<and> peek (output_buf c) = data_of items \<and> list_all item_ok items"

definition queue_rel :: "'h conn \<Rightarrow> 'h item list \<Rightarrow> bool" where
  "queue_rel c items \<longleftrightarrow> queues_hold c items \<and> state c \<noteq> Closed \<and> (writing c \<longleftrightarrow> items \<noteq> [])"

definition conn_inv :: "(nat \<Rightarrow> string) \<Rightarrow> 'h event list \<Rightarrow> 'h conn \<Rightarrow> bool" where
  "conn_inv content sub c \<longleftrightarrow>
     (if state c = Closed then prefix (wire c) sub
      else \<exists>items. queue_rel c items \<and> sub = wire c @ flat content items)"

lemma q_append:
  "bytes_q n (xs @ ys) = bytes_q n xs @ bytes_q (n + length xs) ys"
  "files_q n (xs @ ys) = files_q n xs @ files_q (n + length xs) ys"
  "handlers_q n (xs @ ys) = handlers_q n xs @ handlers_q (n + length xs) ys"
  "data_of (xs @ ys) = data_of xs @ data_of ys"
  "flat content (xs @ ys) = flat content xs @ flat content ys"
  by (induction n xs rule: bytes_q.induct) auto

lemma q_ge:
  "p \<in> set (bytes_q n xs) \<Longrightarrow> n \<le> fst p" "p' \<in> set (files_q n xs) \<Longrightarrow> n \<le> fst p'"
  "p'' \<in> set (handlers_q n xs) \<Longrightarrow> n \<le> fst p''"
  by (induction n xs rule: bytes_q.induct) fastforce+

lemma q_empty: "bytes_q n xs = [] \<and> files_q n xs = [] \<and> handlers_q n xs = [] \<longleftrightarrow> xs = []"
  by (cases "(n, xs)" rule: bytes_q.cases) auto

lemma q_head:
  "bytes_q n xs = (n, len) # q \<longleftrightarrow> (\<exists>s r. xs = Data s # r \<and> len = length s \<and> q = bytes_q (Suc n) r)"
  "files_q n xs = (n, f) # q' \<longleftrightarrow> (\<exists>r. xs = FilePart f # r \<and> q' = files_q (Suc n) r)"
  "handlers_q n xs = (n, h) # q'' \<longleftrightarrow> (\<exists>r. xs = Complete h # r \<and> q'' = handlers_q (Suc n) r)"
proof -
  have no: "bytes_q (Suc n) r \<noteq> (n, len) # q" "files_q (Suc n) r \<noteq> (n, f) # q'" "handlers_q (Suc n) r \<noteq> (n, h) # q''" for r
    using q_ge [of _ "Suc n" r] by (metis Suc_n_not_le_n fst_conv list.set_intros(1))+
  show "bytes_q n xs = (n, len) # q \<longleftrightarrow> (\<exists>s r. xs = Data s # r \<and> len = length s \<and> q = bytes_q (Suc n) r)"
    using no(1) by (cases "(n, xs)" rule: bytes_q.cases) auto
  show "files_q n xs = (n, f) # q' \<longleftrightarrow> (\<exists>r. xs = FilePart f # r \<and> q' = files_q (Suc n) r)"
    using no(2) by (cases "(n, xs)" rule: files_q.cases) auto
  show "handlers_q n xs = (n, h) # q'' \<longleftrightarrow> (\<exists>r. xs = Complete h # r \<and> q'' = handlers_q (Suc n) r)"
    using no(3) by (cases "(n, xs)" rule: handlers_q.cases) auto
qed

lemma queue_rel_idle: "queue_rel c items \<Longrightarrow> (\<not> writing c \<and> send_queue_is_empty c) \<longleftrightarrow> items = []"
  by (auto simp: queue_rel_def send_queue_is_empty_def queues_hold_def)

lemma force_close_Closed: "state c \<noteq> Closed \<Longrightarrow>
    state (handle_close True c) = Closed \<and> wire (handle_close True c) = wire c"
  by (simp add: handle_close_def Let_def)

lemma conn_write_Done:
  "conn_write (Done n) data c = (c\<lparr>wire := wire c @ map Byte (take n data)\<rparr>, int (length (take n data)))"
  by (simp add: conn_write_def)

lemma conn_write_Again: "state c \<noteq> Closed \<Longrightarrow> conn_write Again data c = (c, -1)"
  by (simp add: conn_write_def write_result_def handle_error_def)

lemma conn_write_Failed:
  "state c \<noteq> Closed \<Longrightarrow> conn_write Failed data c = (handle_close True c, -2)"
  using force_close_Closed [of c]
  by (simp add: conn_write_def write_result_def handle_error_def force_close_connection_def)

lemmas conn_write_cases = conn_write_Done conn_write_Again conn_write_Failed

lemma wire_Byte_split:
  "map Byte (take n s) @ map Byte (drop n s) = map Byte s"
  "map Byte (take n s) @ map Byte (drop n s) @ xs = map Byte s @ xs"
  by (metis append_take_drop_id map_append append_assoc)+

section \<open>Every operation keeps the order\<close>

lemma queue_rel_conn_inv: "queue_rel c items \<Longrightarrow> conn_inv content (wire c @ flat content items) c"
  by (auto simp: conn_inv_def queue_rel_def)

lemma queue_rel_conn_invI:
  "queue_rel c items \<Longrightarrow> sub = wire c @ flat content items \<Longrightarrow> conn_inv content sub c"
  by (simp add: queue_rel_conn_inv)

lemma conn_inv_closed: "state c = Closed \<Longrightarrow> prefix (wire c) sub \<Longrightarrow> conn_inv content sub c"
  by (simp add: conn_inv_def)

lemma bytes_at_nonneg: "bytes_at prev data (int n) (length data - n) = drop n data"
  by (simp add: bytes_at_def nat_add_distrib)

lemma send_queued:
  assumes "queues_hold c items" and "s \<noteq> []"
  shows "queues_hold (c\<lparr>output_buf := append_buf (output_buf c) s,
      byte_stream_queue := byte_stream_queue c @ [(send_id c, length s)], send_id := send_id c + 1, writing := w\<rparr>)
    (items @ [Data s])"
  using assms by (simp add: queues_hold_def q_append append_buf_wf append_buf_peek)

lemma queues_hold_irrelevant [simp]:
  "queues_hold (c\<lparr>wire := x\<rparr>) items = queues_hold c items"
  "queues_hold (c\<lparr>writing := y\<rparr>) items = queues_hold c items"
  "queues_hold (c\<lparr>state := z\<rparr>) items = queues_hold c items"
  "queues_hold (c\<lparr>high_water_calls := k\<rparr>) items = queues_hold c items"
  "queues_hold (c\<lparr>loop_timers := t, ttl_timer_id := i\<rparr>) items = queues_hold c items"
  "queues_hold (c\<lparr>ttl_timer_id := i, loop_timers := t\<rparr>) items = queues_hold c items"
  "queues_hold (c\<lparr>input_buf := b\<rparr>) items = queues_hold c items"
  by (simp_all add: queues_hold_def)

text \<open>The three ways a direct send can go, for bytes and for files.\<close>

lemma send_in_loop_cases:
  assumes q: "queue_rel c items" and r: "items = [] \<Longrightarrow> r \<noteq> Again"
  obtains (failed) "send_in_loop prev r data c = handle_close True c"
  | (sent) n where "items = []" "n = length data" "send_in_loop prev r data c = c\<lparr>wire := wire c @ map Byte data\<rparr>"
  | (queued) n k where "n < length data" "items \<noteq> [] \<longrightarrow> n = 0"
      "send_in_loop prev r data c = c\<lparr>wire := wire c @ map Byte (take n data),
         output_buf := append_buf (output_buf c) (drop n data),
         byte_stream_queue := byte_stream_queue c @ [(send_id c, length (drop n data))],
         send_id := send_id c + 1, writing := True, high_water_calls := k\<rparr>"
  | (unchanged) "data = []" "send_in_loop prev r data c = c"
proof -
  have nc: "state c \<noteq> Closed" using q by (simp add: queue_rel_def)
  show thesis
  proof (cases "items = []")
    case False
    then have idle: "\<not> (\<not> writing c \<and> send_queue_is_empty c)" using queue_rel_idle [OF q] by simp
    show thesis
    proof (cases "data = []")
      case True
      then have "send_in_loop prev r data c = c" using nc idle by (auto simp: send_in_loop_def Let_def)
      then show thesis using unchanged True by blast
    next
      case ne: False
      then show thesis
        using nc idle False bytes_at_nonneg [of prev data 0]
        by (intro queued [of 0 "if high_water_mark c > 0 \<and> readable (append_buf (output_buf c) (drop 0 data)) \<ge> high_water_mark c
            then high_water_calls c + 1 else high_water_calls c"])
          (auto simp: send_in_loop_def Let_def)
    qed
  next
    case True
    then have idle: "\<not> writing c \<and> send_queue_is_empty c" using queue_rel_idle [OF q] by simp
    consider (d) n where "r = Done n" | (f) "r = Failed" using r [OF True] by (cases r) auto
    then show thesis
    proof cases
      case f
      then show thesis using failed nc idle conn_write_Failed [OF nc] by (simp add: send_in_loop_def Let_def)
    next
      case (d n)
      show thesis
      proof (cases "length data \<le> n")
        case full: True
        then show thesis using sent d nc idle True by (simp add: send_in_loop_def conn_write_Done Let_def)
      next
        case part: False
        then show thesis
          using nc idle d bytes_at_nonneg [of prev data n] True
          by (intro queued [of n "if high_water_mark c > 0 \<and> readable (append_buf (output_buf c) (drop n data)) \<ge> high_water_mark c
            then high_water_calls c + 1 else high_water_calls c"])
            (auto simp: send_in_loop_def conn_write_Done Let_def min_def)
      qed
    qed
  qed
qed

lemma send_in_loop_inv:
  assumes inv: "conn_inv content sub c" and r: "r \<noteq> Again"
  shows "conn_inv content (sub @ map Byte data) (send_in_loop prev r data c)"
proof (cases "state c = Closed")
  case True
  then show ?thesis using inv by (simp add: conn_inv_def send_in_loop_def prefix_append)
next
  case False
  then obtain items where q: "queue_rel c items" and sub: "sub = wire c @ flat content items"
    using inv by (auto simp: conn_inv_def)
  from q r show ?thesis
  proof (cases rule: send_in_loop_cases [of c items r prev data])
    case failed
    then show ?thesis using force_close_Closed [OF False] sub by (intro conn_inv_closed) auto
  next
    case (sent n)
    then have "queue_rel (send_in_loop prev r data c) []" using q by (simp add: queue_rel_def)
    then show ?thesis using sent sub by (intro queue_rel_conn_invI) auto
  next
    case (queued n k)
    have "queues_hold (c\<lparr>wire := wire c @ map Byte (take n data)\<rparr>) items" using q by (simp add: queue_rel_def)
    from send_queued [OF this, of "drop n data" True] queued(1,3)
    have "queues_hold (send_in_loop prev r data c) (items @ [Data (drop n data)])"
      unfolding queued(3) queues_hold_irrelevant(4) by simp
    then have "queue_rel (send_in_loop prev r data c) (items @ [Data (drop n data)])"
      using queued(3) False by (simp add: queue_rel_def)
    then show ?thesis
      using queued(2,3) sub
      by (intro queue_rel_conn_invI [of _ "items @ [Data (drop n data)]"]; cases "items = []")
        (simp_all add: q_append wire_Byte_split)
  next
    case unchanged
    then show ?thesis using inv by simp
  qed
qed

lemma file_bytes_advance:
  assumes "n = length (take k (file_bytes content f))"
  shows "map Byte (take k (file_bytes content f)) @ map Byte (file_bytes content (f\<lparr>offset := offset f + n, count := count f - n\<rparr>))
    = map Byte (file_bytes content f)"
proof -
  have n: "take k (file_bytes content f) = take n (file_bytes content f)" using assms by (simp add: min_def)
  have "file_bytes content (f\<lparr>offset := offset f + n, count := count f - n\<rparr>) = drop n (file_bytes content f)"
    by (simp add: file_bytes_def drop_take add.commute)
  then show ?thesis by (simp add: n flip: map_append)
qed

lemma file_queued:
  assumes "queues_hold c items" and "0 < count f"
  shows "queues_hold (c\<lparr>send_file_queue := send_file_queue c @ [(send_id c, f)], send_id := send_id c + 1,
      writing := w\<rparr>) (items @ [FilePart f])"
  using assms by (simp add: queues_hold_def q_append)

lemma send_file_in_loop_inv:
  assumes inv: "conn_inv content sub c"
  shows "conn_inv content (sub @ map Byte (file_bytes content f)) (send_file_in_loop content r f c)"
proof (cases "state c = Closed")
  case True
  then show ?thesis using inv by (simp add: conn_inv_def send_file_in_loop_def prefix_append)
next
  case False
  then obtain items where q: "queue_rel c items" and sub: "sub = wire c @ flat content items"
    using inv by (auto simp: conn_inv_def)
  have later: "conn_inv content (wire c' @ flat content items @ map Byte (file_bytes content g))
      (c'\<lparr>send_file_queue := send_file_queue c' @ [(send_id c', g)], send_id := send_id c' + 1, writing := True\<rparr>)"
    if "queues_hold c' items" "0 < count g" "state c' \<noteq> Closed" for c' g
    using file_queued [OF that(1,2), of True] that(3)
    by (intro queue_rel_conn_invI [of _ "items @ [FilePart g]"]) (simp_all add: queue_rel_def q_append)
  have hold: "queues_hold c items" using q by (simp add: queue_rel_def)
  have zero: "file_bytes content f = []" if "count f = 0" using that by (simp add: file_bytes_def)
  show ?thesis
  proof (cases "items = []")
    case ne: False
    then have "\<not> (\<not> writing c \<and> send_queue_is_empty c)" using queue_rel_idle [OF q] by simp
    then show ?thesis
      using later [OF hold _ False, of f] inv sub zero False
      by (cases "count f = 0") (auto simp: send_file_in_loop_def Let_def)
  next
    case True
    then have idle: "\<not> writing c \<and> send_queue_is_empty c" using queue_rel_idle [OF q] by simp
    show ?thesis
    proof (cases r)
      case Failed
      then have "send_file_in_loop content r f c = handle_close True c"
        using False idle conn_write_Failed [OF False] by (simp add: send_file_in_loop_def conn_sendfile_def Let_def)
      then show ?thesis using force_close_Closed [OF False] sub by (intro conn_inv_closed) auto
    next
      case Again
      then show ?thesis
        using later [OF hold _ False, of f] inv sub zero False idle conn_write_Again [OF False]
        by (cases "count f = 0") (auto simp: send_file_in_loop_def conn_sendfile_def Let_def)
    next
      case (Done k)
      define n where "n = length (take k (file_bytes content f))"
      define g where "g = f\<lparr>offset := offset f + n, count := count f - n\<rparr>"
      let ?c = "c\<lparr>wire := wire c @ map Byte (take k (file_bytes content f))\<rparr>"
      have g0: "n = 0 \<Longrightarrow> g = f" by (simp add: g_def)
      have e: "send_file_in_loop content r f c =
          (if count g > 0 then ?c\<lparr>send_file_queue := send_file_queue c @ [(send_id c, g)], send_id := send_id c + 1, writing := True\<rparr>
           else ?c)"
      proof (cases "n = 0")
        case z: True
        then show ?thesis
          using False idle Done g0 unfolding n_def
          by (simp add: send_file_in_loop_def conn_sendfile_def conn_write_Done Let_def)
      next
        case nz: False
        then show ?thesis
          using False idle Done unfolding g_def n_def
          by (simp add: send_file_in_loop_def conn_sendfile_def conn_write_Done Let_def)
      qed
      have fb: "map Byte (take k (file_bytes content f)) @ map Byte (file_bytes content g) = map Byte (file_bytes content f)"
        unfolding g_def by (rule file_bytes_advance) (simp add: n_def)
      show ?thesis
      proof (cases "count g > 0")
        case True
        then have "conn_inv content (wire c @ map Byte (take k (file_bytes content f)) @ map Byte (file_bytes content g))
            (send_file_in_loop content r f c)"
          using later [of ?c g] hold False e \<open>items = []\<close> by simp
        then show ?thesis unfolding fb using sub \<open>items = []\<close> by simp
      next
        case no: False
        have "file_bytes content g = []" using no by (simp add: file_bytes_def)
        then have w: "map Byte (take k (file_bytes content f)) = map Byte (file_bytes content f)" using fb by simp
        have "send_file_in_loop content r f c = c\<lparr>wire := wire c @ map Byte (file_bytes content f)\<rparr>"
          unfolding e w using no by simp
        then show ?thesis using q True sub
          by (intro queue_rel_conn_invI [of _ items]) (simp_all add: queue_rel_def)
      qed
    qed
  qed
qed

text \<open>One part of \<^verbatim>\<open>handle_write\<close>: it fails and closes, or it moves bytes from the queue to the wire.\<close>

definition part_ok :: "(nat \<Rightarrow> string) \<Rightarrow> 'h conn \<Rightarrow> 'h item list \<Rightarrow> 'h conn \<times> bool \<Rightarrow> bool" where
  "part_ok content c items res \<longleftrightarrow>
     (snd res \<and> state (fst res) = Closed \<and> wire (fst res) = wire c) \<or>
     (\<not> snd res \<and> (\<exists>items'. queues_hold (fst res) items' \<and> state (fst res) = state c \<and> writing (fst res) = writing c \<and>
        wire (fst res) @ flat content items' = wire c @ flat content items))"

lemma part_ok_same: "queues_hold c items \<Longrightarrow> part_ok content c items (c, False)"
  by (auto simp: part_ok_def)

lemma part_ok_failed: "state c \<noteq> Closed \<Longrightarrow> part_ok content c items (handle_close True c, True)"
  using force_close_Closed by (simp add: part_ok_def)

lemma part_okI:
  "queues_hold c' items' \<Longrightarrow> state c' = state c \<Longrightarrow> writing c' = writing c \<Longrightarrow>
   wire c' @ flat content items' = wire c @ flat content items \<Longrightarrow> part_ok content c items (c', False)"
  by (auto simp: part_ok_def)

lemma write_bytes_part:
  assumes h: "queues_hold c items" and nc: "state c \<noteq> Closed"
  shows "part_ok content c items (write_bytes r c)"
proof (cases "\<exists>s rest. items = Data s # rest")
  case False
  then have "write_bytes r c = (c, False)"
    using h q_head(1) [of "next_id c" items] by (auto simp: write_bytes_def queues_hold_def split: list.split)
  then show ?thesis using part_ok_same [OF h] by simp
next
  case True
  then obtain s rest where it: "items = Data s # rest" by blast
  then have q: "byte_stream_queue c = (next_id c, length s) # bytes_q (Suc (next_id c)) rest"
    "take (length s) (peek (output_buf c)) = s" "s \<noteq> []" "buffer_wf (output_buf c)"
    using h by (auto simp: queues_hold_def)
  show ?thesis
  proof (cases r)
    case Again
    then show ?thesis using q conn_write_Again [OF nc] part_ok_same [OF h] by (simp add: write_bytes_def)
  next
    case Failed
    then show ?thesis using q conn_write_Failed [OF nc] part_ok_failed [OF nc] by (simp add: write_bytes_def)
  next
    case (Done k)
    define n where "n = min (length s) k"
    have take_n: "take k s = take n s" by (simp add: n_def min_def)
    have cw: "conn_write r (take (length s) (peek (output_buf c))) c =
        (c\<lparr>wire := wire c @ map Byte (take n s)\<rparr>, int n)"
      unfolding q(2) Done conn_write_Done take_n by (simp add: n_def)
    let ?c = "c\<lparr>wire := wire c @ map Byte (take n s), output_buf := retrieve (output_buf c) n\<rparr>"
    have peek: "peek (retrieve (output_buf c) n) = drop n s @ data_of rest" "buffer_wf (retrieve (output_buf c) n)"
      using h it q(4) by (auto simp: queues_hold_def retrieve_peek retrieve_wf n_def)
    consider "n = 0" | "n = length s" | "0 < n" "n < length s" unfolding n_def by linarith
    then show ?thesis
    proof cases
      case 1
      then have "write_bytes r c = (c\<lparr>wire := wire c\<rparr>, False)"
        using q(1) by (simp add: write_bytes_def cw)
      then show ?thesis using part_ok_same [OF h] by simp
    next
      case 2
      then have "write_bytes r c = (?c\<lparr>byte_stream_queue := bytes_q (Suc (next_id c)) rest, next_id := next_id c + 1\<rparr>, False)"
        using q(1,3) by (simp add: write_bytes_def cw Let_def)
      then show ?thesis
        using h it 2 peek by (auto intro!: part_okI [of _ rest] simp: queues_hold_def)
    next
      case 3
      then have "write_bytes r c = (?c\<lparr>byte_stream_queue := (next_id c, length s - n) # bytes_q (Suc (next_id c)) rest\<rparr>, False)"
        using q(1,3) by (simp add: write_bytes_def cw Let_def)
      then show ?thesis
        using h it 3 peek
        by (auto intro!: part_okI [of _ "Data (drop n s) # rest"] simp: queues_hold_def wire_Byte_split)
    qed
  qed
qed

lemma write_file_part_ok:
  assumes h: "queues_hold c items" and nc: "state c \<noteq> Closed"
  shows "part_ok content c items (write_file_part content r c)"
proof (cases "\<exists>f rest. items = FilePart f # rest")
  case False
  then have "write_file_part content r c = (c, False)"
    using h q_head(2) [of "next_id c" items] by (auto simp: write_file_part_def queues_hold_def split: list.split)
  then show ?thesis using part_ok_same [OF h] by simp
next
  case True
  then obtain f rest where it: "items = FilePart f # rest" by blast
  then have q: "send_file_queue c = (next_id c, f) # files_q (Suc (next_id c)) rest" "0 < count f"
    using h by (auto simp: queues_hold_def)
  show ?thesis
  proof (cases r)
    case Again
    then show ?thesis using q conn_write_Again [OF nc] part_ok_same [OF h]
      by (simp add: write_file_part_def conn_sendfile_def)
  next
    case Failed
    then show ?thesis using q conn_write_Failed [OF nc] part_ok_failed [OF nc]
      by (simp add: write_file_part_def conn_sendfile_def)
  next
    case (Done k)
    define n where "n = length (take k (file_bytes content f))"
    define g where "g = f\<lparr>offset := offset f + n, count := count f - n\<rparr>"
    let ?c = "c\<lparr>wire := wire c @ map Byte (take k (file_bytes content f))\<rparr>"
    have fb: "map Byte (take k (file_bytes content f)) @ map Byte (file_bytes content g) = map Byte (file_bytes content f)"
      unfolding g_def by (rule file_bytes_advance) (simp add: n_def)
    show ?thesis
    proof (cases "n = 0")
      case True
      then have "take k (file_bytes content f) = []" by (metis n_def length_0_conv)
      then have "conn_sendfile content r f c = (c\<lparr>wire := wire c\<rparr>, 0)"
        unfolding conn_sendfile_def Done conn_write_Done by auto
      then have "write_file_part content r c = (c\<lparr>wire := wire c\<rparr>, False)"
        using q(1) by (simp add: write_file_part_def)
      then show ?thesis using part_ok_same [OF h] by simp
    next
      case False
      then have e: "write_file_part content r c =
          (if count g = 0 then ?c\<lparr>send_file_queue := files_q (Suc (next_id c)) rest, next_id := next_id c + 1\<rparr>
           else ?c\<lparr>send_file_queue := (next_id c, g) # files_q (Suc (next_id c)) rest\<rparr>, False)"
        using q Done unfolding g_def n_def
        by (simp add: write_file_part_def conn_sendfile_def conn_write_Done Let_def)
      show ?thesis
      proof (cases "count g = 0")
        case True
        then have "file_bytes content g = []" by (simp add: file_bytes_def)
        then have "map Byte (take k (file_bytes content f)) = map Byte (file_bytes content f)" using fb by simp
        then show ?thesis unfolding e using h it True
          by (auto intro!: part_okI [of _ rest] simp: queues_hold_def)
      next
        case False
        then show ?thesis unfolding e using h it fb
          by (auto intro!: part_okI [of _ "FilePart g # rest"] simp: queues_hold_def)
      qed
    qed
  qed
qed

lemma call_complete_part:
  assumes h: "queues_hold c items"
  shows "part_ok content c items (call_complete (\<lambda>_ c. c) c, False)"
proof (cases "\<exists>g rest. items = Complete g # rest")
  case False
  then have "call_complete (\<lambda>_ c. c) c = c"
    using h q_head(3) [of "next_id c" items] by (auto simp: call_complete_def queues_hold_def split: list.split)
  then show ?thesis using part_ok_same [OF h] by simp
next
  case True
  then show ?thesis
    using h by (auto simp: call_complete_def queues_hold_def intro!: part_okI)
qed

lemma write_finish_inv:
  assumes "queues_hold c items" and "state c \<noteq> Closed" and "writing c"
  shows "conn_inv content (wire c @ flat content items) (write_finish c)"
proof (cases "send_queue_is_empty c \<and> send_complete_handler_queue c = []")
  case True
  then have items: "items = []"
    using assms(1) q_empty [of "next_id c" items] by (auto simp: queues_hold_def send_queue_is_empty_def)
  show ?thesis
  proof (cases "state c = Closing")
    case closing: True
    have "write_finish c = handle_close True (c\<lparr>writing := False\<rparr>)"
      using True closing by (simp add: write_finish_def force_close_connection_def)
    then show ?thesis
      using force_close_Closed [of "c\<lparr>writing := False\<rparr>"] assms(2) by (simp add: conn_inv_def)
  next
    case False
    then have "write_finish c = c\<lparr>writing := False\<rparr>" using True by (simp add: write_finish_def)
    then show ?thesis
      using assms items by (intro queue_rel_conn_invI [of _ "[]"]) (simp_all add: queue_rel_def)
  qed
next
  case False
  then have "items \<noteq> []" using assms(1) by (auto simp: queues_hold_def send_queue_is_empty_def)
  moreover have "write_finish c = c" using False by (auto simp: write_finish_def)
  ultimately show ?thesis using assms by (intro queue_rel_conn_invI [of _ items]) (simp_all add: queue_rel_def)
qed

lemma handle_write_inv:
  assumes inv: "conn_inv content sub c"
  shows "conn_inv content sub (handle_write content (\<lambda>_ c. c) r1 r2 c)"
proof (cases "state c = Closed \<or> \<not> writing c")
  case True
  then show ?thesis using inv by (simp add: handle_write_def)
next
  case False
  then obtain items where q: "queues_hold c items" "state c \<noteq> Closed" and sub: "sub = wire c @ flat content items"
    using inv by (auto simp: conn_inv_def queue_rel_def)
  obtain c1 ret1 where w1: "write_bytes r1 c = (c1, ret1)" by fastforce
  obtain c2 ret2 where w2: "write_file_part content r2 c1 = (c2, ret2)" by fastforce
  note p1 = write_bytes_part [OF q, of content r1, unfolded w1 part_ok_def fst_conv snd_conv]
  show ?thesis
  proof (cases ret1)
    case True
    then show ?thesis using p1 w1 False sub by (simp add: handle_write_def conn_inv_def)
  next
    case r1: False
    then obtain items1 where i1: "queues_hold c1 items1" "state c1 \<noteq> Closed" "writing c1"
      "wire c1 @ flat content items1 = sub"
      using p1 q False sub by auto
    note p2 = write_file_part_ok [OF i1(1,2), of content r2, unfolded w2 part_ok_def fst_conv snd_conv]
    show ?thesis
    proof (cases ret2)
      case True
      then have "prefix (wire c2) sub" using p2 i1(4) by auto
      then show ?thesis using p2 True w1 w2 r1 False by (simp add: handle_write_def conn_inv_def)
    next
      case r2: False
      then obtain items2 where i2: "queues_hold c2 items2" "state c2 \<noteq> Closed" "writing c2"
        "wire c2 @ flat content items2 = sub"
        using p2 i1 by auto
      let ?c3 = "call_complete (\<lambda>_ c. c) c2"
      obtain items3 where i3: "queues_hold ?c3 items3" "state ?c3 \<noteq> Closed" "writing ?c3"
        "wire ?c3 @ flat content items3 = sub"
        using call_complete_part [OF i2(1), of content] i2 by (auto simp: part_ok_def)
      then show ?thesis
        using write_finish_inv [OF i3(1-3), of content] w1 w2 r1 r2 False by (simp add: handle_write_def)
    qed
  qed
qed

lemma handle_close_inv: "conn_inv content sub c \<Longrightarrow> conn_inv content sub (handle_close b c)"
  by (auto simp: conn_inv_def handle_close_def queue_rel_def Let_def split: if_splits)

lemma handle_error_inv: "conn_inv content sub c \<Longrightarrow> conn_inv content sub (handle_error b c)"
  by (simp add: handle_error_def force_close_connection_def handle_close_inv)

lemma conn_inv_irrelevant [simp]:
  "conn_inv content sub (c\<lparr>ttl_timer_id := i\<rparr>) = conn_inv content sub c"
  "conn_inv content sub (c\<lparr>loop_timers := t\<rparr>) = conn_inv content sub c"
  "conn_inv content sub (c\<lparr>ttl_ms := ms\<rparr>) = conn_inv content sub c"
  "conn_inv content sub (c\<lparr>input_buf := b\<rparr>) = conn_inv content sub c"
  "conn_inv content sub (c\<lparr>reset_by_peer := x\<rparr>) = conn_inv content sub c"
  by (simp_all add: conn_inv_def queue_rel_def queues_hold_def)

lemma ttl_inv:
  "conn_inv content sub (set_ttl_timer now c) = conn_inv content sub c"
  "conn_inv content sub (set_ttl now ms c) = conn_inv content sub c"
  "conn_inv content sub (update_ttl_timer now c) = conn_inv content sub c"
  by (simp_all add: set_ttl_timer_def set_ttl_def update_ttl_timer_def split: prod.split)

lemma handle_read_inv:
  assumes "conn_inv content sub c"
  shows "conn_inv content sub (handle_read now inp None c)"
  using assms
  by (auto simp: handle_read_def ttl_inv handle_error_inv force_close_connection_def handle_close_inv Let_def
      split: sum.split)

lemma set_send_complete_handler_inv:
  assumes "conn_inv content sub c"
  shows "conn_inv content (sub @ [Called h]) (set_send_complete_handler h c)"
proof (cases "state c = Closed")
  case True
  then show ?thesis using assms by (simp add: conn_inv_def set_send_complete_handler_def)
next
  case False
  then obtain items where "queue_rel c items" "sub = wire c @ flat content items"
    using assms by (auto simp: conn_inv_def)
  then show ?thesis
    by (intro queue_rel_conn_invI [of _ "items @ [Complete h]"])
      (simp_all add: set_send_complete_handler_def queue_rel_def queues_hold_def q_append)
qed

section \<open>Sequences of calls\<close>

text \<open>
  Everything that can happen to a connection in its loop, in any order, with any answers of the
  system. Handlers do nothing themselves here: what they call are later operations of the sequence.
\<close>

datatype 'h conn_op =
    Send char sys string | SendFile sys out_file | SetComplete 'h
  | Writable sys sys | Readable "string + bool" | Close | SetTtl int | SocketError bool

fun conn_exec :: "(nat \<Rightarrow> string) \<Rightarrow> int \<times> 'h conn_op \<Rightarrow> 'h conn \<Rightarrow> 'h conn" where
  "conn_exec content (now, Send prev r data) c = send now prev r data c"
| "conn_exec content (now, SendFile r f) c = send_file now content r f c"
| "conn_exec content (now, SetComplete h) c = set_send_complete_handler h c"
| "conn_exec content (now, Writable r1 r2) c = handle_write content (\<lambda>_ c. c) r1 r2 c"
| "conn_exec content (now, Readable inp) c = handle_read now inp None c"
| "conn_exec content (now, Close) c = close c"
| "conn_exec content (now, SetTtl ms) c = set_ttl now ms c"
| "conn_exec content (now, SocketError b) c = handle_error b c"

fun submitted :: "(nat \<Rightarrow> string) \<Rightarrow> int \<times> 'h conn_op \<Rightarrow> 'h event list" where
  "submitted content (now, Send prev r data) = map Byte data"
| "submitted content (now, SendFile r f) = map Byte (file_bytes content f)"
| "submitted content (now, SetComplete h) = [Called h]"
| "submitted content _ = []"

text \<open>The direct write of a send does not report \<^verbatim>\<open>EAGAIN\<close>.\<close>

fun no_eagain :: "'h conn_op \<Rightarrow> bool" where
  "no_eagain (Send prev r data) = (r \<noteq> Again)"
| "no_eagain _ = True"

lemma conn_exec_inv:
  "conn_inv content sub c \<Longrightarrow> no_eagain (snd op) \<Longrightarrow>
   conn_inv content (sub @ submitted content op) (conn_exec content op c)"
  by (cases "(content, op, c)" rule: conn_exec.cases)
    (auto simp: send_def send_file_def close_def ttl_inv send_in_loop_inv send_file_in_loop_inv
      set_send_complete_handler_inv handle_write_inv handle_read_inv handle_close_inv handle_error_inv)

lemma conn_run_inv:
  "conn_inv content sub c \<Longrightarrow> \<forall>op \<in> set ops. no_eagain (snd op) \<Longrightarrow>
   conn_inv content (sub @ concat (map (submitted content) ops)) (fold (conn_exec content) ops c)"
proof (induction ops arbitrary: sub c)
  case (Cons op ops)
  then have "conn_inv content (sub @ submitted content op) (conn_exec content op c)" by (simp add: conn_exec_inv)
  from Cons.IH [OF this] Cons.prems show ?case by simp
qed simp

lemma conn_new_inv: "conn_inv content [] (conn_new cid t)"
  by (auto simp: conn_inv_def conn_new_def queue_rel_def queues_hold_def buffer_new_wf buffer_new_peek
      intro!: exI [of _ "[]"])

section \<open>Progress\<close>

text \<open>The kernel takes everything, and the files are as long as their parts.\<close>

definition readable_files :: "(nat \<Rightarrow> string) \<Rightarrow> 'h item list \<Rightarrow> bool" where
  "readable_files content items \<longleftrightarrow>
     (\<forall>f. FilePart f \<in> set items \<longrightarrow> offset f + count f \<le> length (content (ffd f)))"

lemma write_bytes_full:
  assumes "queues_hold c (Data s # rest)" and "length s \<le> k"
  shows "\<exists>c'. write_bytes (Done k) c = (c', False) \<and> queues_hold c' rest \<and>
    state c' = state c \<and> writing c' = writing c \<and> wire c' = wire c @ map Byte s"
proof -
  let ?c = "c\<lparr>wire := wire c @ map Byte s, output_buf := retrieve (output_buf c) (length s),
      byte_stream_queue := bytes_q (Suc (next_id c)) rest, next_id := next_id c + 1\<rparr>"
  have q: "byte_stream_queue c = (next_id c, length s) # bytes_q (Suc (next_id c)) rest"
    "take (length s) (peek (output_buf c)) = s" "s \<noteq> []"
    using assms by (auto simp: queues_hold_def)
  have cw: "conn_write (Done k) (take (length s) (peek (output_buf c))) c =
      (c\<lparr>wire := wire c @ map Byte s\<rparr>, int (length s))"
    unfolding q(2) conn_write_Done using assms(2) by simp
  have "write_bytes (Done k) c = (?c, False)" using q(1,3) by (simp add: write_bytes_def cw Let_def)
  moreover have "queues_hold ?c rest" using assms(1) by (simp add: queues_hold_def retrieve_wf retrieve_peek)
  ultimately show ?thesis by simp
qed

lemma write_file_part_full:
  assumes "queues_hold c (FilePart f # rest)" and "count f \<le> k" and "offset f + count f \<le> length (content (ffd f))"
  shows "\<exists>c'. write_file_part content (Done k) c = (c', False) \<and> queues_hold c' rest \<and>
    state c' = state c \<and> writing c' = writing c \<and> wire c' = wire c @ map Byte (file_bytes content f)"
proof -
  have q: "send_file_queue c = (next_id c, f) # files_q (Suc (next_id c)) rest" "0 < count f"
    using assms by (auto simp: queues_hold_def)
  have len: "length (file_bytes content f) = count f" using assms(3) by (simp add: file_bytes_def)
  let ?c = "c\<lparr>wire := wire c @ map Byte (file_bytes content f),
      send_file_queue := files_q (Suc (next_id c)) rest, next_id := next_id c + 1\<rparr>"
  have "conn_sendfile content (Done k) f c =
      (c\<lparr>wire := wire c @ map Byte (file_bytes content f)\<rparr>, int (count f))"
    unfolding conn_sendfile_def conn_write_Done using assms(2) len by simp
  then have "write_file_part content (Done k) c = (?c, False)"
    using q by (simp add: write_file_part_def Let_def)
  moreover have "queues_hold ?c rest" using assms(1) by (simp add: queues_hold_def)
  ultimately show ?thesis by simp
qed

lemma write_bytes_skip:
  assumes "queues_hold c items" and "\<And>s rest. items \<noteq> Data s # rest"
  shows "write_bytes r c = (c, False)"
  using assms q_head(1) [of "next_id c" items] by (auto simp: write_bytes_def queues_hold_def split: list.split)

lemma write_file_part_skip:
  assumes "queues_hold c items" and "\<And>f rest. items \<noteq> FilePart f # rest"
  shows "write_file_part content r c = (c, False)"
  using assms q_head(2) [of "next_id c" items] by (auto simp: write_file_part_def queues_hold_def split: list.split)

text \<open>A part leaves a suffix of the items, and not all of them if the first one is of its kind.\<close>

definition pops :: "(nat \<Rightarrow> string) \<Rightarrow> ('h item \<Rightarrow> bool) \<Rightarrow> 'h conn \<Rightarrow> 'h item list \<Rightarrow> 'h conn \<Rightarrow> 'h item list \<Rightarrow> bool" where
  "pops content kind c items c' items' \<longleftrightarrow>
     queues_hold c' items' \<and> suffix items' items \<and> (items \<noteq> [] \<and> kind (hd items) \<longrightarrow> items' \<noteq> items) \<and>
     wire c' @ flat content items' = wire c @ flat content items \<and> state c' = state c \<and> writing c' = writing c"

lemma pops_self: "queues_hold c items \<Longrightarrow> items = [] \<or> \<not> kind (hd items) \<Longrightarrow> pops content kind c items c items"
  by (auto simp: pops_def)

fun is_data :: "'h item \<Rightarrow> bool" where
  "is_data (Data s) = True"
| "is_data _ = False"

fun is_file :: "'h item \<Rightarrow> bool" where
  "is_file (FilePart f) = True"
| "is_file _ = False"

fun is_complete :: "'h item \<Rightarrow> bool" where
  "is_complete (Complete h) = True"
| "is_complete _ = False"

fun item_length :: "'h item \<Rightarrow> nat" where
  "item_length (Data s) = length s"
| "item_length (FilePart f) = count f"
| "item_length (Complete h) = 0"

lemma write_bytes_pops:
  assumes "queues_hold c items" and "\<forall>x \<in> set items. item_length x \<le> k"
  shows "\<exists>c' items'. write_bytes (Done k) c = (c', False) \<and> pops content is_data c items c' items'"
proof (cases items)
  case Nil
  then show ?thesis using write_bytes_skip [OF assms(1)] pops_self [OF assms(1)] by blast
next
  case (Cons x rest)
  show ?thesis
  proof (cases x)
    case (Data s)
    then show ?thesis
      using write_bytes_full [of c s rest k] assms Cons by (fastforce simp: pops_def intro: suffix_ConsI)
  qed (use assms Cons write_bytes_skip [OF assms(1)] pops_self [OF assms(1), of is_data content] in auto)
qed

lemma write_file_part_pops:
  assumes "queues_hold c items" and "\<forall>x \<in> set items. item_length x \<le> k" and "readable_files content items"
  shows "\<exists>c' items'. write_file_part content (Done k) c = (c', False) \<and> pops content is_file c items c' items'"
proof (cases items)
  case Nil
  then show ?thesis using write_file_part_skip [OF assms(1)] pops_self [OF assms(1)] by blast
next
  case (Cons x rest)
  show ?thesis
  proof (cases x)
    case (FilePart f)
    then show ?thesis
      using write_file_part_full [of c f rest k content] assms Cons
      by (fastforce simp: pops_def readable_files_def intro: suffix_ConsI)
  qed (use assms Cons write_file_part_skip [OF assms(1)] pops_self [OF assms(1), of is_file content] in auto)
qed

lemma call_complete_pops:
  assumes "queues_hold c items"
  shows "\<exists>items'. pops content is_complete c items (call_complete (\<lambda>_ c. c) c) items'"
proof (cases "\<exists>h rest. items = Complete h # rest")
  case False
  then have "call_complete (\<lambda>_ c. c) c = c"
    using assms q_head(3) [of "next_id c" items] by (auto simp: call_complete_def queues_hold_def split: list.split)
  moreover have "items = [] \<or> \<not> is_complete (hd items)" using False by (cases items; cases "hd items") auto
  ultimately show ?thesis using pops_self [OF assms] by metis
next
  case True
  then obtain h rest where it: "items = Complete h # rest" by blast
  then have "pops content is_complete c items (call_complete (\<lambda>_ c. c) c) rest"
    using assms by (auto simp: call_complete_def queues_hold_def pops_def intro: suffix_ConsI)
  then show ?thesis by blast
qed

lemma handle_write_pops:
  assumes "queue_rel c items" and "items \<noteq> []" and "\<forall>x \<in> set items. item_length x \<le> k"
    and "readable_files content items"
  shows "\<exists>c3 items3. handle_write content (\<lambda>_ c. c) (Done k) (Done k) c = write_finish c3 \<and>
    queues_hold c3 items3 \<and> suffix items3 items \<and> items3 \<noteq> items \<and> writing c3 \<and> state c3 = state c \<and>
    wire c3 @ flat content items3 = wire c @ flat content items"
proof -
  have h: "queues_hold c items" "state c \<noteq> Closed" "writing c" using assms(1,2) by (auto simp: queue_rel_def)
  obtain c1 items1 where p1: "write_bytes (Done k) c = (c1, False)" "pops content is_data c items c1 items1"
    using write_bytes_pops [OF h(1) assms(3)] by blast
  then have s1: "suffix items1 items" "queues_hold c1 items1" by (auto simp: pops_def)
  then have "\<forall>x \<in> set items1. item_length x \<le> k" "readable_files content items1"
    using assms(3,4) set_mono_suffix by (fastforce simp: readable_files_def)+
  then obtain c2 items2 where p2: "write_file_part content (Done k) c1 = (c2, False)"
    "pops content is_file c1 items1 c2 items2"
    using write_file_part_pops [OF s1(2)] by blast
  obtain items3 where p3: "pops content is_complete c2 items2 (call_complete (\<lambda>_ c. c) c2) items3"
    using call_complete_pops [of c2 items2 content] p2(2) unfolding pops_def by blast
  have suf: "suffix items3 items2" "suffix items2 items1" using p2 p3 by (auto simp: pops_def)
  have ne: "items3 \<noteq> items"
  proof
    assume "items3 = items"
    with s1(1) suf have "items1 = items" "items2 = items" by (meson suffix_order.antisym suffix_order.trans)+
    with p1 p2 p3 \<open>items3 = items\<close> assms(2) have "\<not> is_data (hd items)" "\<not> is_file (hd items)" "\<not> is_complete (hd items)"
      by (auto simp: pops_def)
    then show False by (cases "hd items") auto
  qed
  have "handle_write content (\<lambda>_ c. c) (Done k) (Done k) c = write_finish (call_complete (\<lambda>_ c. c) c2)"
    using h p1(1) p2(1) by (simp add: handle_write_def)
  moreover have "suffix items3 items" using suf s1(1) by (meson suffix_order.trans)
  ultimately show ?thesis using p1 p2 p3 ne h by (auto simp: pops_def)
qed

lemma handle_write_drains:
  assumes "queue_rel c items" and "length items \<le> m" and "items \<noteq> [] \<or> state c = Connected"
    and "\<forall>x \<in> set items. item_length x \<le> k" and "readable_files content items"
  shows "let c' = (handle_write content (\<lambda>_ c. c) (Done k) (Done k) ^^ m) c in
    wire c' = wire c @ flat content items \<and> \<not> writing c' \<and>
    state c' = (if state c = Closing then Closed else Connected)"
  using assms
proof (induction m arbitrary: c items)
  case 0
  then show ?case by (simp add: queue_rel_def Let_def)
next
  case (Suc m)
  let ?f = "handle_write content (\<lambda>_ c. c) (Done k) (Done k)"
  show ?case
  proof (cases "items = []")
    case True
    then have c: "state c = Connected" "\<not> writing c" using Suc.prems by (auto simp: queue_rel_def)
    then have "?f c = c" by (simp add: handle_write_def)
    then have "(?f ^^ Suc m) c = (?f ^^ m) c" by (simp add: funpow_swap1)
    then show ?thesis using Suc.IH [OF Suc.prems(1)] Suc.prems True c by simp
  next
    case False
    obtain c3 items3 where 3: "?f c = write_finish c3" "queues_hold c3 items3" "suffix items3 items" "items3 \<noteq> items"
      "writing c3" "state c3 = state c" "wire c3 @ flat content items3 = wire c @ flat content items"
      using handle_write_pops [OF Suc.prems(1) False Suc.prems(4,5)] by blast
    have nc: "state c \<noteq> Closed" using Suc.prems(1) by (simp add: queue_rel_def)
    have len: "length items3 < length items"
      using 3(3,4) by (metis suffix_length_le suffix_length_less suffix_order.less_le)
    have sub: "\<forall>x \<in> set items3. item_length x \<le> k" "readable_files content items3"
      using Suc.prems(4,5) set_mono_suffix [OF 3(3)] by (auto simp: readable_files_def)
    have emp: "send_queue_is_empty c3 \<and> send_complete_handler_queue c3 = [] \<longleftrightarrow> items3 = []"
      using 3(2) q_empty [of "next_id c3" items3] by (auto simp: queues_hold_def send_queue_is_empty_def)
    have swap: "(?f ^^ Suc m) c = (?f ^^ m) (write_finish c3)" using 3(1) by (simp add: funpow_swap1)
    show ?thesis
    proof (cases "items3 = [] \<and> state c = Closing")
      case True
      then have w: "write_finish c3 = handle_close True (c3\<lparr>writing := False\<rparr>)"
        using emp 3(6) by (simp add: write_finish_def force_close_connection_def)
      then have cl: "state (write_finish c3) = Closed" "wire (write_finish c3) = wire c3" "\<not> writing (write_finish c3)"
        using force_close_Closed [of "c3\<lparr>writing := False\<rparr>"] 3(6) nc by (auto simp: handle_close_def Let_def)
      then have "?f (write_finish c3) = write_finish c3" by (simp add: handle_write_def)
      then have "(?f ^^ m) (write_finish c3) = write_finish c3" by (induction m) simp_all
      then show ?thesis using swap cl 3(7) True by simp
    next
      case nofin: False
      define c4 where "c4 = write_finish c3"
      have c4: "queue_rel c4 items3" "state c4 = state c" "wire c4 = wire c3"
        using emp 3(2,5,6) nc nofin
        by (auto simp: c4_def write_finish_def queue_rel_def force_close_connection_def)
      have "items3 \<noteq> [] \<or> state c4 = Connected" using nofin c4(2) nc by (metis conn_state.exhaust)
      from Suc.IH [OF c4(1) _ this sub] len Suc.prems(2) have
        "let c' = (?f ^^ m) c4 in wire c' = wire c4 @ flat content items3 \<and> \<not> writing c' \<and>
           state c' = (if state c4 = Closing then Closed else Connected)" by simp
      then show ?thesis using swap c4 3(7) by (simp add: c4_def [symmetric])
    qed
  qed
qed

section \<open>Life cycle\<close>

definition lifecycle :: "'h conn \<Rightarrow> bool" where
  "lifecycle c \<longleftrightarrow> (state c = Closed \<longleftrightarrow> removed c) \<and> close_calls c = (if state c = Closed then 1 else 0)"

text \<open>The fields a step changes besides closing: those of the queues and timers.\<close>

definition same_life :: "'h conn \<Rightarrow> 'h conn \<Rightarrow> bool" where
  "same_life c c' \<longleftrightarrow> state c' = state c \<and> removed c' = removed c \<and> close_calls c' = close_calls c \<and>
     conn_id c' = conn_id c \<and> ttl_timer_id c' = ttl_timer_id c \<and> loop_timers c' = loop_timers c"

lemma same_life_refl [simp]: "same_life c c"
  by (simp add: same_life_def)

text \<open>Every operation is made of such changes, of closing and of restarting the idle timer.\<close>

inductive evolves :: "'h conn \<Rightarrow> 'h conn \<Rightarrow> bool" for c where
  start: "evolves c c"
| same: "evolves c c1 \<Longrightarrow> same_life c1 c2 \<Longrightarrow> evolves c c2"
| closed: "evolves c c1 \<Longrightarrow> evolves c (handle_close b c1)"
| timer: "evolves c c1 \<Longrightarrow>
    evolves c (set_ttl_timer now (c1\<lparr>ttl_ms := ms, loop_timers := cancel_timer (ttl_timer_id c1) (loop_timers c1)\<rparr>))"

lemma evolves_update:
  "evolves c c1 \<Longrightarrow> evolves c (c1\<lparr>wire := x0\<rparr>)"
  "evolves c c1 \<Longrightarrow> evolves c (c1\<lparr>output_buf := x1\<rparr>)"
  "evolves c c1 \<Longrightarrow> evolves c (c1\<lparr>byte_stream_queue := x2\<rparr>)"
  "evolves c c1 \<Longrightarrow> evolves c (c1\<lparr>send_file_queue := x3\<rparr>)"
  "evolves c c1 \<Longrightarrow> evolves c (c1\<lparr>send_complete_handler_queue := x4\<rparr>)"
  "evolves c c1 \<Longrightarrow> evolves c (c1\<lparr>send_id := x5\<rparr>)"
  "evolves c c1 \<Longrightarrow> evolves c (c1\<lparr>next_id := x6\<rparr>)"
  "evolves c c1 \<Longrightarrow> evolves c (c1\<lparr>writing := x7\<rparr>)"
  "evolves c c1 \<Longrightarrow> evolves c (c1\<lparr>high_water_calls := x8\<rparr>)"
  "evolves c c1 \<Longrightarrow> evolves c (c1\<lparr>input_buf := x9\<rparr>)"
  "evolves c c1 \<Longrightarrow> evolves c (c1\<lparr>reset_by_peer := x10\<rparr>)"
  by (erule evolves.same, simp add: same_life_def)+

lemma conn_write_evolves: "conn_write r data c1 = (c2, n) \<Longrightarrow> evolves c c1 \<Longrightarrow> evolves c c2"
  by (cases r) (auto simp: conn_write_def write_result_def handle_error_def force_close_connection_def Let_def
      intro: evolves.closed evolves_update)

lemma send_in_loop_evolves: "evolves c (send_in_loop prev r data c)"
proof -
  obtain c1 n where e: "(if \<not> writing c \<and> send_queue_is_empty c then conn_write r data c else (c, 0)) = (c1, n)" by (metis surj_pair)
  then have "evolves c c1" using evolves.start [of c] by (auto simp: conn_sendfile_def split: if_splits dest: conn_write_evolves)
  then show ?thesis by (simp add: send_in_loop_def e Let_def evolves.start evolves_update)
qed

lemma send_file_in_loop_evolves: "evolves c (send_file_in_loop content r f c)"
proof -
  obtain c1 n where e: "(if \<not> writing c \<and> send_queue_is_empty c then conn_sendfile content r f c else (c, 0)) = (c1, n)" by (metis surj_pair)
  then have "evolves c c1" using evolves.start [of c] by (auto simp: conn_sendfile_def split: if_splits dest: conn_write_evolves)
  then show ?thesis by (simp add: send_file_in_loop_def e Let_def evolves.start evolves_update)
qed

lemma write_bytes_evolves: "evolves c c1 \<Longrightarrow> evolves c (fst (write_bytes r c1))"
proof -
  assume a: "evolves c c1"
  have 1: "evolves c c2" if "conn_write r d c1 = (c2, n)" for c2 n d using that conn_write_evolves a by blast
  show ?thesis
    using 1 a
    by (auto simp: write_bytes_def Let_def split: prod.split list.split intro!: evolves_update)
qed

lemma write_file_part_evolves: "evolves c c1 \<Longrightarrow> evolves c (fst (write_file_part content r c1))"
proof -
  assume a: "evolves c c1"
  have 1: "evolves c c2" if "conn_sendfile content r f c1 = (c2, n)" for c2 n f
    using that conn_write_evolves a by (metis conn_sendfile_def)
  show ?thesis
    using 1 a
    by (auto simp: write_file_part_def Let_def split: prod.split list.split intro!: evolves_update)
qed

lemma call_complete_evolves: "evolves c c1 \<Longrightarrow> evolves c (call_complete (\<lambda>_ c. c) c1)"
  by (auto simp: call_complete_def Let_def split: list.split intro!: evolves_update)

lemma write_finish_evolves: "evolves c c1 \<Longrightarrow> evolves c (write_finish c1)"
proof -
  assume a: "evolves c c1"
  then have "evolves c (c1\<lparr>writing := False\<rparr>)" by (rule evolves.same) (simp add: same_life_def)
  then show ?thesis using a by (auto simp: write_finish_def force_close_connection_def Let_def intro: evolves.closed)
qed

lemma handle_write_evolves: "evolves c (handle_write content (\<lambda>_ c. c) r1 r2 c)"
  using write_bytes_evolves [OF evolves.start, of c r1]
    write_file_part_evolves [of c "fst (write_bytes r1 c)" content r2]
  by (auto simp: handle_write_def evolves.start write_finish_evolves call_complete_evolves split: prod.split)

lemma update_ttl_timer_evolves: "evolves c c1 \<Longrightarrow> evolves c (update_ttl_timer now c1)"
  using evolves.timer [of c c1 now "ttl_ms c1"] by (simp add: update_ttl_timer_def)

lemma handle_read_evolves: "evolves c (handle_read now inp None c)"
proof (cases inp)
  case (Inr b)
  then show ?thesis
    by (auto simp: handle_read_def handle_error_def force_close_connection_def
        intro!: update_ttl_timer_evolves intro: evolves.start evolves.closed)
next
  case (Inl bs)
  let ?c1 = "c\<lparr>input_buf := fst (read_fd (input_buf c) (Some bs))\<rparr>"
  have 1: "evolves c ?c1" "evolves c (?c1\<lparr>reset_by_peer := True\<rparr>)" "evolves c (?c1\<lparr>input_buf := x\<rparr>)" for x
    by (rule evolves.same [OF evolves.start], simp add: same_life_def)+
  have "evolves c ((handle_close True (?c1\<lparr>reset_by_peer := True\<rparr>))\<lparr>reset_by_peer := False\<rparr>)"
    by (rule evolves.same [OF evolves.closed [OF 1(2)]]) (simp add: same_life_def)
  with 1 Inl show ?thesis
    by (auto simp: handle_read_def force_close_connection_def Let_def intro!: update_ttl_timer_evolves)
qed

lemma conn_exec_evolves: "evolves c (conn_exec content op c)"
proof (cases "(content, op, c)" rule: conn_exec.cases)
  case (3 content' now h c')
  then show ?thesis
    by (auto simp: set_send_complete_handler_def same_life_def intro: evolves.same [OF evolves.start])
next
  case (7 content' now ms c')
  then show ?thesis using evolves.timer [OF evolves.start, of c now ms] by (auto simp: set_ttl_def evolves.start)
qed (auto simp: send_def send_file_def close_def handle_error_def force_close_connection_def
      intro: update_ttl_timer_evolves send_in_loop_evolves send_file_in_loop_evolves handle_write_evolves
        handle_read_evolves evolves.closed evolves.start)

lemma evolves_lifecycle: "evolves c c' \<Longrightarrow> lifecycle c \<Longrightarrow> lifecycle c' \<and> (state c = Closed \<longrightarrow> state c' = Closed)"
proof (induction rule: evolves.induct)
  case (closed c1 b)
  then show ?case by (auto simp: lifecycle_def handle_close_def Let_def)
next
  case (timer c1 now ms)
  then show ?case by (auto simp: lifecycle_def set_ttl_timer_def split: prod.split)
qed (auto simp: lifecycle_def same_life_def)

text \<open>At most one timer of the loop belongs to the connection, the one whose id the connection keeps.\<close>

definition ttl_ok :: "'h conn \<Rightarrow> bool" where
  "ttl_ok c \<longleftrightarrow> timer_invar (loop_timers c) \<and>
     (\<forall>i x. timer_map (loop_timers c) i = Some x \<and> timer_cb x = conn_id c \<longrightarrow> i = ttl_timer_id c)"

lemma evolves_ttl: "evolves c c' \<Longrightarrow> ttl_ok c \<Longrightarrow> ttl_ok c'"
proof (induction rule: evolves.induct)
  case (closed c1 b)
  then have ok: "timer_invar (loop_timers c1)" "ttl_ok c1" by (auto simp: ttl_ok_def)
  from timers.cancel_law [OF ok(1)] ok show ?case
    by (auto simp: ttl_ok_def handle_close_def Let_def split: if_splits)
next
  case (timer c1 now ms)
  then have ok: "timer_invar (loop_timers c1)" "ttl_ok c1" by (auto simp: ttl_ok_def)
  define t where "t = cancel_timer (ttl_timer_id c1) (loop_timers c1)"
  have t: "timer_invar t" "timer_map t = (timer_map (loop_timers c1))(ttl_timer_id c1 := None)"
    using timers.cancel_law [OF ok(1)] by (auto simp: t_def)
  obtain i t' where r: "run_after now ms (conn_id c1) t = (i, t')" by fastforce
  have "timer_invar t'" "timer_map t' = (timer_map t)(i \<mapsto> \<lparr>tid = i, expire = now + ms, interval = 0, timer_cb = conn_id c1\<rparr>)"
    using timers.add_law [OF t(1) r [unfolded run_after_def]] by auto
  with t ok r show ?case by (auto simp: ttl_ok_def set_ttl_timer_def t_def [symmetric] split: if_splits)
qed (auto simp: ttl_ok_def same_life_def)

lemma conn_run_evolves:
  assumes "\<And>c op. P c \<Longrightarrow> P (conn_exec content op c)" and "P c"
  shows "P (fold (conn_exec content) ops c)"
  using assms(2) by (induction ops arbitrary: c) (auto simp: assms(1))

section \<open>Properties\<close>


text \<open>
  C3: queued data is delivered. If the kernel takes all it is given, as many calls of
  \<^verbatim>\<open>handle_write\<close> as there are items send everything and call all handlers; then writing is
  disabled, and a connection that was closing is closed.
\<close>

theorem handle_write_delivers_all:
  assumes "queue_rel c items" and "items \<noteq> []" and "\<forall>x \<in> set items. item_length x \<le> k"
    and "readable_files content items"
  shows "let c' = (handle_write content (\<lambda>_ c. c) (Done k) (Done k) ^^ length items) c in
    wire c' = wire c @ flat content items \<and> \<not> writing c' \<and>
    state c' = (if state c = Closing then Closed else Connected)"
  using handle_write_drains [OF assms(1) order_refl _ assms(3,4)] assms(2) by blast

text \<open>
  When the direct write of a send reports \<^verbatim>\<open>EAGAIN\<close>, the bytes queued are wrong: \<^verbatim>\<open>data + n\<close> with
  \<^verbatim>\<open>n = -1\<close> starts one byte in front of the data and leaves the last byte out.
\<close>

theorem send_eagain_shifts:
  assumes "buffer_wf (output_buf c)" and "state c \<noteq> Closed" and "\<not> writing c" and "send_queue_is_empty c"
    and "data \<noteq> []"
  shows "peek (output_buf (send_in_loop prev Again data c)) = peek (output_buf c) @ prev # butlast data"
proof -
  have "bytes_at prev data (-1) (length data) = prev # butlast data"
    using assms(5) by (cases data rule: rev_cases) (simp_all add: bytes_at_def)
  then show ?thesis
    using assms by (simp add: send_in_loop_def conn_write_Again append_buf_peek Let_def)
qed

text \<open>
  C10: a connection is closed at most once. In every state the channel is removed and the close
  handler was called exactly once if the state is \<^verbatim>\<open>Closed\<close>, and not at all before.
\<close>

theorem closed_once:
  "lifecycle (fold (conn_exec content) ops (conn_new cid t))"
proof (rule conn_run_evolves)
  show "lifecycle (conn_new cid t)" by (simp add: lifecycle_def conn_new_def)
qed (use evolves_lifecycle conn_exec_evolves in blast)

text \<open>
  No operation leaves the state \<^verbatim>\<open>Closed\<close>, and none sends anything in it.\<close>

theorem closed_is_final:
  assumes "state c = Closed" and "lifecycle c"
  shows "state (conn_exec content op c) = Closed \<and> wire (conn_exec content op c) = wire c"
proof -
  have w: "wire (update_ttl_timer now d) = wire d" "wire (set_ttl now ms d) = wire d"
    "wire (handle_close b d) = wire d" for now ms b and d :: "'a conn"
    by (auto simp: update_ttl_timer_def set_ttl_def set_ttl_timer_def handle_close_def Let_def split: prod.split)
  have "wire (conn_exec content op c) = wire c"
    by (cases "(content, op, c)" rule: conn_exec.cases)
      (use assms in \<open>auto simp: w send_def send_file_def send_in_loop_def send_file_in_loop_def close_def
        set_send_complete_handler_def handle_write_def handle_read_def handle_error_def force_close_connection_def
        Let_def split: sum.split\<close>)
  then show ?thesis using evolves_lifecycle [OF conn_exec_evolves assms(2)] assms(1) by blast
qed

text \<open>
  A connection has at most one idle timer in the loop, the one whose id it keeps: each restart
  cancels the one before, and closing cancels it.
\<close>

theorem one_idle_timer:
  assumes "timer_invar t" and "\<forall>i x. timer_map t i = Some x \<longrightarrow> timer_cb x \<noteq> cid"
  shows "ttl_ok (fold (conn_exec content) ops (conn_new cid t))"
proof (rule conn_run_evolves)
  show "ttl_ok (conn_new cid t)" using assms by (auto simp: ttl_ok_def conn_new_def)
qed (use evolves_ttl conn_exec_evolves in blast)

section \<open>Witnesses\<close>

text \<open>A send of which the kernel takes two bytes, then a part of a file, then a handler.\<close>

definition sample_ops :: "(int \<times> nat conn_op) list" where
  "sample_ops = [(0, Send NUL (Done 2) ''hello''), (0, SendFile Again \<lparr>ffd = 4, offset = 1, count = 2\<rparr>), (0, SetComplete 7)]"

definition sample_conn :: "nat conn" where
  "sample_conn = fold (conn_exec (\<lambda>_. ''wxyz'')) sample_ops (conn_new 9 timer_new)"

lemma sample_conn_rel: "queue_rel sample_conn [Data ''llo'', FilePart \<lparr>ffd = 4, offset = 1, count = 2\<rparr>, Complete 7]"
proof -
  have "buffer_wf (append_buf (buffer_new init_size) ''llo'')" "peek (append_buf (buffer_new init_size) ''llo'') = ''llo''"
    by (simp_all add: append_buf_wf append_buf_peek buffer_new_wf buffer_new_peek)
  then show ?thesis
    by (simp add: sample_conn_def sample_ops_def conn_new_def send_def send_file_def update_ttl_timer_def
        send_in_loop_def send_file_in_loop_def send_queue_is_empty_def conn_write_Done bytes_at_def
        set_send_complete_handler_def queue_rel_def queues_hold_def)
qed

lemma sample_conn_state: "state sample_conn = Connected" "wire sample_conn = map Byte ''he''"
  by (simp_all add: sample_conn_def sample_ops_def conn_new_def send_def send_file_def update_ttl_timer_def
      send_in_loop_def send_file_in_loop_def send_queue_is_empty_def conn_write_Done bytes_at_def
      set_send_complete_handler_def)


theorem handle_write_delivers_all_witness:
  "wire ((handle_write (\<lambda>_. ''wxyz'') (\<lambda>_ c. c) (Done 100) (Done 100) ^^ 3) sample_conn) =
   map Byte ''helloxy'' @ [Called 7]"
  using handle_write_delivers_all [OF sample_conn_rel, of 100 "\<lambda>_. ''wxyz''"]
  by (simp add: readable_files_def file_bytes_def sample_conn_state Let_def numeral_3_eq_3)

theorem send_eagain_shifts_witness:
  "peek (output_buf (send_in_loop NUL Again ''abc'' (conn_new 9 timer_new :: nat conn))) = NUL # ''ab''"
  using send_eagain_shifts [of "conn_new 9 timer_new :: nat conn" "''abc''" NUL]
  by (simp add: conn_new_def send_queue_is_empty_def buffer_new_wf buffer_new_peek)

theorem closed_is_final_witness:
  "state (conn_exec (\<lambda>_. []) (0, Send NUL (Done 2) ''hello'') (close (conn_new 9 timer_new :: nat conn))) = Closed"
  using closed_is_final [of "close (conn_new 9 timer_new :: nat conn)" "\<lambda>_. []" "(0, Send NUL (Done 2) ''hello'')"]
  by (simp add: close_def handle_close_def conn_new_def send_queue_is_empty_def lifecycle_def)

theorem one_idle_timer_witness:
  "ttl_ok (fold (conn_exec (\<lambda>_. [])) [(0, SetTtl 50), (10, Send NUL (Done 5) ''hello'')] (conn_new 9 timer_new :: nat conn))"
  by (rule one_idle_timer) (simp_all add: timer_new_invar, simp add: timer_new_def)

end
