(* ===== verification/Base64.thy ===== *)
theory Base64
  imports Prelude
begin

unbundle bit_operations_syntax

text \<open>
  \<^verbatim>\<open>src/base64.cc\<close>: the encoder with its three variants and the tolerant decoder. The decoder looks
  characters up in a table in which zero means "not in the alphabet"; the code of \<^verbatim>\<open>A\<close> is zero,
  too, so this letter is skipped like an invalid character. The round trip is shown for texts
  whose encoding has no \<^verbatim>\<open>A\<close>, and that the decoder ignores every \<^verbatim>\<open>A\<close>.
\<close>

section \<open>Encoding\<close>

datatype Encode = Standard | Mime | UrlSafe

definition standard_alphabet :: string where
  "standard_alphabet = ''ABCDEFGHIJKLMNOPQRSTUVWXYZabcdefghijklmnopqrstuvwxyz0123456789+/''"

definition url_safe_alphabet :: string where
  "url_safe_alphabet = ''ABCDEFGHIJKLMNOPQRSTUVWXYZabcdefghijklmnopqrstuvwxyz0123456789-_''"

definition alphabet :: "Encode \<Rightarrow> string" where
  "alphabet code = (if code = UrlSafe then url_safe_alphabet else standard_alphabet)"

definition max_line_limit :: nat where
  "max_line_limit = 76"

text \<open>The indices of the code: \<open>a\<close>, \<open>b\<close> and \<open>c\<close> are the \<^verbatim>\<open>unsigned char\<close> values of three bytes.\<close>

definition sextet0 :: "u8 \<Rightarrow> u8" where "sextet0 a = drop_bit 2 a"
definition sextet1 :: "u8 \<Rightarrow> u8 \<Rightarrow> u8" where "sextet1 a b = (push_bit 4 (a AND 0x03)) OR (drop_bit 4 b)"
definition sextet2 :: "u8 \<Rightarrow> u8 \<Rightarrow> u8" where "sextet2 b c = (push_bit 2 (b AND 0x0F)) OR (drop_bit 6 c)"
definition sextet3 :: "u8 \<Rightarrow> u8" where "sextet3 c = c AND 0x3F"

definition sextet1_last :: "u8 \<Rightarrow> u8" where "sextet1_last a = push_bit 4 (a AND 0x03)"
definition sextet2_last :: "u8 \<Rightarrow> u8" where "sextet2_last b = push_bit 2 (b AND 0x0F)"

definition b64char :: "Encode \<Rightarrow> u8 \<Rightarrow> char" where
  "b64char code w = alphabet code ! unat w"

fun encode_loop :: "Encode \<Rightarrow> nat \<Rightarrow> string \<Rightarrow> string" where
  "encode_loop code j (x # y # z # rest) =
     (let a = u8 x; b = u8 y; c = u8 z;
          r = map (b64char code) [sextet0 a, sextet1 a b, sextet2 b c, sextet3 c]
      in if code = Mime then
           if j + 4 = max_line_limit then r @ CRLF @ encode_loop code 0 rest
           else r @ encode_loop code (j + 4) rest
         else r @ encode_loop code j rest)"
| "encode_loop code j [x, y] =
     map (b64char code) [sextet0 (u8 x), sextet1 (u8 x) (u8 y), sextet2_last (u8 y)] @ ''=''"
| "encode_loop code j [x] = map (b64char code) [sextet0 (u8 x), sextet1_last (u8 x)] @ ''==''"
| "encode_loop code j [] = []"

definition base64_encode :: "Encode \<Rightarrow> string \<Rightarrow> string" where
  "base64_encode code data = (if data = [] then [] else encode_loop code 0 data)"

section \<open>Decoding\<close>

text \<open>The tables, without their upper half of zeros.\<close>

definition standard_mapchars :: "u8 list" where
  "standard_mapchars =
    [0, 0, 0, 0, 0, 0, 0, 0,
     0, 0, 0, 0, 0, 0, 0, 0,
     0, 0, 0, 0, 0, 0, 0, 0,
     0, 0, 0, 0, 0, 0, 0, 0,
     0, 0, 0, 0, 0, 0, 0, 0,
     0, 0, 0, 62, 0, 0, 0, 63,
     52, 53, 54, 55, 56, 57, 58, 59,
     60, 61, 0, 0, 0, 0, 0, 0,
     0, 0, 1, 2, 3, 4, 5, 6,
     7, 8, 9, 10, 11, 12, 13, 14,
     15, 16, 17, 18, 19, 20, 21, 22,
     23, 24, 25, 0, 0, 0, 0, 0,
     0, 26, 27, 28, 29, 30, 31, 32,
     33, 34, 35, 36, 37, 38, 39, 40,
     41, 42, 43, 44, 45, 46, 47, 48,
     49, 50, 51, 0, 0, 0, 0, 0]"

definition url_safe_mapchars :: "u8 list" where
  "url_safe_mapchars =
    [0, 0, 0, 0, 0, 0, 0, 0,
     0, 0, 0, 0, 0, 0, 0, 0,
     0, 0, 0, 0, 0, 0, 0, 0,
     0, 0, 0, 0, 0, 0, 0, 0,
     0, 0, 0, 0, 0, 0, 0, 0,
     0, 0, 0, 0, 0, 62, 0, 0,
     52, 53, 54, 55, 56, 57, 58, 59,
     60, 61, 0, 0, 0, 0, 0, 0,
     0, 0, 1, 2, 3, 4, 5, 6,
     7, 8, 9, 10, 11, 12, 13, 14,
     15, 16, 17, 18, 19, 20, 21, 22,
     23, 24, 25, 0, 0, 0, 0, 63,
     0, 26, 27, 28, 29, 30, 31, 32,
     33, 34, 35, 36, 37, 38, 39, 40,
     41, 42, 43, 44, 45, 46, 47, 48,
     49, 50, 51, 0, 0, 0, 0, 0]"

definition map_char :: "Encode \<Rightarrow> char \<Rightarrow> u8" where
  "map_char code ch =
     (let tab = (if code = UrlSafe then url_safe_mapchars else standard_mapchars); i = unat (u8 ch)
      in if i < length tab then tab ! i else 0)"

definition EQ :: u8 where
  "EQ = 128"

text \<open>The three result bytes for a full array \<open>c\<close>.\<close>

definition byte0 :: "u8 \<Rightarrow> u8 \<Rightarrow> u8" where "byte0 c0 c1 = (push_bit 2 c0) OR (drop_bit 4 c1)"
definition byte1 :: "u8 \<Rightarrow> u8 \<Rightarrow> u8" where "byte1 c1 c2 = (push_bit 4 c1) OR (drop_bit 2 c2)"
definition byte2 :: "u8 \<Rightarrow> u8 \<Rightarrow> u8" where "byte2 c2 c3 = (push_bit 6 c2) OR c3"

definition group_bytes :: "u8 list \<Rightarrow> string" where
  "group_bytes c = map chr8 [byte0 (c ! 0) (c ! 1), byte1 (c ! 1) (c ! 2), byte2 (c ! 2) (c ! 3)]"

text \<open>\<open>c\<close> holds the first \<^verbatim>\<open>j\<close> elements of the array.\<close>

fun decode_loop :: "Encode \<Rightarrow> u8 list \<Rightarrow> string \<Rightarrow> string \<Rightarrow> string" where
  "decode_loop code c res [] = (if c = [] then res else [])"
| "decode_loop code c res (ch # rest) =
     (let v = map_char code ch
      in if v = 0 \<and> (ch \<noteq> CHR ''='' \<or> length c < 2) then decode_loop code c res rest
         else
           let c1 = c @ [if v \<noteq> 0 then v else EQ]
           in if length c1 < 4 then decode_loop code c1 res rest
              else if c1 ! 2 = EQ \<and> c1 ! 3 \<noteq> EQ then decode_loop code [c1 ! 0, c1 ! 1, c1 ! 3] res rest
              else if c1 ! 2 = EQ then res @ take 1 (group_bytes c1)
              else if c1 ! 3 = EQ then res @ take 2 (group_bytes c1)
              else decode_loop code [] (res @ group_bytes c1) rest)"

definition base64_decode :: "Encode \<Rightarrow> string \<Rightarrow> string" where
  "base64_decode code data = (if length data < 4 then [] else decode_loop code [] [] data)"

section \<open>The alphabet and the table\<close>

lemma length_alphabet [simp]: "length (alphabet code) = 64"
  by (simp add: alphabet_def standard_alphabet_def url_safe_alphabet_def)

lemma map_char_table:
  "map (map_char Standard) standard_alphabet = map of_nat [0..<64]"
  "map (map_char UrlSafe) url_safe_alphabet = map of_nat [0..<64]"
  by code_simp+

lemma map_char_Mime: "map_char Mime = map_char Standard"
  by (rule ext) (simp add: map_char_def)

lemma map_char_alphabet: "i < 64 \<Longrightarrow> map_char code (alphabet code ! i) = of_nat i"
proof -
  assume i: "i < 64"
  have "map (map_char code) (alphabet code) = map of_nat [0..<64]"
    using map_char_table by (cases code) (simp_all add: alphabet_def map_char_Mime)
  then have "map (map_char code) (alphabet code) ! i = map of_nat [0..<64] ! i" by simp
  with i show ?thesis by simp
qed

lemma map_char_b64char: "w < 64 \<Longrightarrow> map_char code (b64char code w) = w"
proof -
  assume "w < 64"
  then have "unat w < 64" by (simp add: word_less_nat_alt)
  then show ?thesis by (simp add: b64char_def map_char_alphabet)
qed

lemma map_char_zero:
  "map (map_char Standard) [CR, LF, CHR ''='', CHR ''A''] = [0, 0, 0, 0]"
  "map (map_char UrlSafe) [CR, LF, CHR ''='', CHR ''A''] = [0, 0, 0, 0]"
  by code_simp+

lemma map_char_other: "map_char code CR = 0" "map_char code LF = 0" "map_char code CHR ''='' = 0"
  "map_char code CHR ''A'' = 0"
  using map_char_zero by (cases code; simp add: map_char_Mime)+

lemma b64char_A: "w < 64 \<Longrightarrow> b64char code w = CHR ''A'' \<longleftrightarrow> w = 0"
proof
  assume w: "w < 64" and "b64char code w = CHR ''A''"
  then show "w = 0" using map_char_b64char [OF w, of code] map_char_other(4) by metis
qed (cases code; simp add: b64char_def alphabet_def standard_alphabet_def url_safe_alphabet_def)

section \<open>Sextets\<close>

lemma word8_lt_64: "w < 64 \<longleftrightarrow> drop_bit 6 w = 0" for w :: u8
proof -
  have "w < 64 \<longleftrightarrow> unat w < 64" by (simp add: word_less_nat_alt)
  also have "\<dots> \<longleftrightarrow> unat (drop_bit 6 w) = 0"
    unfolding unat_drop_bit_eq by (simp add: drop_bit_eq_div div_eq_0_iff)
  finally show ?thesis by (simp add: unat_eq_0)
qed

lemma and_masks: "a AND 0x03 = take_bit 2 a" "a AND 0x0F = take_bit 4 a" "a AND 0x3F = take_bit 6 a" for a :: u8
  by (simp_all add: take_bit_eq_mask mask_eq_exp_minus_1)

lemma bit_ge_8: "8 \<le> n \<Longrightarrow> \<not> bit w n" for w :: u8
  using bit_imp_le_length [of w n] by auto

lemma bit_sextets:
  "bit (sextet0 a) n \<longleftrightarrow> bit a (2 + n)"
  "bit (sextet1 a b) n \<longleftrightarrow> (4 \<le> n \<and> n < 6 \<and> bit a (n - 4)) \<or> bit b (4 + n)"
  "bit (sextet2 b c) n \<longleftrightarrow> (2 \<le> n \<and> n < 6 \<and> bit b (n - 2)) \<or> bit c (6 + n)"
  "bit (sextet3 c) n \<longleftrightarrow> n < 6 \<and> bit c n"
  "bit (sextet1_last a) n \<longleftrightarrow> 4 \<le> n \<and> n < 6 \<and> bit a (n - 4)"
  "bit (sextet2_last b) n \<longleftrightarrow> 2 \<le> n \<and> n < 6 \<and> bit b (n - 2)"
  unfolding sextet0_def sextet1_def sextet2_def sextet3_def sextet1_last_def sextet2_last_def and_masks
  by (auto simp: bit_or_iff bit_push_bit_iff bit_drop_bit_eq bit_take_bit_iff simp del: add_2_eq_Suc)

lemma bit_bytes:
  "bit (byte0 c0 c1) n \<longleftrightarrow> (2 \<le> n \<and> n < 8 \<and> bit c0 (n - 2)) \<or> bit c1 (4 + n)"
  "bit (byte1 c1 c2) n \<longleftrightarrow> (4 \<le> n \<and> n < 8 \<and> bit c1 (n - 4)) \<or> bit c2 (2 + n)"
  "bit (byte2 c2 c3) n \<longleftrightarrow> (6 \<le> n \<and> n < 8 \<and> bit c2 (n - 6)) \<or> bit c3 n"
  unfolding byte0_def byte1_def byte2_def
  by (auto simp: bit_or_iff bit_push_bit_iff bit_drop_bit_eq simp del: add_2_eq_Suc)

lemma sextets_lt:
  "sextet0 a < 64" "sextet1 a b < 64" "sextet2 b c < 64" "sextet3 c < 64"
  "sextet1_last a < 64" "sextet2_last b < 64"
  unfolding word8_lt_64
  by (rule bit_word_eqI, auto simp: bit_drop_bit_eq bit_sextets bit_ge_8)+

lemma sextets_join:
  "byte0 (sextet0 a) (sextet1 a b) = a" "byte1 (sextet1 a b) (sextet2 b c) = b" "byte2 (sextet2 b c) (sextet3 c) = c"
  "byte0 (sextet0 a) (sextet1_last a) = a" "byte1 (sextet1 a b) (sextet2_last b) = b"
  by (rule bit_word_eqI, auto simp: bit_bytes bit_sextets bit_ge_8 simp del: add_2_eq_Suc)+

section \<open>Round trip\<close>

lemma EQ_sextet: "w < 64 \<Longrightarrow> w \<noteq> EQ"
  by (auto simp: EQ_def word_less_nat_alt)

text \<open>Four characters of the alphabet, none of them the one with code zero.\<close>

lemma decode_loop_group:
  assumes "list_all (\<lambda>w. w < 64 \<and> w \<noteq> 0) [w0, w1, w2, w3]"
  shows "decode_loop code [] res (map (b64char code) [w0, w1, w2, w3] @ rest) =
    decode_loop code [] (res @ group_bytes [w0, w1, w2, w3]) rest"
  using assms by (simp add: map_char_b64char Let_def EQ_sextet)

lemma decode_loop_group2:
  assumes "list_all (\<lambda>w. w < 64 \<and> w \<noteq> 0) [w0, w1, w2]"
  shows "decode_loop code [] res (map (b64char code) [w0, w1, w2] @ ''='') = res @ take 2 (group_bytes [w0, w1, w2, EQ])"
  using assms by (simp add: map_char_b64char map_char_other Let_def EQ_sextet)

lemma decode_loop_group1:
  assumes "list_all (\<lambda>w. w < 64 \<and> w \<noteq> 0) [w0, w1]"
  shows "decode_loop code [] res (map (b64char code) [w0, w1] @ ''=='') = res @ take 1 (group_bytes [w0, w1, EQ, EQ])"
  using assms by (simp add: map_char_b64char map_char_other Let_def EQ_sextet numeral_eq_Suc)

lemma decode_loop_crlf: "decode_loop code [] res (CRLF @ rest) = decode_loop code [] res rest"
  by (simp add: map_char_other)

lemma group_bytes_sextets:
  "group_bytes [sextet0 (u8 x), sextet1 (u8 x) (u8 y), sextet2 (u8 y) (u8 z), sextet3 (u8 z)] = [x, y, z]"
  "take 2 (group_bytes [sextet0 (u8 x), sextet1 (u8 x) (u8 y), sextet2_last (u8 y), v]) = [x, y]"
  "take 1 (group_bytes [sextet0 (u8 x), sextet1_last (u8 x), v, v']) = [x]"
  by (simp_all add: group_bytes_def sextets_join numeral_2_eq_2)

lemma no_A_sextets:
  "CHR ''A'' \<notin> set (map (b64char code) ws) \<Longrightarrow> list_all (\<lambda>w. w < 64) ws \<Longrightarrow> list_all (\<lambda>w. w < 64 \<and> w \<noteq> 0) ws"
proof (induction ws)
  case (Cons w ws)
  then show ?case using b64char_A [of w code] by auto
qed simp

lemma decode_encode_loop:
  "CHR ''A'' \<notin> set (encode_loop code j data) \<Longrightarrow> decode_loop code [] res (encode_loop code j data) = res @ data"
proof (induction code j data arbitrary: res rule: encode_loop.induct)
  case (1 code j x y z rest)
  let ?ws = "[sextet0 (u8 x), sextet1 (u8 x) (u8 y), sextet2 (u8 y) (u8 z), sextet3 (u8 z)]"
  define j' where "j' = (if code = Mime then if j + 4 = max_line_limit then 0 else j + 4 else j)"
  define pad where "pad = (if code = Mime \<and> j + 4 = max_line_limit then CRLF else [])"
  have e: "encode_loop code j (x # y # z # rest) = map (b64char code) ?ws @ pad @ encode_loop code j' rest"
    "pad = [] \<or> pad = CRLF" by (simp_all add: Let_def j'_def pad_def)
  have IH: "CHR ''A'' \<notin> set (encode_loop code j' rest) \<Longrightarrow>
      decode_loop code [] res (encode_loop code j' rest) = res @ rest" for res
    using 1(1) [OF refl refl refl refl] 1(2) [OF refl refl refl refl] 1(3) [OF refl refl refl refl]
    by (auto simp: j'_def split: if_splits)
  have "CHR ''A'' \<notin> set (map (b64char code) ?ws)" "CHR ''A'' \<notin> set (encode_loop code j' rest)"
    using 1(4) e(1) by auto
  then have "decode_loop code [] res (encode_loop code j (x # y # z # rest)) =
      decode_loop code [] (res @ [x, y, z]) (pad @ encode_loop code j' rest)"
    unfolding e(1) using decode_loop_group no_A_sextets [of code ?ws] group_bytes_sextets(1) sextets_lt
    by simp
  also have "\<dots> = res @ x # y # z # rest"
    using e(2) IH [of "res @ [x, y, z]"] decode_loop_crlf \<open>CHR ''A'' \<notin> set (encode_loop code j' rest)\<close> by auto
  finally show ?case .
next
  case (2 code j x y)
  let ?ws = "[sextet0 (u8 x), sextet1 (u8 x) (u8 y), sextet2_last (u8 y)]"
  have "list_all (\<lambda>w. w < 64 \<and> w \<noteq> 0) ?ws"
    using 2 by (intro no_A_sextets [of code]) (auto simp: sextets_lt)
  from decode_loop_group2 [OF this] show ?case using group_bytes_sextets(2) by simp
next
  case (3 code j x)
  let ?ws = "[sextet0 (u8 x), sextet1_last (u8 x)]"
  have "list_all (\<lambda>w. w < 64 \<and> w \<noteq> 0) ?ws"
    using 3 by (intro no_A_sextets [of code]) (auto simp: sextets_lt)
  from decode_loop_group1 [OF this] show ?case using group_bytes_sextets(3) by simp
qed simp

lemma length_encode_loop: "data \<noteq> [] \<Longrightarrow> 4 \<le> length (encode_loop code j data)"
  by (induction code j data rule: encode_loop.induct) (auto simp: Let_def)

text \<open>Characters outside of the table, and \<^verbatim>\<open>A\<close>, make no difference.\<close>

lemma decode_loop_ignores:
  "decode_loop code c res (filter (\<lambda>ch. map_char code ch \<noteq> 0 \<or> ch = CHR ''='') data) = decode_loop code c res data"
  by (induction data arbitrary: c res) (simp_all add: Let_def)

lemma base64_decode_encode:
  assumes "CHR ''A'' \<notin> set (base64_encode code data)"
  shows "base64_decode code (base64_encode code data) = data"
proof (cases "data = []")
  case False
  then show ?thesis
    using assms decode_encode_loop [of code 0 data "[]"] length_encode_loop [OF False, of code 0]
    by (simp add: base64_encode_def base64_decode_def)
qed (simp add: base64_encode_def base64_decode_def)

section \<open>Properties\<close>

text \<open>
  C13: decoding what was encoded gives the data back, for the standard, the URL safe and the MIME
  variant with its line breaks, provided the encoded text has no letter \<^verbatim>\<open>A\<close>.
\<close>

theorem base64_roundtrip:
  assumes "CHR ''A'' \<notin> set (base64_encode code data)"
  shows "base64_decode code (base64_encode code data) = data"
  using assms by (rule base64_decode_encode)

text \<open>
  The letter \<^verbatim>\<open>A\<close>, the first one of the alphabet, is skipped by the decoder like a character that
  is not in the alphabet, so three zero bytes, encoded as \<^verbatim>\<open>AAAA\<close>, are decoded to nothing.
\<close>

theorem base64_decode_skips_A:
  "decode_loop code c res (filter (\<lambda>ch. ch \<noteq> CHR ''A'') data) = decode_loop code c res data \<and>
   base64_encode Standard [NUL, NUL, NUL] = ''AAAA'' \<and> base64_decode Standard ''AAAA'' = []"
proof -
  have "filter (\<lambda>ch. map_char code ch \<noteq> 0 \<or> ch = CHR ''='') (filter (\<lambda>ch. ch \<noteq> CHR ''A'') data) =
      filter (\<lambda>ch. map_char code ch \<noteq> 0 \<or> ch = CHR ''='') data"
    by (auto simp: map_char_other intro!: filter_cong)
  then have "decode_loop code c res (filter (\<lambda>ch. ch \<noteq> CHR ''A'') data) = decode_loop code c res data"
    using decode_loop_ignores [of code c res data]
      decode_loop_ignores [of code c res "filter (\<lambda>ch. ch \<noteq> CHR ''A'') data"] by argo
  moreover have "base64_encode Standard [NUL, NUL, NUL] = ''AAAA''" "base64_decode Standard ''AAAA'' = []"
    by (simp_all add: base64_encode_def base64_decode_def Let_def map_char_other u8_def b64char_def alphabet_def
        standard_alphabet_def sextet0_def sextet1_def sextet2_def sextet3_def)
  ultimately show ?thesis by simp
qed

theorem base64_roundtrip_witness: "base64_decode Mime (base64_encode Mime ''hello'') = ''hello''"
proof (rule base64_roundtrip)
  show "CHR ''A'' \<notin> set (base64_encode Mime ''hello'')" 
    by (simp add: base64_encode_def max_line_limit_def Let_def u8_def b64char_def alphabet_def standard_alphabet_def
        sextet0_def sextet1_def sextet2_def sextet3_def sextet1_last_def sextet2_last_def)
qed

end
