(* ===== verification/Sha1.thy ===== *)
theory Sha1
  imports Prelude
begin

unbundle bit_operations_syntax

text \<open>
  \<^verbatim>\<open>class sha1\<close> (\<^verbatim>\<open>include/angel/sha1.h\<close>, \<^verbatim>\<open>src/sha1.cc\<close>): the streaming SHA-1 digest. The model follows the
  code: 80 unrolled rounds that fill the schedule on the way, the padding of the last block from
  the bytes kept in \<^verbatim>\<open>buf\<close>, and the byte count \<^verbatim>\<open>payload\<close>. The specification is the one of FIPS 180-4:
  pad the message, cut it into blocks, expand each block to a schedule, fold the compression
  function. They agree when every update starts on a block boundary; otherwise \<^verbatim>\<open>payload\<close> is too small.
\<close>

section \<open>The code\<close>

type_synonym hash = "u32 \<times> u32 \<times> u32 \<times> u32 \<times> u32"

definition ChunkBytes :: nat where
  "ChunkBytes = 64"

definition rls :: "u32 \<Rightarrow> nat \<Rightarrow> u32" where
  "rls x n = (push_bit n x) OR (drop_bit (32 - n) x)"

text \<open>The selection of the macros \<^verbatim>\<open>round1\<close> to \<^verbatim>\<open>round5\<close> by the number of the round.\<close>

definition round_f :: "nat \<Rightarrow> u32 \<Rightarrow> u32 \<Rightarrow> u32 \<Rightarrow> u32" where
  "round_f i b c d =
     (if i < 20 then (b AND c) XOR (NOT b AND d)
      else if i < 40 then b XOR c XOR d
      else if i < 60 then (b AND c) XOR (b AND d) XOR (c AND d)
      else b XOR c XOR d)"

definition round_k :: "nat \<Rightarrow> u32" where
  "round_k i = (if i < 20 then 0x5A827999 else if i < 40 then 0x6ED9EBA1 else if i < 60 then 0x8F1BBCDC else 0xCA62C1D6)"

definition round_w :: "string \<Rightarrow> nat \<Rightarrow> u32 list \<Rightarrow> u32" where
  "round_w chunk i w =
     (if i < 16 then rd32 (take 4 (drop (4 * i) chunk))
      else rls ((w ! (i - 3)) XOR (w ! (i - 8)) XOR (w ! (i - 14)) XOR (w ! (i - 16))) 1)"

definition round :: "string \<Rightarrow> nat \<Rightarrow> hash \<times> u32 list \<Rightarrow> hash \<times> u32 list" where
  "round chunk i st =
     (let ((a, b, c, d, e), w) = st;
          f = round_f i b c d;
          wi = round_w chunk i w;
          t = rls a 5 + f + e + round_k i + wi
      in ((t, a, rls b 30, c, d), w @ [wi]))"

definition hash_add :: "hash \<Rightarrow> hash \<Rightarrow> hash" where
  "hash_add h k =
     (let (h0, h1, h2, h3, h4) = h; (a, b, c, d, e) = k in (h0 + a, h1 + b, h2 + c, h3 + d, h4 + e))"

definition chunk_cal1 :: "string \<Rightarrow> hash \<Rightarrow> hash" where
  "chunk_cal1 chunk h = hash_add h (fst (fold (round chunk) [0..<80] (h, [])))"

record sha1 =
  hs :: hash
  payload :: nat
  sbuf :: string

definition sha1_iv :: hash where
  "sha1_iv = (0x67452301, 0xEFCDAB89, 0x98BADCFE, 0x10325476, 0xC3D2E1F0)"

definition sha1_new :: sha1 where
  "sha1_new = \<lparr>hs = sha1_iv, payload = 0, sbuf = []\<rparr>"

definition sha1_init :: "sha1 \<Rightarrow> sha1" where
  "sha1_init s = s\<lparr>hs := sha1_iv, payload := 0\<rparr>"

definition chunk_cal :: "string \<Rightarrow> nat \<Rightarrow> sha1 \<Rightarrow> sha1" where
  "chunk_cal data chunks s =
     s\<lparr>hs := fold (\<lambda>i h. chunk_cal1 (take ChunkBytes (drop (ChunkBytes * i) data)) h) [0..<chunks] (hs s)\<rparr>"

text \<open>
  \<^verbatim>\<open>padding\<close>: how many zeros, how many bytes of data are left for the last block or two, and the result
  for the bytes \<open>tail\<close> that end at \<^verbatim>\<open>endptr\<close>; \<open>None\<close> if the code reads in front of them, if the length given to
  \<^verbatim>\<open>append\<close> is negative (which throws \<^verbatim>\<open>std::length_error\<close>), or if the \<^verbatim>\<open>Assert\<close> fails.
\<close>

definition padding_k :: "nat \<Rightarrow> nat" where
  "padding_k n = (if ((n + 1) * 8) mod 512 \<le> 448 then 0 else 1)"

definition padding_zeros :: "nat \<Rightarrow> nat" where
  "padding_zeros n = (padding_k n * 512 + 448 - ((n + 1) * 8) mod 512) div 8"

definition remain_bytes :: "nat \<Rightarrow> int" where
  "remain_bytes n = int (ChunkBytes * (padding_k n + 1)) - int (1 + padding_zeros n + 8)"

definition padding :: "string \<Rightarrow> nat \<Rightarrow> string option" where
  "padding tail n =
     (if remain_bytes n < 0 \<or> int (length tail) < remain_bytes n then None
      else
        let buf = drop (length tail - nat (remain_bytes n)) tail @ [CHR 0x80] @ replicate (padding_zeros n) NUL
                  @ be64 (of_nat (n * 8))
        in if length buf mod ChunkBytes = 0 then Some buf else None)"

definition final_cal :: "sha1 \<Rightarrow> sha1 option" where
  "final_cal s =
     (case padding (sbuf s) (payload s) of
        None \<Rightarrow> None
      | Some buf \<Rightarrow> Some ((chunk_cal buf (length buf div ChunkBytes) s)\<lparr>sbuf := []\<rparr>))"

definition update :: "string \<Rightarrow> sha1 \<Rightarrow> sha1" where
  "update data0 s =
     (let len = min (ChunkBytes - length (sbuf s)) (length data0);
          (s1, data) =
            (if sbuf s \<noteq> [] then
               let s' = s\<lparr>sbuf := sbuf s @ take len data0\<rparr>;
                   s'' = (if length (sbuf s') = ChunkBytes then (chunk_cal (sbuf s') 1 s')\<lparr>sbuf := []\<rparr> else s')
               in (s'', drop len data0)
             else (s, data0));
          chunks = length data div ChunkBytes;
          remain = length data mod ChunkBytes;
          s2 = chunk_cal data chunks s1;
          s3 = (if remain > 0 then s2\<lparr>sbuf := sbuf s2 @ drop (length data - remain) data\<rparr> else s2)
      in s3\<lparr>payload := payload s3 + length data\<rparr>)"

definition hash_list :: "hash \<Rightarrow> u32 list" where
  "hash_list h = (let (h0, h1, h2, h3, h4) = h in [h0, h1, h2, h3, h4])"

definition digest :: "sha1 \<Rightarrow> (string \<times> sha1) option" where
  "digest s =
     (case final_cal s of
        None \<Rightarrow> None
      | Some s1 \<Rightarrow> Some (concat (map be32 (hash_list (hs s1))), sha1_init s1))"

definition tohex :: string where
  "tohex = ''0123456789ABCDEF''"

definition hex_word :: "u32 \<Rightarrow> string" where
  "hex_word w = map (\<lambda>k. tohex ! unat (drop_bit (4 * k) w AND 0x0f)) [7, 6, 5, 4, 3, 2, 1, 0]"

definition hex_digest :: "sha1 \<Rightarrow> (string \<times> sha1) option" where
  "hex_digest s =
     (case final_cal s of
        None \<Rightarrow> None
      | Some s1 \<Rightarrow> Some (concat (map hex_word (hash_list (hs s1))), sha1_init s1))"

section \<open>The specification\<close>

definition sha1_pad :: "string \<Rightarrow> string" where
  "sha1_pad m = m @ [CHR 0x80] @ replicate ((55 + 64 - length m mod 64) mod 64) NUL @ be64 (of_nat (8 * length m))"

fun blocks :: "string \<Rightarrow> string list" where
  "blocks m = (if length m < 64 then [] else take 64 m # blocks (drop 64 m))"

declare blocks.simps [simp del]

fun schedule :: "string \<Rightarrow> nat \<Rightarrow> u32" where
  "schedule block t =
     (if t < 16 then rd32 (take 4 (drop (4 * t) block))
      else word_rotl 1 (schedule block (t - 3) XOR schedule block (t - 8) XOR schedule block (t - 14) XOR
        schedule block (t - 16)))"

declare schedule.simps [simp del]

definition spec_f :: "nat \<Rightarrow> u32 \<Rightarrow> u32 \<Rightarrow> u32 \<Rightarrow> u32" where
  "spec_f t x y z =
     (if t < 20 then (x AND y) XOR (NOT x AND z)
      else if 40 \<le> t \<and> t < 60 then (x AND y) XOR (x AND z) XOR (y AND z)
      else x XOR y XOR z)"

definition spec_k :: "nat \<Rightarrow> u32" where
  "spec_k t = [0x5a827999, 0x6ed9eba1, 0x8f1bbcdc, 0xca62c1d6] ! (t div 20)"

definition spec_step :: "string \<Rightarrow> nat \<Rightarrow> hash \<Rightarrow> hash" where
  "spec_step block t h =
     (let (a, b, c, d, e) = h
      in (word_rotl 5 a + spec_f t b c d + e + spec_k t + schedule block t, a, word_rotl 30 b, c, d))"

definition compress :: "string \<Rightarrow> hash \<Rightarrow> hash" where
  "compress block h = hash_add h (fold (spec_step block) [0..<80] h)"

definition sha1_spec :: "string \<Rightarrow> string" where
  "sha1_spec m = concat (map be32 (hash_list (fold compress (blocks (sha1_pad m)) sha1_iv)))"

section \<open>One block\<close>

lemma rls_rotl:
  assumes "0 < n" and "n < 32"
  shows "rls x n = word_rotl n x"
proof (rule bit_word_eqI)
  fix m
  assume "m < LENGTH(32)"
  then have m: "m < 32" by simp
  have idx: "(m + (32 - n)) mod 32 = (if m < n then m + (32 - n) else m - n)"
    using assms m by (simp add: le_mod_geq)
  have "bit (word_rotl n x) m \<longleftrightarrow> bit x (if m < n then m + (32 - n) else m - n)"
    unfolding bit_word_rotl_iff using assms m idx by simp
  moreover have "bit (rls x n) m \<longleftrightarrow> (n \<le> m \<and> bit x (m - n)) \<or> bit x (m + (32 - n))"
    using m by (simp add: rls_def bit_or_iff bit_push_bit_iff bit_drop_bit_eq add.commute)
  moreover have "n \<le> m \<Longrightarrow> \<not> bit x (m + (32 - n))"
    using bit_imp_le_length [of x "m + (32 - n)"] assms by auto
  ultimately show "bit (rls x n) m = bit (word_rotl n x) m" by auto
qed

lemma round_f_spec: "round_f i b c d = spec_f i b c d"
  by (simp add: round_f_def spec_f_def)

lemma round_k_spec: "i < 80 \<Longrightarrow> round_k i = spec_k i"
proof -
  assume "i < 80"
  then consider "i < 20" | "20 \<le> i" "i < 40" | "40 \<le> i" "i < 60" | "60 \<le> i" "i < 80" by linarith
  then show ?thesis
  proof cases
    case 2
    then have "i div 20 = 1" by (intro div_nat_eqI) simp_all
    with 2 show ?thesis by (simp add: round_k_def spec_k_def)
  next
    case 3
    then have "i div 20 = 2" by (intro div_nat_eqI) simp_all
    with 3 show ?thesis by (simp add: round_k_def spec_k_def)
  next
    case 4
    then have "i div 20 = 3" by (intro div_nat_eqI) simp_all
    with 4 show ?thesis by (simp add: round_k_def spec_k_def)
  qed (simp add: round_k_def spec_k_def)
qed

lemma round_w_spec: "round_w chunk i (map (schedule chunk) [0..<i]) = schedule chunk i"
  by (auto simp: round_w_def schedule.simps [of chunk i] rls_rotl)

lemma round_spec:
  "n < 80 \<Longrightarrow> round chunk n (h, map (schedule chunk) [0..<n]) = (spec_step chunk n h, map (schedule chunk) [0..<Suc n])"
  using round_w_spec [of chunk n]
  by (cases h) (simp add: round_def spec_step_def round_f_spec round_k_spec rls_rotl Let_def)

lemma rounds_spec:
  "n \<le> 80 \<Longrightarrow> fold (round chunk) [0..<n] (h, []) = (fold (spec_step chunk) [0..<n] h, map (schedule chunk) [0..<n])"
proof (induction n)
  case (Suc n)
  have "fold (round chunk) [0..<Suc n] (h, []) = round chunk n (fold (round chunk) [0..<n] (h, []))" by simp
  also have "\<dots> = (spec_step chunk n (fold (spec_step chunk) [0..<n] h), map (schedule chunk) [0..<Suc n])"
    using Suc round_spec [of n chunk] by simp
  finally show ?case by simp
qed simp

lemma chunk_cal1_compress: "chunk_cal1 chunk h = compress chunk h"
  by (simp add: chunk_cal1_def compress_def rounds_spec)

section \<open>Blocks\<close>

lemma blocks_short: "length m < 64 \<Longrightarrow> blocks m = []"
  by (simp add: blocks.simps [of m])

lemma blocks_step: "64 \<le> length m \<Longrightarrow> blocks m = take 64 m # blocks (drop 64 m)"
  by (simp add: blocks.simps [of m])

lemma blocks_append: "length m mod 64 = 0 \<Longrightarrow> blocks (m @ x) = blocks m @ blocks x"
proof (induction m rule: blocks.induct)
  case (1 m)
  show ?case
  proof (cases "length m < 64")
    case True
    then have "m = []" using 1(2) by auto
    then show ?thesis by (simp add: blocks_short)
  next
    case False
    then have "length (drop 64 m) mod 64 = 0" using 1(2) by (simp add: le_mod_geq)
    with False 1(1) show ?thesis by (simp add: blocks_step)
  qed
qed

lemma blocks_drop_tail: "blocks m = blocks (take (64 * (length m div 64)) m)"
proof -
  let ?k = "64 * (length m div 64)"
  have "?k \<le> length m" by simp
  then have "length (take ?k m) mod 64 = 0" "length (drop ?k m) < 64"
    by (simp_all add: minus_mult_div_eq_mod)
  then have "blocks (take ?k m @ drop ?k m) = blocks (take ?k m)"
    using blocks_append [of "take ?k m" "drop ?k m"] blocks_short [of "drop ?k m"] by simp
  then show ?thesis by (simp only: append_take_drop_id)
qed

lemma chunk_cal_blocks:
  "n = length data div 64 \<Longrightarrow> hs (chunk_cal data n s) = fold compress (blocks data) (hs s)"
proof (induction n arbitrary: data s)
  case 0
  then show ?case by (simp add: chunk_cal_def blocks_short div_eq_0_iff)
next
  case (Suc n)
  then have ge: "64 \<le> length data" by (cases "length data < 64") auto
  then have len: "64 \<le> length data" "n = length (drop 64 data) div 64"
    using Suc.prems by (simp_all add: le_div_geq)
  have upt: "[0..<Suc n] = 0 # map Suc [0..<n]" by (simp add: upt_conv_Cons map_Suc_upt del: upt_Suc)
  have "hs (chunk_cal data (Suc n) s) = hs (chunk_cal (drop 64 data) n (s\<lparr>hs := compress (take 64 data) (hs s)\<rparr>))"
    unfolding chunk_cal_def upt by (simp add: chunk_cal1_compress ChunkBytes_def fold_map comp_def algebra_simps)
  also have "\<dots> = fold compress (blocks data) (hs s)"
    using Suc.IH [OF len(2)] blocks_step [OF len(1)] by simp
  finally show ?case .
qed

section \<open>Padding\<close>

lemma pad_mod: "q < 64 \<Longrightarrow> (55 + 64 - q) mod 64 = (if q < 56 then 55 - q else 119 - q)" for q :: nat
  by (cases "q < 56") (simp_all add: le_mod_geq)

lemma padding_bits: "((n + 1) * 8) mod 512 = (if n mod 64 = 63 then 0 else (n mod 64 + 1) * 8)" for n :: nat
proof -
  have "((n + 1) * 8) mod 512 = 8 * ((n + 1) mod 64)"
    using mod_mult_mult1 [of 8 "n + 1" 64] by (simp add: mult.commute)
  then show ?thesis by (auto simp: mod_Suc)
qed

lemma padding_counts:
  assumes "n mod 64 \<noteq> 63"
  shows "padding_zeros n = (55 + 64 - n mod 64) mod 64" "remain_bytes n = int (n mod 64)"
proof -
  define q where "q = n mod 64"
  have r: "((n + 1) * 8) mod 512 = (q + 1) * 8" and q: "q < 63"
    using assms padding_bits [of n] mod_less_divisor [of 64 n] unfolding q_def by (simp, linarith)
  have "padding_zeros n = (55 + 64 - q) mod 64 \<and> remain_bytes n = int q"
  proof (cases "q \<le> 55")
    case True
    then have "padding_k n = 0" unfolding padding_k_def r by simp
    moreover have "440 - q * 8 = (55 - q) * 8" "(119 - q) mod 64 = 55 - q" using True by (simp_all add: le_mod_geq)
    ultimately show ?thesis
      using True unfolding padding_zeros_def remain_bytes_def r by (simp add: ChunkBytes_def)
  next
    case False
    then have "padding_k n = 1" unfolding padding_k_def r by simp
    moreover have "952 - q * 8 = (119 - q) * 8" "(119 - q) mod 64 = 119 - q" using False q by simp_all
    ultimately show ?thesis
      using False q unfolding padding_zeros_def remain_bytes_def r by (simp add: ChunkBytes_def)
  qed
  then show "padding_zeros n = (55 + 64 - n mod 64) mod 64" "remain_bytes n = int (n mod 64)"
    by (simp_all add: q_def)
qed

text \<open>For 63 bytes in the last block the code takes one block for what needs two.\<close>

lemma padding_fails: "n mod 64 = 63 \<Longrightarrow> remain_bytes n = -1"
  using padding_bits [of n] unfolding remain_bytes_def padding_zeros_def padding_k_def
  by (simp add: ChunkBytes_def)

section \<open>Streaming\<close>

text \<open>The state after the bytes \<open>m\<close>: full blocks are in the hash, the rest is in \<open>sbuf\<close>.\<close>

definition sha1_rel :: "sha1 \<Rightarrow> string \<Rightarrow> bool" where
  "sha1_rel s m \<longleftrightarrow> hs s = fold compress (blocks m) sha1_iv \<and> sbuf s = drop (64 * (length m div 64)) m \<and>
     payload s = length m"

lemma sha1_rel_new: "sha1_rel sha1_new []"
  by (simp add: sha1_rel_def sha1_new_def blocks_short)

lemma chunk_cal_fields [simp]: "sbuf (chunk_cal d n s) = sbuf s" "payload (chunk_cal d n s) = payload s"
  by (simp_all add: chunk_cal_def)

lemma update_aligned:
  assumes "sha1_rel s m" and "length m mod 64 = 0"
  shows "sha1_rel (update data s) (m @ data)"
proof -
  have buf: "sbuf s = []" using assms by (auto simp: sha1_rel_def)
  let ?n = "length data div 64"
  have tail: "drop (length data - length data mod 64) data = drop (64 * ?n) data"
    by (simp add: minus_mod_eq_mult_div)
  have "hs (update data s) = fold compress (blocks data) (hs s)"
    using buf chunk_cal_blocks [of ?n data s] by (simp add: update_def Let_def ChunkBytes_def)
  moreover have "sbuf (update data s) = drop (64 * ?n) data"
    using buf tail by (simp add: update_def Let_def ChunkBytes_def) (metis append_Nil2 drop_all le_refl minus_mod_eq_mult_div minus_nat.diff_0)
  moreover have "payload (update data s) = length m + length data"
    using buf assms(1) by (simp add: update_def Let_def ChunkBytes_def sha1_rel_def)
  moreover have "blocks (m @ data) = blocks m @ blocks data" by (rule blocks_append [OF assms(2)])
  moreover have "drop (64 * (length (m @ data) div 64)) (m @ data) = drop (64 * ?n) data"
  proof -
    obtain k where k: "length m = 64 * k" using assms(2) by auto
    then have "64 * (length (m @ data) div 64) = length m + 64 * ?n" by simp
    then show ?thesis by simp
  qed
  ultimately show ?thesis using assms(1) by (simp add: sha1_rel_def)
qed

lemma final_cal_spec:
  assumes "sha1_rel s m" and "length m mod 64 \<noteq> 63"
  shows "\<exists>s'. final_cal s = Some s' \<and> hs s' = fold compress (blocks (sha1_pad m)) sha1_iv \<and> sbuf s' = []"
proof -
  let ?k = "64 * (length m div 64)"
  define buf where "buf = sbuf s @ [CHR 0x80] @ replicate (padding_zeros (length m)) NUL @ be64 (of_nat (length m * 8))"
  have len: "length (sbuf s) = length m mod 64"
    using assms by (simp add: sha1_rel_def minus_mult_div_eq_mod)
  have z: "length m mod 64 + (1 + (padding_zeros (length m) + 8)) = (if length m mod 64 < 56 then 64 else 128)"
  proof -
    define q where "q = length m mod 64"
    have "q < 64" by (simp add: q_def)
    then show ?thesis
      unfolding padding_counts [OF assms(2)] q_def [symmetric] using pad_mod [of q] by auto
  qed
  have mod0: "length buf mod 64 = 0" using z len by (auto simp: buf_def split: if_splits)
  have pad: "padding (sbuf s) (payload s) = Some buf"
    using assms len mod0 by (simp add: padding_def padding_counts(2) [OF assms(2)] sha1_rel_def buf_def ChunkBytes_def)
  have split: "sha1_pad m = take ?k m @ buf"
    using assms by (simp add: sha1_pad_def buf_def padding_counts [OF assms(2)] sha1_rel_def mult.commute)
  have "length (take ?k m) mod 64 = 0" by (simp add: min_absorb2)
  then have "blocks (sha1_pad m) = blocks (take ?k m) @ blocks buf" unfolding split by (rule blocks_append)
  moreover have "blocks (take ?k m) = blocks m" using blocks_drop_tail by simp
  ultimately have "fold compress (blocks buf) (hs s) = fold compress (blocks (sha1_pad m)) sha1_iv"
    using assms by (simp add: sha1_rel_def)
  then show ?thesis
    using pad chunk_cal_blocks [of "length buf div 64" buf s] by (simp add: final_cal_def ChunkBytes_def)
qed

lemma fold_update_aligned:
  "sha1_rel s m \<Longrightarrow> length m mod 64 = 0 \<Longrightarrow> \<forall>d \<in> set ds. length d mod 64 = 0 \<Longrightarrow>
   sha1_rel (fold update ds s) (m @ concat ds) \<and> length (m @ concat ds) mod 64 = 0"
proof (induction ds arbitrary: s m)
  case (Cons d ds)
  then have "sha1_rel (update d s) (m @ d)" "length (m @ d) mod 64 = 0"
    using update_aligned by (auto simp: mod_add_eq [symmetric])
  from Cons.IH [OF this] Cons.prems(3) show ?case by simp
qed simp

lemma digest_spec:
  assumes "sha1_rel s m" and "length m mod 64 \<noteq> 63"
  shows "digest s = Some (sha1_spec m, sha1_new)"
proof -
  obtain s' where "final_cal s = Some s'" "hs s' = fold compress (blocks (sha1_pad m)) sha1_iv" "sbuf s' = []"
    using final_cal_spec [OF assms] by blast
  then show ?thesis by (simp add: digest_def sha1_spec_def sha1_init_def sha1_new_def)
qed

lemma digest_cong:
  assumes "hs s = hs t" and "padding (sbuf s) (payload s) = padding (sbuf t) (payload t)"
  shows "digest s = digest t"
  using assms by (cases "padding (sbuf t) (payload t)") (simp_all add: digest_def final_cal_def chunk_cal_def sha1_init_def)

section \<open>Properties\<close>


text \<open>
  For a message of 63 bytes modulo 64 there is no digest: the padding computes one block where
  two are needed, and a negative number of bytes to copy.
\<close>

theorem sha1_63_fails:
  assumes "length m mod 64 = 63"
  shows "digest (update m sha1_new) = None"
proof -
  have "sha1_rel (update m sha1_new) m" using update_aligned [OF sha1_rel_new] by simp
  then have "payload (update m sha1_new) = length m" by (simp add: sha1_rel_def)
  then show ?thesis using padding_fails [OF assms] by (simp add: digest_def final_cal_def padding_def)
qed

text \<open>
  Pieces that do not end on a block boundary are not digested correctly: bytes that complete a
  buffered piece are not counted. After two pieces of the same length, together less than a
  block, the digest is the one of the second piece alone.
\<close>

theorem sha1_split_wrong:
  assumes "x \<noteq> []" and "length y = length x" and "2 * length x < 64"
  shows "digest (update y (update x sha1_new)) = Some (sha1_spec y, sha1_new)"
proof -
  have x: "update x sha1_new = \<lparr>hs = sha1_iv, payload = length x, sbuf = x\<rparr>"
    using assms by (simp add: update_def sha1_new_def ChunkBytes_def chunk_cal_def Let_def)
  have xy: "update y (update x sha1_new) = \<lparr>hs = sha1_iv, payload = length x, sbuf = x @ y\<rparr>"
  proof -
    have "min (ChunkBytes - length x) (length y) = length y" "length x + length y \<noteq> ChunkBytes"
      using assms by (simp_all add: ChunkBytes_def)
    then show ?thesis unfolding x using assms(1) by (simp add: update_def chunk_cal_def Let_def)
  qed
  have y: "update y sha1_new = \<lparr>hs = sha1_iv, payload = length y, sbuf = y\<rparr>"
    using assms by (auto simp: update_def sha1_new_def ChunkBytes_def chunk_cal_def Let_def)
  have n: "length x mod 64 \<noteq> 63" "remain_bytes (length x) = int (length x)"
    using assms padding_counts(2) [of "length x"] by simp_all
  have "padding (x @ y) (length x) = padding y (length y)"
    unfolding padding_def assms(2) n(2) by (simp add: assms(2))
  then have "digest (update y (update x sha1_new)) = digest (update y sha1_new)"
    unfolding xy y by (intro digest_cong) simp_all
  also have "\<dots> = Some (sha1_spec y, sha1_new)"
    using n(1) assms update_aligned [OF sha1_rel_new, of y] by (intro digest_spec) simp_all
  finally show ?thesis .
qed


theorem sha1_63_fails_witness: "digest (update (replicate 63 NUL) sha1_new) = None"
  by (rule sha1_63_fails) simp

theorem sha1_split_wrong_witness: "digest (update ''b'' (update ''a'' sha1_new)) = Some (sha1_spec ''b'', sha1_new)"
  by (rule sha1_split_wrong) simp_all

end
