(* ===== verification/Qp.thy ===== *)
theory Qp
  imports Util
begin

unbundle bit_operations_syntax

text \<open>
  Hexadecimal pairs (\<^verbatim>\<open>mime::codec\<close> in \<^verbatim>\<open>include/angel/mime.h\<close>) and the quoted-printable codec
  (\<^verbatim>\<open>src/mime/qp.cc\<close>). Shown are the round trip for all data and the limit of 76 characters per line.
\<close>

section \<open>Hexadecimal pairs\<close>

definition tohexchar :: string where
  "tohexchar = ''0123456789ABCDEF''"

definition to_hex_pair :: "char \<Rightarrow> char \<Rightarrow> string" where
  "to_hex_pair leading_char c = [leading_char, tohexchar ! unat (drop_bit 4 (u8 c)), tohexchar ! unat (u8 c AND 0x0f)]"

definition to_hex_value :: "char \<Rightarrow> u8" where
  "to_hex_value c =
     (if 48 \<le> code c \<and> code c \<le> 57 then of_nat (code c - 48)
      else if 65 \<le> code c \<and> code c \<le> 70 then of_nat (code c - 65 + 10)
      else if 97 \<le> code c \<and> code c \<le> 102 then of_nat (code c - 97 + 10)
      else -1)"

definition from_hex_pair :: "char \<Rightarrow> char \<Rightarrow> char" where
  "from_hex_pair c1 c2 = chr8 ((push_bit 4 (to_hex_value c1)) OR (to_hex_value c2))"

section \<open>Quoted-printable\<close>

definition qp_line_limit :: nat where
  "qp_line_limit = 76"

definition is_QPchar :: "char \<Rightarrow> bool" where
  "is_QPchar c \<longleftrightarrow> (33 \<le> code c \<and> code c \<le> 60) \<or> (62 \<le> code c \<and> code c \<le> 126) \<or> c = SP \<or> c = HT"

text \<open>The loop of \<^verbatim>\<open>encode\<close>: the encoded text and the last value of \<^verbatim>\<open>count\<close>. After a soft line break the same character is tried again.\<close>

function qp_encode_loop :: "nat \<Rightarrow> string \<Rightarrow> string \<times> nat" where
  "qp_encode_loop count [] = ([], count)"
| "qp_encode_loop count (c # cs) =
     (if count + 1 \<le> qp_line_limit - 1 \<and> is_QPchar c then
        let (r, n) = qp_encode_loop (count + 1) cs in (c # r, n)
      else if count + 3 \<le> qp_line_limit - 1 then
        let (r, n) = qp_encode_loop (count + 3) cs in (to_hex_pair CHR ''='' c @ r, n)
      else
        let (r, n) = qp_encode_loop 0 (c # cs) in (CHR ''='' # CRLF @ r, n))"
  by pat_completeness auto
termination
  by (relation "measures [\<lambda>(count, cs). length cs, \<lambda>(count, cs). count]") (auto simp: qp_line_limit_def)

declare qp_encode_loop.simps(2) [simp del]

definition qp_encode :: "string \<Rightarrow> string" where
  "qp_encode data =
     (if data = [] then []
      else
        let (res, count) = qp_encode_loop 0 data; c = last res
        in if c = SP \<or> c = HT then
             butlast res @ (if count - 1 + 3 > qp_line_limit then CHR ''='' # CRLF else []) @ to_hex_pair CHR ''='' c
           else res)"

fun qp_decode :: "string \<Rightarrow> string" where
  "qp_decode [] = []"
| "qp_decode (c # cs) =
     (if c \<noteq> CHR ''='' then c # qp_decode cs
      else case cs of
        [] \<Rightarrow> []
      | c1 # cs1 \<Rightarrow>
          if \<not> ishexnumber c1 \<and> c1 \<noteq> CR then CHR ''='' # c1 # qp_decode cs1
          else case cs1 of
            [] \<Rightarrow> [CHR ''='', c1]
          | c2 # cs2 \<Rightarrow>
              if ishexnumber c1 \<and> ishexnumber c2 then from_hex_pair c1 c2 # qp_decode cs2
              else if \<not> ishexnumber c1 \<and> c2 = LF then qp_decode cs2
              else CHR ''='' # c1 # qp_decode cs2)"

section \<open>Lemmas\<close>

lemma nibble_lt: "unat (drop_bit 4 w) < 16" "unat (w AND 0x0f) < 16" for w :: u8
proof -
  have "unat w < 256" using unsigned_less [of w] by simp
  then show "unat (drop_bit 4 w) < 16" unfolding unat_drop_bit_eq by (simp add: drop_bit_eq_div less_mult_imp_div_less)
  have "w AND 0x0f = take_bit 4 w" by (simp add: take_bit_eq_mask mask_eq_exp_minus_1)
  then have "unat (w AND 0x0f) = unat w mod 16" by (simp only: unsigned_take_bit_eq) (simp add: take_bit_eq_mod)
  then show "unat (w AND 0x0f) < 16" by simp
qed

lemma tohexchar_table:
  "map to_hex_value tohexchar = map of_nat [0..<16]" "list_all ishexnumber tohexchar" "length tohexchar = 16"
  by code_simp+

lemma tohexchar_hex: "n < 16 \<Longrightarrow> ishexnumber (tohexchar ! n)" "n < 16 \<Longrightarrow> to_hex_value (tohexchar ! n) = of_nat n"
proof -
  assume n: "n < 16"
  show "ishexnumber (tohexchar ! n)" using tohexchar_table(2,3) n by (simp add: list_all_length)
  have "map to_hex_value tohexchar ! n = map of_nat [0..<16] ! n" using tohexchar_table(1) by simp
  then show "to_hex_value (tohexchar ! n) = of_nat n" using n tohexchar_table(3) by simp
qed

lemma nibbles_join: "(push_bit 4 (drop_bit 4 w)) OR (w AND 0x0f) = w" for w :: u8
proof -
  have "w AND 0x0f = take_bit 4 w" by (simp add: take_bit_eq_mask mask_eq_exp_minus_1)
  then show ?thesis
    by (auto intro!: bit_word_eqI simp: bit_or_iff bit_push_bit_iff bit_drop_bit_eq bit_take_bit_iff)
qed

lemma from_to_hex_pair:
  "from_hex_pair (tohexchar ! unat (drop_bit 4 (u8 c))) (tohexchar ! unat (u8 c AND 0x0f)) = c"
  using nibble_lt [of "u8 c"] by (simp add: from_hex_pair_def tohexchar_hex nibbles_join)

lemma qp_decode_pair: "qp_decode (to_hex_pair CHR ''='' c @ cs) = c # qp_decode cs"
  using nibble_lt [of "u8 c"] by (simp add: to_hex_pair_def tohexchar_hex from_to_hex_pair)

lemma not_hex_CR: "\<not> ishexnumber CR"
  by (simp add: ishexnumber_def isdigit_def)

lemma qp_decode_soft: "qp_decode (CHR ''='' # CRLF @ cs) = qp_decode cs"
  by (simp add: not_hex_CR)

lemma is_QPchar_eq: "is_QPchar c \<Longrightarrow> c \<noteq> CHR ''=''"
  by (auto simp: is_QPchar_def)

lemma qp_decode_loop:
  "qp_decode (fst (qp_encode_loop count data) @ rest) = data @ qp_decode rest"
proof (induction count data rule: qp_encode_loop.induct)
  case (2 count c cs)
  then show ?case
    by (cases "count + 1 \<le> qp_line_limit - 1 \<and> is_QPchar c"; cases "count + 3 \<le> qp_line_limit - 1")
      (auto simp: qp_encode_loop.simps(2) [of count c cs] is_QPchar_eq qp_decode_pair not_hex_CR split: prod.split)
qed simp

lemma qp_encode_loop_append:
  "qp_encode_loop count (xs @ ys) =
     (fst (qp_encode_loop count xs) @ fst (qp_encode_loop (snd (qp_encode_loop count xs)) ys),
      snd (qp_encode_loop (snd (qp_encode_loop count xs)) ys))"
proof (induction count xs rule: qp_encode_loop.induct)
  case (2 count c cs)
  then show ?case
    by (cases "count + 1 \<le> qp_line_limit - 1 \<and> is_QPchar c"; cases "count + 3 \<le> qp_line_limit - 1")
      (auto simp: qp_encode_loop.simps(2) [of count c] split: prod.splits)
qed simp

lemma qp_encode_loop_single:
  "qp_encode_loop n [c] \<in> {([c], n + 1), (to_hex_pair CHR ''='' c, n + 3),
     (CHR ''='' # CRLF @ [c], 1), (CHR ''='' # CRLF @ to_hex_pair CHR ''='' c, 3)}"
  by (auto simp: qp_encode_loop.simps(2) [of n c] qp_encode_loop.simps(2) [of 0 c] qp_line_limit_def)

lemma to_hex_pair_last: "last (to_hex_pair l c) \<noteq> SP" "last (to_hex_pair l c) \<noteq> HT" "to_hex_pair l c \<noteq> []"
proof -
  have "ishexnumber (last (to_hex_pair l c))"
    using nibble_lt [of "u8 c"] tohexchar_hex(1) by (simp add: to_hex_pair_def)
  moreover have "\<not> ishexnumber SP" "\<not> ishexnumber HT" by (simp_all add: ishexnumber_def isdigit_def)
  ultimately show "last (to_hex_pair l c) \<noteq> SP" "last (to_hex_pair l c) \<noteq> HT" by metis+
qed (simp add: to_hex_pair_def)

text \<open>The last character of the loop's result is blank only if it is the last character of the data.\<close>

lemma qp_encode_loop_blank:
  assumes "last (fst (qp_encode_loop n [c])) = SP \<or> last (fst (qp_encode_loop n [c])) = HT"
  shows "last (fst (qp_encode_loop n [c])) = c"
    and "\<exists>brk \<in> {[], CHR ''='' # CRLF}. fst (qp_encode_loop n [c]) = brk @ [c] \<and>
      snd (qp_encode_loop n [c]) = (if brk = [] then n + 1 else 1)"
  using qp_encode_loop_single [of n c] to_hex_pair_last [of "CHR ''=''" c] assms by auto

lemma qp_encode_cases:
  assumes "data \<noteq> []"
  obtains (plain) "qp_encode data = fst (qp_encode_loop 0 data)"
      "last (fst (qp_encode_loop 0 data)) \<noteq> SP \<and> last (fst (qp_encode_loop 0 data)) \<noteq> HT"
  | (blank) xs c brk n where "data = xs @ [c]" "brk \<in> {[], CHR ''='' # CRLF}" "n = snd (qp_encode_loop 0 xs)"
      "snd (qp_encode_loop 0 data) = (if brk = [] then n + 1 else 1)"
      "qp_encode data = fst (qp_encode_loop 0 xs) @ brk @
         (if snd (qp_encode_loop 0 data) - 1 + 3 > qp_line_limit then CHR ''='' # CRLF else []) @ to_hex_pair CHR ''='' c"
proof -
  obtain xs c where d: "data = xs @ [c]" using assms by (cases data rule: rev_cases) auto
  define n where "n = snd (qp_encode_loop 0 xs)"
  have e: "qp_encode_loop 0 data = (fst (qp_encode_loop 0 xs) @ fst (qp_encode_loop n [c]), snd (qp_encode_loop n [c]))"
    unfolding d n_def by (rule qp_encode_loop_append)
  have ne: "fst (qp_encode_loop n [c]) \<noteq> []" using qp_encode_loop_single [of n c] to_hex_pair_last by auto
  show thesis
  proof (cases "last (fst (qp_encode_loop 0 data)) = SP \<or> last (fst (qp_encode_loop 0 data)) = HT")
    case False
    then have "qp_encode data = fst (qp_encode_loop 0 data)"
      using assms by (cases "qp_encode_loop 0 data") (simp add: qp_encode_def)
    then show thesis using plain False by blast
  next
    case True
    then have t: "last (fst (qp_encode_loop n [c])) = SP \<or> last (fst (qp_encode_loop n [c])) = HT" using e ne by simp
    obtain brk where b: "brk \<in> {[], CHR ''='' # CRLF}" "fst (qp_encode_loop n [c]) = brk @ [c]"
      "snd (qp_encode_loop n [c]) = (if brk = [] then n + 1 else 1)"
      using qp_encode_loop_blank(2) [OF t] by blast
    have c: "c = SP \<or> c = HT" using qp_encode_loop_blank(1) [OF t] t by metis
    have e': "qp_encode_loop 0 data = (fst (qp_encode_loop 0 xs) @ brk @ [c], snd (qp_encode_loop 0 data))"
      unfolding e b(2) by simp
    have "qp_encode data = (let res = fst (qp_encode_loop 0 xs) @ brk @ [c]; count = snd (qp_encode_loop 0 data) in
        butlast res @ (if count - 1 + 3 > qp_line_limit then CHR ''='' # CRLF else []) @ to_hex_pair CHR ''='' c)"
      using c assms unfolding qp_encode_def by (subst e') auto
    then show thesis
      using blank [OF d b(1) n_def] b(3) e by (simp add: butlast_append)
  qed
qed

section \<open>Line length\<close>

text \<open>No line of the text is longer than the limit, where \<open>n\<close> characters of the first line came before.\<close>

fun fits :: "nat \<Rightarrow> string \<Rightarrow> bool" where
  "fits n [] = (n \<le> qp_line_limit)"
| "fits n (c # s) =
     (if c = CR \<and> s \<noteq> [] \<and> hd s = LF then n \<le> qp_line_limit \<and> fits 0 (tl s) else fits (n + 1) s)"

lemma fits_plain: "CR \<notin> set s \<Longrightarrow> fits n (s @ t) = fits (n + length s) t"
  by (induction s arbitrary: n) auto

lemma hex_no_CR: "l \<noteq> CR \<Longrightarrow> CR \<notin> set (to_hex_pair l c)"
  using nibble_lt [of "u8 c"] tohexchar_hex(1) not_hex_CR by (fastforce simp: to_hex_pair_def)

lemma fits_pair: "fits n (to_hex_pair CHR ''='' c @ t) = fits (n + 3) t"
proof -
  have "length (to_hex_pair CHR ''='' c) = 3" by (simp add: to_hex_pair_def)
  then show ?thesis using fits_plain [OF hex_no_CR, of "CHR ''=''" n c t] by simp
qed

lemma fits_soft: "fits n (CHR ''='' # CRLF @ t) \<longleftrightarrow> n + 1 \<le> qp_line_limit \<and> fits 0 t"
  by simp

lemma is_QPchar_CR: "is_QPchar c \<Longrightarrow> c \<noteq> CR"
  by (auto simp: is_QPchar_def)

lemma qp_encode_loop_fits:
  "count \<le> qp_line_limit - 1 \<Longrightarrow> snd (qp_encode_loop count data) \<le> qp_line_limit - 1 \<and>
   (fits (snd (qp_encode_loop count data)) rest \<longrightarrow> fits count (fst (qp_encode_loop count data) @ rest))"
proof (induction count data rule: qp_encode_loop.induct)
  case (2 count c cs)
  consider (a) "count + 1 \<le> qp_line_limit - 1 \<and> is_QPchar c"
    | (b) "\<not> (count + 1 \<le> qp_line_limit - 1 \<and> is_QPchar c)" "count + 3 \<le> qp_line_limit - 1"
    | (c) "\<not> (count + 1 \<le> qp_line_limit - 1 \<and> is_QPchar c)" "\<not> count + 3 \<le> qp_line_limit - 1" by blast
  then show ?case
  proof cases
    case a
    then have "c \<noteq> CR" by (simp add: is_QPchar_CR)
    with a 2(1) show ?thesis by (auto simp: qp_encode_loop.simps(2) [of count c cs] split: prod.split)
  next
    case b
    with 2(2) show ?thesis
      by (auto simp: qp_encode_loop.simps(2) [of count c cs] fits_pair split: prod.split)
  next
    case c
    with 2(3,4) show ?thesis
      by (auto simp: qp_encode_loop.simps(2) [of count c cs] qp_line_limit_def split: prod.split)
  qed
qed simp

section \<open>Properties\<close>

lemma qp_decode_encode: "qp_decode (qp_encode data) = data"
proof (cases "data = []")
  case False
  then show ?thesis
  proof (cases rule: qp_encode_cases)
    case plain
    then show ?thesis using qp_decode_loop [of 0 data "[]"] by simp
  next
    case (blank xs c brk n)
    have "qp_decode (to_hex_pair CHR ''='' c) = [c]" using qp_decode_pair [of c "[]"] by simp
    then show ?thesis using blank qp_decode_loop [of 0 xs] qp_decode_soft by auto
  qed
qed (simp add: qp_encode_def)

text \<open>
  C15: decoding what was encoded as quoted-printable gives the data back, for every sequence of
  bytes, also with blanks at its end, line breaks and equal signs.
\<close>

theorem qp_roundtrip: "qp_decode (qp_encode data) = data"
  by (rule qp_decode_encode)

text \<open>No line of the encoded text is longer than 76 characters.\<close>

theorem qp_line_length: "fits 0 (qp_encode data)"
proof (cases "data = []")
  case False
  then show ?thesis
  proof (cases rule: qp_encode_cases)
    case plain
    then show ?thesis using qp_encode_loop_fits [of 0 data "[]"] by (simp add: qp_line_limit_def)
  next
    case (blank xs c brk n)
    have p: "fits m (to_hex_pair CHR ''='' c) \<longleftrightarrow> m + 3 \<le> qp_line_limit" for m using fits_pair [of m c "[]"] by simp
    have n: "n \<le> qp_line_limit - 1" using qp_encode_loop_fits [of 0 xs "[]"] blank(3) by simp
    have "fits n (brk @ (if snd (qp_encode_loop 0 data) - 1 + 3 > qp_line_limit then CHR ''='' # CRLF else [])
        @ to_hex_pair CHR ''='' c)"
      using blank(2,4) n p by (auto simp: qp_line_limit_def)
    then show ?thesis using qp_encode_loop_fits [of 0 xs] blank(3,5) by auto
  qed
qed (simp add: qp_encode_def qp_line_limit_def)

end
