(* ===== verification/HttpMessage.thy ===== *)
theory HttpMessage
  imports Buffer
begin

text \<open>
  \<^verbatim>\<open>struct message\<close> of \<^verbatim>\<open>include/angel/httplib.h\<close> and \<^verbatim>\<open>src/httplib/httplib.cc\<close>, the parser that requests and
  responses share: header fields, the length of the body, a body of known length and a chunked
  body, each one able to stop when the buffer has not enough data. Header maps
  (\<^verbatim>\<open>insensitive_unordered_map\<close>) are association lists whose keys are compared without case; the
  order of the list stands for the iteration order. The parsers work on buffers; for the proofs
  they are related to functions on the unread bytes (\<open>parse_header_bytes\<close>, \<open>chunked_bytes\<close>).
\<close>

section \<open>Header maps\<close>

datatype StatusCode = Continue | SwitchingProtocols
  | Ok | Created | Accepted | NonAuthoritativeInformation | NoContent | ResetContent | PartialContent
  | MultipleChoices | MovedPermanently | Found | SeeOther | NotModified | UseProxy | TemporaryRedirect
  | BadRequest | Unauthorized | Forbidden | NotFound | MethodNotAllowed | NotAcceptable
  | ProxyAuthenticationRequired | RequestTimeout | Conflict | Gone | LengthRequired | PreconditionFailed
  | RequestEntityTooLarge | RequestUriTooLong | UnsupportedMediaType | RequestedRangeNotSatisfiable
  | ExpectationFailed | InternalServerError | NotImplemented | BadGateway | ServiceUnavailable
  | GatewayTimeout | HttpVersionNotSupported

fun status_value :: "StatusCode \<Rightarrow> nat" where
  "status_value Continue = 100" | "status_value SwitchingProtocols = 101"
| "status_value Ok = 200" | "status_value Created = 201" | "status_value Accepted = 202"
| "status_value NonAuthoritativeInformation = 203" | "status_value NoContent = 204"
| "status_value ResetContent = 205" | "status_value PartialContent = 206"
| "status_value MultipleChoices = 300" | "status_value MovedPermanently = 301" | "status_value Found = 302"
| "status_value SeeOther = 303" | "status_value NotModified = 304" | "status_value UseProxy = 305"
| "status_value TemporaryRedirect = 307"
| "status_value BadRequest = 400" | "status_value Unauthorized = 401" | "status_value Forbidden = 403"
| "status_value NotFound = 404" | "status_value MethodNotAllowed = 405" | "status_value NotAcceptable = 406"
| "status_value ProxyAuthenticationRequired = 407" | "status_value RequestTimeout = 408"
| "status_value Conflict = 409" | "status_value Gone = 410" | "status_value LengthRequired = 411"
| "status_value PreconditionFailed = 412" | "status_value RequestEntityTooLarge = 413"
| "status_value RequestUriTooLong = 414" | "status_value UnsupportedMediaType = 415"
| "status_value RequestedRangeNotSatisfiable = 416" | "status_value ExpectationFailed = 417"
| "status_value InternalServerError = 500" | "status_value NotImplemented = 501" | "status_value BadGateway = 502"
| "status_value ServiceUnavailable = 503" | "status_value GatewayTimeout = 504"
| "status_value HttpVersionNotSupported = 505"

type_synonym headers = "(string \<times> string) list"

fun hdr_find :: "string \<Rightarrow> headers \<Rightarrow> string option" where
  "hdr_find k [] = None"
| "hdr_find k ((f, v) # hs) = (if equal_case f k then Some v else hdr_find k hs)"

definition hdr_emplace :: "string \<Rightarrow> string \<Rightarrow> headers \<Rightarrow> headers" where
  "hdr_emplace f v hs = (if hdr_find f hs = None then hs @ [(f, v)] else hs)"

definition hdr_erase :: "string \<Rightarrow> headers \<Rightarrow> headers" where
  "hdr_erase k hs = filter (\<lambda>(f, v). \<not> equal_case f k) hs"

section \<open>The message\<close>

record message =
  headers :: headers
  body :: string
  body_length :: nat
  chunked :: bool
  chunk_size :: int

definition message_new :: message where
  "message_new = \<lparr>headers = [], body = [], body_length = 0, chunked = False, chunk_size = -1\<rparr>"

text \<open>
  \<^verbatim>\<open>parse_header\<close>. The colon is searched in all unread bytes, not only in the line: behind its end the
  length of the value, \<^verbatim>\<open>crlf - pos - 1\<close>, is negative, and the conversion to \<^verbatim>\<open>size_t\<close> makes the code read out
  of bounds. This is the result \<open>None\<close>.
\<close>

function parse_header :: "headers \<Rightarrow> buffer \<Rightarrow> (StatusCode \<times> headers \<times> buffer) option" where
  "parse_header hs buf =
     (if readable buf = 0 then Some (Continue, hs, buf)
      else case find_crlf buf of
        None \<Rightarrow> Some (Continue, hs, buf)
      | Some crlf \<Rightarrow>
          if crlf = 0 then Some (Ok, hs, retrieve buf 2)
          else case buf_find buf '':'' of
            None \<Rightarrow> Some (BadRequest, hs, buf)
          | Some pos \<Rightarrow>
              if pos > crlf then None
              else
                let field = take pos (peek buf);
                    val = trim (take (crlf - pos - 1) (drop (pos + 1) (peek buf)));
                    hs' = (if val \<noteq> [] then hdr_emplace field val hs else hs)
                in parse_header hs' (retrieve buf (crlf + 2)))"
  by pat_completeness auto
termination
  by (relation "measure (\<lambda>(hs, buf). readable buf)") (auto simp: readable_retrieve_lt)

declare parse_header.simps [simp del]

definition parse_body_length :: "message \<Rightarrow> StatusCode \<times> message" where
  "parse_body_length m =
     (if hdr_find ''Transfer-Encoding'' (headers m) = Some ''chunked'' then (Ok, m\<lparr>chunked := True\<rparr>)
      else case hdr_find ''Content-Length'' (headers m) of
        None \<Rightarrow> (Continue, m)
      | Some v \<Rightarrow>
          let r = svtoll v
          in if value_or r (-1) < 0 then (BadRequest, m)
             else
               let m' = m\<lparr>body_length := nat (the r)\<rparr>
               in (if body_length m' > 0 then Ok else Continue, m'))"

definition parse_body_by_content_length :: "message \<Rightarrow> buffer \<Rightarrow> StatusCode \<times> message \<times> buffer" where
  "parse_body_by_content_length m buf =
     (if readable buf \<ge> body_length m
      then (Ok, m\<lparr>body := body m @ take (body_length m) (peek buf)\<rparr>, retrieve buf (body_length m))
      else (Continue, m\<lparr>body := body m @ peek buf, body_length := body_length m - readable buf\<rparr>, retrieve_all buf))"

text \<open>
  \<^verbatim>\<open>strtoll(str, &end, 16)\<close>: white space, an optional sign, an optional prefix \<^verbatim>\<open>0x\<close>, hexadecimal digits,
  saturating at the limits of \<^verbatim>\<open>long long\<close>. Without a digit nothing is consumed. \<^verbatim>\<open>from_hex_str\<close> wants the whole string consumed; the
  C string ends at a NUL.
\<close>

definition hex_value :: "char \<Rightarrow> nat" where
  "hex_value c = (if isdigit c then code c - 48 else if isupper c then code c - 55 else code c - 87)"

definition hex_val :: "string \<Rightarrow> nat" where
  "hex_val s = foldl (\<lambda>acc c. acc * 16 + hex_value c) 0 s"

definition strtoll16 :: "string \<Rightarrow> int \<times> nat" where
  "strtoll16 s =
     (let ws = length (takeWhile isspace s); s1 = drop ws s;
          neg = (s1 \<noteq> [] \<and> hd s1 = CHR ''-'');
          sg = (if s1 \<noteq> [] \<and> (hd s1 = CHR ''-'' \<or> hd s1 = CHR ''+'') then 1 else 0); s2 = drop sg s1;
          px = (if length s2 \<ge> 3 \<and> s2 ! 0 = CHR ''0'' \<and> (s2 ! 1 = CHR ''x'' \<or> s2 ! 1 = CHR ''X'') \<and> ishexnumber (s2 ! 2)
                then 2 else 0);
          ds = takeWhile ishexnumber (drop px s2);
          v = (if neg then - int (hex_val ds) else int (hex_val ds))
      in if ds = [] then (0, 0)
         else (max (- (2 ^ 63)) (min (2 ^ 63 - 1) v), ws + sg + px + length ds))"

definition from_hex_str :: "string \<Rightarrow> int" where
  "from_hex_str str =
     (let (v, end) = strtoll16 (takeWhile (\<lambda>c. c \<noteq> NUL) str) in if end = length str then v else -1)"

text \<open>
  \<^verbatim>\<open>parse_body_by_chunked\<close>. Comparisons between \<^verbatim>\<open>size_t\<close> and \<^verbatim>\<open>ssize_t\<close> are unsigned; \<^verbatim>\<open>chunk_size\<close> is not negative there.
\<close>

datatype chunk_step = Return StatusCode message buffer | Loop message buffer | OutOfBounds

definition chunk_data :: "message \<Rightarrow> buffer \<Rightarrow> chunk_step" where
  "chunk_data m buf =
     (let n = nat (chunk_size m)
      in if readable buf > n then
           if readable buf < n + 2 then Return Continue m buf
           else
             let m1 = m\<lparr>body := body m @ take n (peek buf)\<rparr>; b1 = retrieve buf n
             in if \<not> buf_starts_with b1 CRLF then Return BadRequest m1 b1
                else Loop (m1\<lparr>chunk_size := -1\<rparr>) (retrieve b1 2)
         else Return Continue
           (m\<lparr>body := body m @ peek buf, chunk_size := chunk_size m - int (readable buf)\<rparr>) (retrieve_all buf))"

definition chunk_body :: "message \<Rightarrow> buffer \<Rightarrow> chunk_step" where
  "chunk_body m buf =
     (if chunk_size m = -1 then
        case find_crlf buf of
          None \<Rightarrow> Return Continue m buf
        | Some crlf \<Rightarrow>
            if readable buf < crlf + 4 then Return Continue m buf
            else
              let m1 = m\<lparr>chunk_size := from_hex_str (take crlf (peek buf))\<rparr>; b1 = retrieve buf (crlf + 2)
              in if chunk_size m1 < 0 then Return BadRequest m1 b1
                 else if chunk_size m1 = 0 then Loop m1 b1
                 else chunk_data m1 b1
      else if chunk_size m = 0 then
        case parse_header (headers m) buf of
          None \<Rightarrow> OutOfBounds
        | Some (c, hs, b1) \<Rightarrow>
            if c \<noteq> Ok then Return c (m\<lparr>headers := hs\<rparr>) b1
            else Return Ok (m\<lparr>headers := hs, chunk_size := -1, chunked := False\<rparr>) b1
      else chunk_data m buf)"

lemma chunk_data_less:
  assumes "chunk_data m buf = Loop m' b"
  shows "readable b < readable buf"
proof -
  obtain n where n: "b = retrieve (retrieve buf n) 2" "2 \<le> readable (retrieve buf n)"
    using assms by (auto simp: chunk_data_def Let_def buf_starts_with_def split: if_splits)
  then have "readable b < readable (retrieve buf n)" using readable_retrieve_lt [of "retrieve buf n" 2] by simp
  then show ?thesis using readable_retrieve_le [of buf n] by simp
qed

lemma chunk_body_less:
  assumes "0 < readable buf" and "chunk_body m buf = Loop m' b"
  shows "readable b < readable buf"
proof -
  consider (data) "chunk_data m buf = Loop m' b"
    | (line) crlf m1 where "chunk_data m1 (retrieve buf (crlf + 2)) = Loop m' b"
    | (last) crlf where "b = retrieve buf (crlf + 2)"
    using assms(2) by (auto simp: chunk_body_def Let_def split: if_splits option.splits)
  then show ?thesis
  proof cases
    case data
    then show ?thesis by (rule chunk_data_less)
  next
    case (line crlf m1)
    then show ?thesis using chunk_data_less [OF line] readable_retrieve_lt [OF assms(1), of "crlf + 2"] by simp
  next
    case (last crlf)
    then show ?thesis using readable_retrieve_lt [OF assms(1), of "crlf + 2"] by simp
  qed
qed

function parse_body_by_chunked :: "message \<Rightarrow> buffer \<Rightarrow> (StatusCode \<times> message \<times> buffer) option" where
  "parse_body_by_chunked m buf =
     (if readable buf = 0 then Some (Continue, m, buf)
      else case chunk_body m buf of
        Return c m' b' \<Rightarrow> Some (c, m', b')
      | Loop m' b' \<Rightarrow> parse_body_by_chunked m' b'
      | OutOfBounds \<Rightarrow> None)"
  by pat_completeness auto
termination
  by (relation "measure (\<lambda>(m, buf). readable buf)") (auto simp: chunk_body_less)

declare parse_body_by_chunked.simps [simp del]

definition parse_body :: "message \<Rightarrow> buffer \<Rightarrow> (StatusCode \<times> message \<times> buffer) option" where
  "parse_body m buf =
     (if chunked m then parse_body_by_chunked m buf else Some (parse_body_by_content_length m buf))"

definition message_clear :: "message \<Rightarrow> message" where
  "message_clear m = m\<lparr>headers := [], body := []\<rparr>"

section \<open>Header fields on bytes\<close>

function parse_header_bytes :: "headers \<Rightarrow> string \<Rightarrow> (StatusCode \<times> headers \<times> string) option" where
  "parse_header_bytes hs s =
     (if s = [] then Some (Continue, hs, s)
      else case search CRLF s of
        None \<Rightarrow> Some (Continue, hs, s)
      | Some crlf \<Rightarrow>
          if crlf = 0 then Some (Ok, hs, drop 2 s)
          else case search '':'' s of
            None \<Rightarrow> Some (BadRequest, hs, s)
          | Some pos \<Rightarrow>
              if pos > crlf then None
              else
                let val = trim (take (crlf - pos - 1) (drop (pos + 1) s));
                    hs' = (if val \<noteq> [] then hdr_emplace (take pos s) val hs else hs)
                in parse_header_bytes hs' (drop (crlf + 2) s))"
  by pat_completeness auto
termination
  by (relation "measure (\<lambda>(hs, s). length s)") auto

declare parse_header_bytes.simps [simp del]

definition field_added :: "headers \<Rightarrow> string \<Rightarrow> nat \<Rightarrow> nat \<Rightarrow> headers" where
  "field_added hs s pos crlf =
     (let val = trim (take (crlf - pos - 1) (drop (pos + 1) s))
      in if val \<noteq> [] then hdr_emplace (take pos s) val hs else hs)"

lemma parse_header_bytes_wait:
  "s = [] \<or> search CRLF s = None \<Longrightarrow> parse_header_bytes hs s = Some (Continue, hs, s)"
  by (subst parse_header_bytes.simps) auto

lemma parse_header_bytes_end: "search CRLF s = Some 0 \<Longrightarrow> parse_header_bytes hs s = Some (Ok, hs, drop 2 s)"
  by (subst parse_header_bytes.simps) auto

lemma parse_header_bytes_bad:
  "\<lbrakk>search CRLF s = Some crlf; crlf \<noteq> 0; search '':'' s = None\<rbrakk> \<Longrightarrow> parse_header_bytes hs s = Some (BadRequest, hs, s)"
  by (subst parse_header_bytes.simps) auto

lemma parse_header_bytes_out:
  "\<lbrakk>search CRLF s = Some crlf; crlf \<noteq> 0; search '':'' s = Some pos; pos > crlf\<rbrakk> \<Longrightarrow> parse_header_bytes hs s = None"
  by (subst parse_header_bytes.simps) auto

lemma parse_header_bytes_field:
  "\<lbrakk>search CRLF s = Some crlf; crlf \<noteq> 0; search '':'' s = Some pos; \<not> pos > crlf\<rbrakk>
   \<Longrightarrow> parse_header_bytes hs s = parse_header_bytes (field_added hs s pos crlf) (drop (crlf + 2) s)"
  by (subst parse_header_bytes.simps) (auto simp: field_added_def Let_def)

lemmas parse_header_bytes_cases = parse_header_bytes_wait parse_header_bytes_end parse_header_bytes_bad
  parse_header_bytes_out parse_header_bytes_field

lemma parse_header_refines:
  "buffer_wf b \<Longrightarrow>
   (case parse_header hs b of
      None \<Rightarrow> parse_header_bytes hs (peek b) = None
    | Some (c, hs', b') \<Rightarrow> buffer_wf b' \<and> parse_header_bytes hs (peek b) = Some (c, hs', peek b'))"
proof (induction hs b rule: parse_header.induct)
  case (1 hs b)
  have e: "readable b = 0 \<longleftrightarrow> peek b = []" using length_peek [OF 1(2)] by (metis length_0_conv)
  show ?case
  proof (cases "search CRLF (peek b)")
    case None
    then show ?thesis
      using 1(2) parse_header_bytes_wait [of "peek b" hs]
      by (cases "peek b = []") (simp_all add: parse_header.simps [of hs b] find_crlf_search e)
  next
    case (Some crlf)
    then have ne: "peek b \<noteq> []" by auto
    show ?thesis
    proof (cases "crlf = 0")
      case True
      then show ?thesis
        using 1(2) Some ne
        by (simp add: parse_header.simps [of hs b] parse_header_bytes_cases find_crlf_search e
            retrieve_peek retrieve_wf)
    next
      case nz: False
      show ?thesis
      proof (cases "search '':'' (peek b)")
        case None
        then show ?thesis
          using 1(2) Some ne nz
          by (simp add: parse_header.simps [of hs b] parse_header_bytes_cases find_crlf_search e
              buf_find_nonempty)
      next
        case pos: (Some pos)
        show ?thesis
        proof (cases "pos > crlf")
          case True
          then show ?thesis
            using Some ne nz pos
            by (simp add: parse_header.simps [of hs b] parse_header_bytes_cases find_crlf_search e
                buf_find_nonempty)
        next
          case False
          have "parse_header hs b = parse_header (field_added hs (peek b) pos crlf) (retrieve b (crlf + 2))"
            using Some ne nz pos False
            by (simp add: parse_header.simps [of hs b] find_crlf_search e buf_find_nonempty field_added_def Let_def)
          moreover have "parse_header_bytes hs (peek b)
              = parse_header_bytes (field_added hs (peek b) pos crlf) (peek (retrieve b (crlf + 2)))"
            using parse_header_bytes_field [OF Some nz pos False, of hs] 1(2) by (simp add: retrieve_peek)
          moreover have "readable b \<noteq> 0" "find_crlf b = Some crlf" "buf_find b '':'' = Some pos"
            using Some ne pos by (simp_all add: find_crlf_search e buf_find_nonempty)
          note IH = 1(1) [OF this(1,2) nz this(3) False refl refl refl retrieve_wf [OF 1(2)]]
          have "case parse_header (field_added hs (peek b) pos crlf) (retrieve b (crlf + 2)) of
              None \<Rightarrow> parse_header_bytes (field_added hs (peek b) pos crlf) (peek (retrieve b (crlf + 2))) = None
            | Some (c, hs', b') \<Rightarrow> buffer_wf b' \<and>
                parse_header_bytes (field_added hs (peek b) pos crlf) (peek (retrieve b (crlf + 2))) = Some (c, hs', peek b')"
            unfolding field_added_def Let_def by (rule IH)
          ultimately show ?thesis by (simp only:)
        qed
      qed
    qed
  qed
qed

text \<open>
  What was parsed before the data ran out need not be parsed again: the rest may come in any
  portions.
\<close>

lemma parse_header_bytes_stream:
  "parse_header_bytes hs s = Some (Continue, hs1, s1) \<Longrightarrow>
   parse_header_bytes hs (s @ t) = parse_header_bytes hs1 (s1 @ t)"
proof (induction hs s rule: parse_header_bytes.induct)
  case (1 hs s)
  show ?case
  proof (cases "s = [] \<or> search CRLF s = None")
    case True
    then show ?thesis using 1(2) parse_header_bytes_wait [of s hs] by simp
  next
    case False
    then obtain crlf where c: "search CRLF s = Some crlf" "s \<noteq> []" by auto
    with 1(2) have nz: "crlf \<noteq> 0" using parse_header_bytes_end [of s hs] by (intro notI) simp
    obtain pos where p: "search '':'' s = Some pos" "\<not> pos > crlf"
      using 1(2) parse_header_bytes_bad [OF c(1) nz, of hs] parse_header_bytes_out [OF c(1) nz, of _ hs]
      by (cases "search '':'' s") force+
    have le: "crlf + 2 \<le> length s" using search_Some_le [OF c(1)] by simp
    note f = parse_header_bytes_field [OF c(1) nz p]
    have fa: "field_added hs (s @ t) pos crlf = field_added hs s pos crlf"
      using le p(2) by (simp add: field_added_def Let_def)
    have "parse_header_bytes hs (s @ t) = parse_header_bytes (field_added hs s pos crlf) (drop (crlf + 2) s @ t)"
      using parse_header_bytes_field [OF search_append_Some [OF c(1)] nz search_append_Some [OF p(1)] p(2), of hs t] le
      by (simp add: fa)
    moreover have "parse_header_bytes (field_added hs s pos crlf) (drop (crlf + 2) s) = Some (Continue, hs1, s1) \<Longrightarrow>
        parse_header_bytes (field_added hs s pos crlf) (drop (crlf + 2) s @ t) = parse_header_bytes hs1 (s1 @ t)"
      unfolding field_added_def Let_def by (rule 1(1) [OF c(2,1) nz p refl refl])
    moreover note 1(2) [unfolded f]
    ultimately show ?thesis by simp
  qed
qed

section \<open>Writing and reading header fields\<close>

definition format_header :: "string \<Rightarrow> string \<Rightarrow> string" where
  "format_header field val = field @ '': '' @ val @ CRLF"

definition format_fields :: "headers \<Rightarrow> string" where
  "format_fields hs = concat (map (\<lambda>(f, v). format_header f v) hs) @ CRLF"

definition field_ok :: "string \<times> string \<Rightarrow> bool" where
  "field_ok fv \<longleftrightarrow> (let (f, v) = fv in CHR '':'' \<notin> set f \<and> CR \<notin> set f \<and> CR \<notin> set v \<and> v \<noteq> [] \<and>
     \<not> isspace (hd v) \<and> \<not> isspace (last v))"

fun keys_distinct :: "headers \<Rightarrow> bool" where
  "keys_distinct [] \<longleftrightarrow> True"
| "keys_distinct ((f, v) # hs) \<longleftrightarrow> (\<forall>(g, w) \<in> set hs. \<not> equal_case f g) \<and> keys_distinct hs"

lemma hdr_find_None: "hdr_find k hs = None \<longleftrightarrow> (\<forall>(f, v) \<in> set hs. \<not> equal_case f k)"
  by (induction k hs rule: hdr_find.induct) auto

lemma hdr_find_append: "hdr_find k (xs @ ys) = (case hdr_find k xs of None \<Rightarrow> hdr_find k ys | Some v \<Rightarrow> Some v)"
  by (induction k xs rule: hdr_find.induct) auto

lemma trim_space_word:
  assumes "v \<noteq> []" "\<not> isspace (hd v)" "\<not> isspace (last v)"
  shows "trim (SP # v) = v"
  using trim_id [OF assms] by (simp add: trim_eq)

lemma parse_header_bytes_line:
  assumes ok: "field_ok (f, v)" and new: "hdr_find f hs = None"
  shows "parse_header_bytes hs (format_header f v @ s) = parse_header_bytes (hs @ [(f, v)]) s"
proof -
  let ?line = "f @ '': '' @ v"
  have eq: "format_header f v @ s = ?line @ CR # LF # s" by (simp add: format_header_def)
  have crlf: "search CRLF (format_header f v @ s) = Some (length ?line)"
    unfolding eq by (rule search_CRLF_line) (use ok in \<open>simp add: field_ok_def\<close>)
  have colon: "search '':'' (format_header f v @ s) = Some (length f)"
    using ok search_char [of "CHR '':''" f "SP # v @ CR # LF # s"] by (simp add: eq field_ok_def)
  have "field_added hs (format_header f v @ s) (length f) (length ?line) = hs @ [(f, v)]"
    using ok new by (simp add: field_added_def eq field_ok_def trim_space_word hdr_emplace_def)
  moreover have "drop (length ?line + 2) (format_header f v @ s) = s" by (simp add: eq eval_nat_numeral)
  ultimately show ?thesis using parse_header_bytes_field [OF crlf _ colon, of hs] by simp
qed

lemma parse_header_bytes_fields:
  assumes "list_all field_ok fs" and "keys_distinct (hs @ fs)"
  shows "parse_header_bytes hs (format_fields fs @ s) = Some (Ok, hs @ fs, s)"
  using assms
proof (induction fs arbitrary: hs)
  case Nil
  then show ?case by (simp add: format_fields_def parse_header_bytes_end)
next
  case (Cons fv fs)
  obtain f v where fv: "fv = (f, v)" by (cases fv)
  have new: "hdr_find f hs = None"
    using Cons(3) by (induction hs) (auto simp: fv hdr_find_None)
  have "parse_header_bytes hs (format_fields (fv # fs) @ s) = parse_header_bytes (hs @ [(f, v)]) (format_fields fs @ s)"
    using parse_header_bytes_line [OF _ new, of v "format_fields fs @ s"] Cons(2) by (simp add: fv format_fields_def)
  then show ?case using Cons(1) [of "hs @ [(f, v)]"] Cons(2,3) by (simp add: fv)
qed

text \<open>
  Header fields written by the response (\<^verbatim>\<open>format_header\<close> for each field and an empty line) are
  read back by \<^verbatim>\<open>parse_header\<close> as they were, and exactly their bytes leave the buffer. The fields must not
  contain the separators, values must not be blank or begin or end with white space, and no field may occur twice (up to case).
\<close>

theorem parse_header_roundtrip:
  assumes "buffer_wf buf" and "peek buf = format_fields fs @ rest"
    and "list_all field_ok fs" and "keys_distinct fs"
  shows "\<exists>buf'. parse_header [] buf = Some (Ok, fs, buf') \<and> buffer_wf buf' \<and> peek buf' = rest"
  using parse_header_refines [OF assms(1), of "[]"] parse_header_bytes_fields [of fs "[]" rest] assms(2-4)
  by (auto split: option.splits)

theorem parse_header_roundtrip_witness:
  "\<exists>buf'. parse_header [] (append_buf (buffer_new 0) (format_fields [(''Host'', ''a''), (''Accept'', ''*/*'')] @ ''x''))
      = Some (Ok, [(''Host'', ''a''), (''Accept'', ''*/*'')], buf') \<and> buffer_wf buf' \<and> peek buf' = ''x''"
  by (rule parse_header_roundtrip)
     (simp_all add: wf_intros buffer_simps field_ok_def equal_case_def char_eval)

text \<open>
  Header fields may arrive in any portions. When \<^verbatim>\<open>parse_header\<close> stops for more data and \<open>t\<close> arrives, the next
  call gives the code, the fields and the rest which one call gives when all bytes arrive at once.
\<close>

theorem parse_header_stream:
  assumes "buffer_wf buf" and "parse_header hs buf = Some (Continue, hs1, buf1)"
  shows "map_option (\<lambda>(c, h, b). (c, h, peek b)) (parse_header hs1 (append_buf buf1 t))
    = map_option (\<lambda>(c, h, b). (c, h, peek b)) (parse_header hs (append_buf buf t))"
proof -
  have abs: "map_option (\<lambda>(c, h, b). (c, h, peek b)) (parse_header h b) = parse_header_bytes h (peek b)"
    if "buffer_wf b" for h b
    using parse_header_refines [OF that, of h] by (auto split: option.splits)
  have "buffer_wf buf1" "parse_header_bytes hs (peek buf) = Some (Continue, hs1, peek buf1)"
    using parse_header_refines [OF assms(1), of hs] assms(2) by auto
  with assms(1) show ?thesis
    by (simp add: abs append_buf_wf append_buf_peek parse_header_bytes_stream)
qed

theorem parse_header_stream_witness:
  "\<exists>buf1. parse_header [] (append_buf (buffer_new 0) (''a: b'' @ CRLF @ ''c:'')) = Some (Continue, [(''a'', ''b'')], buf1) \<and>
     map_option (\<lambda>(c, h, b). (c, h, peek b)) (parse_header [(''a'', ''b'')] (append_buf buf1 (''d'' @ CRLF @ CRLF)))
     = map_option (\<lambda>(c, h, b). (c, h, peek b))
         (parse_header [] (append_buf (append_buf (buffer_new 0) (''a: b'' @ CRLF @ ''c:'')) (''d'' @ CRLF @ CRLF)))"
proof -
  define b where "b = append_buf (buffer_new 0) (''a: b'' @ CRLF @ ''c:'')"
  have wf: "buffer_wf b" and pk: "peek b = ''a: b'' @ CRLF @ ''c:''" by (simp_all add: b_def wf_intros buffer_simps)
  have "readable b = 8" "readable (retrieve b 6) = 2"
    using length_peek [OF wf] length_peek [OF retrieve_wf [OF wf], of 6] by (simp_all add: pk retrieve_peek)
  moreover have six: "Suc (Suc (Suc (Suc (Suc (Suc 0))))) = 6" by simp
  ultimately have ph: "parse_header [] b = Some (Continue, [(''a'', ''b'')], retrieve b 6)"
    by (simp add: parse_header.simps [of "[]" b] parse_header.simps [of _ "retrieve b 6"] find_crlf_search
        buf_find_nonempty pk retrieve_peek trim_eq char_eval hdr_emplace_def six)
  show ?thesis using ph parse_header_stream [OF wf ph] unfolding b_def by blast
qed

section \<open>Bodies of known length\<close>

text \<open>
  A body of known length arrives in portions: each call of \<^verbatim>\<open>parse_body_by_content_length\<close> takes what is there and
  counts down. \<open>recv_body\<close> feeds the portions one by one until the parser is done.
\<close>

fun recv_body :: "message \<Rightarrow> buffer \<Rightarrow> string list \<Rightarrow> StatusCode \<times> message \<times> buffer" where
  "recv_body m buf [] = (Continue, m, buf)"
| "recv_body m buf (s # ss) =
     (case parse_body_by_content_length m (append_buf buf s) of
        (Continue, m', b') \<Rightarrow> recv_body m' b' ss
      | (c, m', b') \<Rightarrow> (c, m', fold (\<lambda>t b. append_buf b t) ss b'))"

lemma fold_append_buf:
  "buffer_wf b \<Longrightarrow> buffer_wf (fold (\<lambda>t b. append_buf b t) ss b) \<and>
     peek (fold (\<lambda>t b. append_buf b t) ss b) = peek b @ concat ss"
  by (induction ss arbitrary: b) (auto simp: append_buf_wf append_buf_peek)

lemma recv_body_all:
  assumes "buffer_wf buf" and "peek buf = []" and "body_length m \<le> length (concat ss)" and "ss \<noteq> []"
  shows "\<exists>m' buf'. recv_body m buf ss = (Ok, m', buf') \<and> body m' = body m @ take (body_length m) (concat ss) \<and>
    peek buf' = drop (body_length m) (concat ss)"
  using assms
proof (induction ss arbitrary: m buf)
  case (Cons s ss)
  have wf: "buffer_wf (append_buf buf s)" and pk: "peek (append_buf buf s) = s"
    using Cons(2,3) by (simp_all add: append_buf_wf append_buf_peek)
  note len = length_peek [OF wf, symmetric, unfolded pk]
  show ?case
  proof (cases "length s \<ge> body_length m")
    case True
    then show ?thesis
      using fold_append_buf [OF retrieve_wf [OF wf], of ss "body_length m"] wf pk len
      by (simp add: parse_body_by_content_length_def retrieve_peek)
  next
    case False
    let ?m = "m\<lparr>body := body m @ s, body_length := body_length m - length s\<rparr>"
    have "ss \<noteq> []" using False Cons(4) by auto
    from Cons(1) [OF retrieve_all_wf [OF wf] retrieve_all_peek _ this, of ?m]
    show ?thesis using False Cons(4) pk len by (auto simp: parse_body_by_content_length_def)
  qed
qed simp

section \<open>Chunked bodies\<close>

definition hex_digit :: "nat \<Rightarrow> char" where
  "hex_digit n = ''0123456789abcdef'' ! n"

fun hex :: "nat \<Rightarrow> string" where
  "hex n = (if n < 16 then [hex_digit n] else hex (n div 16) @ [hex_digit (n mod 16)])"

declare hex.simps [simp del]

lemma hex_digit_ok: "n < 16 \<Longrightarrow> ishexnumber (hex_digit n) \<and> hex_value (hex_digit n) = n"
proof -
  have "\<forall>n \<in> set [0..<16]. ishexnumber (hex_digit n) \<and> hex_value (hex_digit n) = n" by code_simp
  then show "n < 16 \<Longrightarrow> ishexnumber (hex_digit n) \<and> hex_value (hex_digit n) = n" by simp
qed

lemma hex_digits: "list_all ishexnumber (hex n)"
  by (induction n rule: hex.induct) (subst hex.simps, simp add: hex_digit_ok)

lemma hex_val_snoc: "hex_val (s @ [c]) = hex_val s * 16 + hex_value c"
  by (simp add: hex_val_def)

lemma hex_val_hex [simp]: "hex_val (hex n) = n"
proof (induction n rule: hex.induct)
  case (1 n)
  then show ?case
    by (subst hex.simps) (simp add: hex_val_snoc hex_digit_ok hex_val_def)
qed

lemma hex_ne [simp]: "hex n \<noteq> []"
  by (subst hex.simps) simp

lemma ishexnumber_plain: "ishexnumber c \<Longrightarrow> \<not> isspace c \<and> c \<noteq> CHR ''-'' \<and> c \<noteq> CHR ''+'' \<and> c \<noteq> NUL \<and> c \<noteq> CR \<and> c \<noteq> CHR ''x'' \<and> c \<noteq> CHR ''X''"
  by (auto simp: char_eval)

lemma from_hex_str_hex:
  assumes "n < 2 ^ 63"
  shows "from_hex_str (hex n) = int n"
proof -
  have all: "\<forall>c \<in> set (hex n). ishexnumber c" using hex_digits [of n] by (simp add: list_all_iff)
  have 1: "takeWhile (\<lambda>c. c \<noteq> NUL) (hex n) = hex n" "takeWhile ishexnumber (hex n) = hex n"
    using all ishexnumber_plain by (auto simp: takeWhile_eq_all_conv)
  have 2: "takeWhile isspace (hex n) = []" "hd (hex n) \<noteq> CHR ''-''" "hd (hex n) \<noteq> CHR ''+''"
    using all ishexnumber_plain [of "hd (hex n)"] by (cases "hex n"; simp)+
  have 3: "\<not> (3 \<le> length (hex n) \<and> (hex n ! 1 = CHR ''x'' \<or> hex n ! 1 = CHR ''X''))"
    using all ishexnumber_plain [of "hex n ! 1"] by auto
  have px: "(if length (hex n) \<ge> 3 \<and> hex n ! 0 = CHR ''0'' \<and> (hex n ! 1 = CHR ''x'' \<or> hex n ! 1 = CHR ''X'') \<and> ishexnumber (hex n ! 2)
      then 2 else 0) = (0::nat)" using 3 by auto
  have "int n \<le> 2 ^ 63 - 1" "- (2 ^ 63) \<le> int n" using assms by simp_all
  then have "strtoll16 (hex n) = (int n, length (hex n))"
    unfolding strtoll16_def Let_def by (simp only: 1 2 px list.size drop0 hex_val_hex simp_thms if_False hex_ne) simp
  then show ?thesis by (simp add: from_hex_str_def 1)
qed

definition chunk :: "string \<Rightarrow> string" where
  "chunk c = hex (length c) @ CRLF @ c @ CRLF"

definition last_chunk :: string where
  "last_chunk = ''0'' @ CRLF @ CRLF"

lemma hex_size_no_CR: "CR \<notin> set (hex n)"
  using hex_digits [of n] ishexnumber_plain by (auto simp: list_all_iff)

lemma find_crlf_hex: "peek buf = hex n @ CR # LF # s \<Longrightarrow> find_crlf buf = Some (length (hex n))"
  by (simp add: find_crlf_search search_CRLF_line hex_size_no_CR)

text \<open>The size line: enough bytes behind it, and the size is read.\<close>

lemma chunk_body_size:
  assumes wf: "buffer_wf buf" and pk: "peek buf = hex n @ CR # LF # s" and n: "n < 2 ^ 63" and s: "2 \<le> length s"
    and m: "chunk_size m = -1"
  shows "chunk_body m buf = (if n = 0 then Loop (m\<lparr>chunk_size := 0\<rparr>) (retrieve buf (length (hex n) + 2))
    else chunk_data (m\<lparr>chunk_size := int n\<rparr>) (retrieve buf (length (hex n) + 2)))"
proof -
  have "readable buf = length (hex n) + 2 + length s" using length_peek [OF wf] pk by simp
  moreover have "take (length (hex n)) (peek buf) = hex n" using pk by simp
  ultimately show ?thesis
    using m s by (simp add: chunk_body_def find_crlf_hex [OF pk] from_hex_str_hex [OF n] Let_def)
qed

lemma chunk_body_chunk:
  assumes wf: "buffer_wf buf" and pk: "peek buf = chunk c @ s" and c: "c \<noteq> []" "length c < 2 ^ 63" and m: "chunk_size m = -1"
  shows "\<exists>buf'. chunk_body m buf = Loop (m\<lparr>body := body m @ c, chunk_size := -1\<rparr>) buf' \<and> buffer_wf buf' \<and> peek buf' = s"
proof -
  let ?h = "hex (length c)"
  define b1 where "b1 = retrieve buf (length ?h + 2)"
  define b2 where "b2 = retrieve b1 (length c)"
  have pk': "peek buf = ?h @ CR # LF # (c @ CR # LF # s)" using pk by (simp add: chunk_def)
  have b1: "buffer_wf b1" "peek b1 = c @ CR # LF # s" using wf by (simp_all add: b1_def retrieve_wf retrieve_peek pk')
  have b2: "buffer_wf b2" "peek b2 = CR # LF # s" using b1 by (simp_all add: b2_def retrieve_wf retrieve_peek)
  have "readable b1 = length c + 2 + length s" using length_peek [OF b1(1)] b1(2) by simp
  moreover have "buf_starts_with b2 CRLF" using b2 by (simp add: buf_starts_with_iff)
  ultimately have "chunk_data (m\<lparr>chunk_size := int (length c)\<rparr>) b1 = Loop (m\<lparr>body := body m @ c, chunk_size := -1\<rparr>) (retrieve b2 2)"
    by (simp add: chunk_data_def b1(2) flip: b2_def)
  moreover have "chunk_body m buf = chunk_data (m\<lparr>chunk_size := int (length c)\<rparr>) b1"
    using chunk_body_size [OF wf pk' c(2) _ m] c(1) by (simp add: b1_def)
  moreover have "buffer_wf (retrieve b2 2)" "peek (retrieve b2 2) = s" using b2 by (simp_all add: retrieve_wf retrieve_peek)
  ultimately show ?thesis by auto
qed

lemma chunk_size_same [simp]: "chunk_size m = k \<Longrightarrow> m\<lparr>chunk_size := k, chunked := x\<rparr> = m\<lparr>chunked := x\<rparr>"
  by (cases m) simp

lemma parse_chunked_step:
  assumes "peek buf \<noteq> []" and "buffer_wf buf" and "chunk_body m buf = Loop m' buf'"
  shows "parse_body_by_chunked m buf = parse_body_by_chunked m' buf'"
proof -
  have "readable buf \<noteq> 0" using length_peek [OF assms(2)] assms(1) by (metis length_0_conv)
  then show ?thesis using assms(3) by (simp add: parse_body_by_chunked.simps [of m buf])
qed

lemma parse_chunked_trailer:
  assumes wf: "buffer_wf buf" and pk: "peek buf = CRLF @ s" and m: "chunk_size m = 0"
  shows "\<exists>buf'. parse_body_by_chunked m buf = Some (Ok, m\<lparr>chunk_size := -1, chunked := False\<rparr>, buf') \<and>
    buffer_wf buf' \<and> peek buf' = s"
proof -
  have "readable buf \<noteq> 0" using length_peek [OF wf] pk by auto
  moreover have "parse_header_bytes (headers m) (peek buf) = Some (Ok, headers m, s)"
    by (simp add: pk parse_header_bytes_end)
  then obtain b where "parse_header (headers m) buf = Some (Ok, headers m, b)" "buffer_wf b" "peek b = s"
    using parse_header_refines [OF wf, of "headers m"] by (auto split: option.splits)
  ultimately show ?thesis using m by (simp add: parse_body_by_chunked.simps [of m buf] chunk_body_def)
qed

lemma parse_chunked_last:
  assumes wf: "buffer_wf buf" and pk: "peek buf = last_chunk @ s" and m: "chunk_size m = -1"
  shows "\<exists>buf'. parse_body_by_chunked m buf = Some (Ok, m\<lparr>chunked := False\<rparr>, buf') \<and> buffer_wf buf' \<and> peek buf' = s"
proof -
  have h: "hex 0 = ''0''" by (simp add: hex.simps hex_digit_def)
  have pk': "peek buf = hex 0 @ CR # LF # (CRLF @ s)" using pk by (simp add: last_chunk_def h)
  have "chunk_body m buf = Loop (m\<lparr>chunk_size := 0\<rparr>) (retrieve buf 3)"
    using chunk_body_size [OF wf pk' _ _ m] by (simp add: h numeral_3_eq_3)
  then have "parse_body_by_chunked m buf = parse_body_by_chunked (m\<lparr>chunk_size := 0\<rparr>) (retrieve buf 3)"
    using parse_chunked_step [OF _ wf] pk' by simp
  moreover have "peek (retrieve buf 3) = CRLF @ s" by (simp add: retrieve_peek pk last_chunk_def)
  note parse_chunked_trailer [OF retrieve_wf [OF wf] this, of "m\<lparr>chunk_size := 0\<rparr>"]
  ultimately show ?thesis using m by simp
qed

lemma parse_chunked_chunks:
  assumes "buffer_wf buf" and "peek buf = concat (map chunk cs) @ last_chunk @ s" and "chunk_size m = -1"
    and "\<forall>c \<in> set cs. c \<noteq> [] \<and> length c < 2 ^ 63"
  shows "\<exists>buf'. parse_body_by_chunked m buf = Some (Ok, m\<lparr>body := body m @ concat cs, chunked := False\<rparr>, buf') \<and>
    buffer_wf buf' \<and> peek buf' = s"
  using assms
proof (induction cs arbitrary: m buf)
  case Nil
  then show ?case using parse_chunked_last [of buf s m] by simp
next
  case (Cons c cs)
  let ?m = "m\<lparr>body := body m @ c\<rparr>"
  have "m\<lparr>body := body m @ c, chunk_size := -1\<rparr> = ?m" using Cons(4) by (cases m) simp
  with Cons(2-5) obtain b1 where b1: "chunk_body m buf = Loop ?m b1" "buffer_wf b1" "peek b1 = concat (map chunk cs) @ last_chunk @ s"
    using chunk_body_chunk [of buf c "concat (map chunk cs) @ last_chunk @ s" m] by auto
  have "parse_body_by_chunked m buf = parse_body_by_chunked ?m b1"
    using parse_chunked_step [OF _ Cons(2) b1(1)] Cons(3) by (simp add: chunk_def)
  then show ?case using Cons(1) [OF b1(2,3), of ?m] Cons(4,5) by simp
qed

text \<open>
  A body of known length is assembled from any portions: the body gets exactly the announced
  number of bytes, and what follows stays in the buffer for the next message.
\<close>

theorem content_length_stream:
  assumes "buffer_wf buf" and "peek buf = []" and "body_length m \<le> length (concat ss)" and "ss \<noteq> []"
  shows "\<exists>m' buf'. recv_body m buf ss = (Ok, m', buf') \<and> body m' = body m @ take (body_length m) (concat ss) \<and>
    peek buf' = drop (body_length m) (concat ss)"
  using assms by (rule recv_body_all)

theorem content_length_stream_witness:
  "\<exists>m' buf'. recv_body (message_new\<lparr>body_length := 5\<rparr>) (buffer_new 0) [''ab'', ''c'', ''defg''] = (Ok, m', buf') \<and>
     body m' = ''abcde'' \<and> peek buf' = ''fg''"
  using content_length_stream [of "buffer_new 0" "message_new\<lparr>body_length := 5\<rparr>" "[''ab'', ''c'', ''defg'']"]
  by (simp add: buffer_new_wf buffer_new_peek message_new_def)

text \<open>
  C11: chunked transfer coding. A buffer that holds the chunks as \<^verbatim>\<open>send_chunk\<close> writes them and the
  last chunk of \<^verbatim>\<open>send_done\<close> is decoded by \<^verbatim>\<open>parse_body_by_chunked\<close> to the concatenation of the chunks; the
  parser is back in its initial state and the bytes behind are left.
\<close>

theorem chunked_roundtrip:
  assumes "buffer_wf buf" and "peek buf = concat (map chunk cs) @ last_chunk @ rest" and "chunk_size m = -1"
    and "\<forall>c \<in> set cs. c \<noteq> [] \<and> length c < 2 ^ 63"
  shows "\<exists>buf'. parse_body_by_chunked m buf = Some (Ok, m\<lparr>body := body m @ concat cs, chunked := False\<rparr>, buf') \<and>
    peek buf' = rest"
  using parse_chunked_chunks [OF assms] by blast

theorem chunked_roundtrip_witness:
  "\<exists>buf'. parse_body_by_chunked message_new (append_buf (buffer_new 0) (concat (map chunk [''abc'', ''de'']) @ last_chunk @ ''x''))
     = Some (Ok, message_new\<lparr>body := ''abcde'', chunked := False\<rparr>, buf') \<and> peek buf' = ''x''"
  using chunked_roundtrip [of "append_buf (buffer_new 0) (concat (map chunk [''abc'', ''de'']) @ last_chunk @ ''x'')"
      "[''abc'', ''de'']" "''x''" message_new]
  by (simp add: message_new_def wf_intros buffer_simps)

text \<open>
  A read that ends exactly behind the data of a chunk makes the parser lose the rest of the body. The
  remaining size becomes 0, which stands for the last chunk as well, so the line end of this chunk is taken for
  the end of the trailer: the body is reported complete with this chunk, and the chunks which follow
  stay in the buffer, where they are read as the next request.
\<close>

theorem chunked_split_truncates:
  assumes "buffer_wf buf" and "peek buf = hex (length c) @ CRLF @ c" and "2 \<le> length c" "length c < 2 ^ 63"
    and "chunk_size m = -1"
  shows "\<exists>m1 buf1 m2 buf2. parse_body_by_chunked m buf = Some (Continue, m1, buf1) \<and>
    parse_body_by_chunked m1 (append_buf buf1 (CRLF @ later)) = Some (Ok, m2, buf2) \<and>
    body m2 = body m @ c \<and> peek buf2 = later"
proof -
  let ?b1 = "retrieve buf (length (hex (length c)) + 2)"
  let ?m1 = "m\<lparr>body := body m @ c, chunk_size := 0\<rparr>"
  have b1: "buffer_wf ?b1" "peek ?b1 = c" using assms(1,2) by (simp_all add: retrieve_wf retrieve_peek)
  then have r: "readable ?b1 = length c" using length_peek by metis
  have "chunk_body m buf = chunk_data (m\<lparr>chunk_size := int (length c)\<rparr>) ?b1"
    using chunk_body_size [OF assms(1), of "length c" c m] assms(2-5) by auto
  also have "\<dots> = Return Continue ?m1 (retrieve_all ?b1)"
    using b1(2) r by (simp add: chunk_data_def)
  finally have 1: "parse_body_by_chunked m buf = Some (Continue, ?m1, retrieve_all ?b1)"
    using length_peek [OF assms(1)] assms(2) by (simp add: parse_body_by_chunked.simps [of m buf] split: if_splits)
  have "buffer_wf (append_buf (retrieve_all ?b1) (CRLF @ later))" "peek (append_buf (retrieve_all ?b1) (CRLF @ later)) = CRLF @ later"
    using b1(1) by (simp_all add: append_buf_wf append_buf_peek retrieve_all_wf retrieve_all_peek)
  from parse_chunked_trailer [OF this, of ?m1] 1 show ?thesis by auto
qed

theorem chunked_split_truncates_witness:
  "\<exists>m1 buf1 m2 buf2. parse_body_by_chunked message_new (append_buf (buffer_new 0) (''3'' @ CRLF @ ''abc'')) = Some (Continue, m1, buf1) \<and>
    parse_body_by_chunked m1 (append_buf buf1 (CRLF @ chunk ''de'' @ last_chunk)) = Some (Ok, m2, buf2) \<and>
    body m2 = ''abc'' \<and> peek buf2 = chunk ''de'' @ last_chunk"
  using chunked_split_truncates [of "append_buf (buffer_new 0) (''3'' @ CRLF @ ''abc'')" "''abc''" message_new "chunk ''de'' @ last_chunk"]
  by (simp add: message_new_def wf_intros buffer_simps hex.simps hex_digit_def)

end
