(* ===== verification/HttpUtil.thy ===== *)
theory HttpUtil
  imports Sha1 HttpMessage
begin

text \<open>
  \<^verbatim>\<open>src/httplib/util.cc\<close> (dates and entity tags) and the lookup of a media type by file
  extension (\<^verbatim>\<open>src/mime/mime_types.cc\<close>). The clock, \<^verbatim>\<open>stat\<close> and \<^verbatim>\<open>put_time\<close> belong to the system:
  formatted dates are arguments of the definitions which need them.
\<close>

section \<open>Dates\<close>

definition wkdays :: "string list" where
  "wkdays = [''Mon'', ''Tue'', ''Wed'', ''Thu'', ''Fri'', ''Sat'', ''Sun'']"

definition months :: "(string \<times> nat) list" where
  "months = [(''Jan'', 1), (''Feb'', 2), (''Mar'', 3), (''Apr'', 4), (''May'', 5), (''Jun'', 6), (''Jul'', 7), (''Aug'', 8),
     (''Sep'', 9), (''Oct'', 10), (''Nov'', 11), (''Dec'', 12)]"

definition days :: "bool \<Rightarrow> nat \<Rightarrow> int" where
  "days leap mon = (if leap then [0, 31, 29, 31, 30, 31, 30, 31, 31, 30, 31, 30, 31]
     else [0, 31, 28, 31, 30, 31, 30, 31, 31, 30, 31, 30, 31]) ! mon"

definition is_leap :: "int \<Rightarrow> bool" where
  "is_leap year \<longleftrightarrow> (year mod 4 = 0 \<and> year mod 100 \<noteq> 0) \<or> year mod 400 = 0"

text \<open>\<open>sub p i n\<close> is the view \<^verbatim>\<open>{p + i, n}\<close>.\<close>

definition sub :: "string \<Rightarrow> nat \<Rightarrow> nat \<Rightarrow> string" where
  "sub p i n = take n (drop i p)"

definition check_date :: "string \<Rightarrow> bool" where
  "check_date p \<longleftrightarrow> p ! 2 = SP \<and> p ! 6 = SP \<and> p ! 11 = SP \<and>
     (let year = svtoi (sub p 7 4); day = svtoi (sub p 0 2)
      in 0 < value_or year (-1) \<and>
         (case map_of months (sub p 3 3) of
            None \<Rightarrow> False
          | Some mon \<Rightarrow> 0 < value_or day (-1) \<and> the day \<le> days (is_leap (the year)) mon))"

definition check_time :: "string \<Rightarrow> bool" where
  "check_time p \<longleftrightarrow> p ! 2 = CHR '':'' \<and> p ! 5 = CHR '':'' \<and> p ! 8 = SP \<and>
     p ! 0 \<noteq> CHR ''-'' \<and> p ! 3 \<noteq> CHR ''-'' \<and> p ! 6 \<noteq> CHR ''-'' \<and>
     (let h = value_or (svtoi (sub p 0 2)) (-1); m = value_or (svtoi (sub p 3 2)) (-1); s = value_or (svtoi (sub p 6 2)) (-1)
      in 0 \<le> h \<and> h \<le> 23 \<and> 0 \<le> m \<and> m \<le> 59 \<and> 0 \<le> s \<and> s \<le> 59) \<and>
     p ! 9 = CHR ''G'' \<and> p ! 10 = CHR ''M'' \<and> p ! 11 = CHR ''P''"

definition check_date_format :: "string \<Rightarrow> bool" where
  "check_date_format date \<longleftrightarrow> length date = 29 \<and> sub date 0 3 \<in> set wkdays \<and> date ! 3 = CHR '','' \<and> date ! 4 = SP \<and>
     check_date (drop 5 date) \<and> check_time (drop 17 date)"

section \<open>Entity tags\<close>

abbreviation DQ :: char where "DQ \<equiv> CHR 0x22"

definition is_strong_etag :: "string \<Rightarrow> bool" where
  "is_strong_etag etag \<longleftrightarrow> 2 \<le> length etag \<and> hd etag = DQ \<and> last etag = DQ"

definition is_weak_etag :: "string \<Rightarrow> bool" where
  "is_weak_etag etag \<longleftrightarrow> starts_with etag ''W/'' \<and> is_strong_etag (drop 2 etag)"

definition is_etag :: "string \<Rightarrow> bool" where
  "is_etag etag \<longleftrightarrow> is_strong_etag etag \<or> is_weak_etag etag"

definition strong_etag_equal :: "string \<Rightarrow> string \<Rightarrow> bool" where
  "strong_etag_equal etag1 etag2 \<longleftrightarrow> is_strong_etag etag1 \<and> is_strong_etag etag2 \<and> etag1 = etag2"

definition drop_weak :: "string \<Rightarrow> string" where
  "drop_weak etag = (if starts_with etag ''W/'' then drop 2 etag else etag)"

definition weak_etag_equal :: "string \<Rightarrow> string \<Rightarrow> bool" where
  "weak_etag_equal etag1 etag2 \<longleftrightarrow> is_etag etag1 \<and> is_etag etag2 \<and> drop_weak etag1 = drop_weak etag2"

text \<open>\<^verbatim>\<open>std::hex\<close> prints the bits of a negative \<^verbatim>\<open>int64_t\<close>.\<close>

definition generate_file_etag :: "int \<Rightarrow> nat \<Rightarrow> string" where
  "generate_file_etag last_modified_time filesize =
     [DQ] @ hex (nat (last_modified_time mod 2 ^ 64)) @ ''-'' @ dec filesize @ [DQ]"

text \<open>\<^verbatim>\<open>sha1::file\<close> hashes blocks of 16K, given the content of the file when it can be opened and read.\<close>

function sha1_blocks :: "string \<Rightarrow> sha1 \<Rightarrow> sha1" where
  "sha1_blocks data s = (if data = [] then s else sha1_blocks (drop (ChunkBytes * 256) data) (update (take (ChunkBytes * 256) data) s))"
  by pat_completeness auto
termination
  by (relation "measure (\<lambda>(data, s). length data)") (auto simp: ChunkBytes_def)

declare sha1_blocks.simps [simp del]

definition sha1_file :: "string option \<Rightarrow> sha1 \<Rightarrow> bool \<times> sha1" where
  "sha1_file content s = (case content of None \<Rightarrow> (False, s) | Some data \<Rightarrow> (True, sha1_blocks data s))"

definition generate_file_etag_sha1 :: "string option \<Rightarrow> nat \<Rightarrow> sha1 \<Rightarrow> (string \<times> sha1) option" where
  "generate_file_etag_sha1 content filesize s =
     (case hex_digest (snd (sha1_file content s)) of
        None \<Rightarrow> None
      | Some (d, s') \<Rightarrow> Some ([DQ] @ d @ ''-'' @ dec filesize @ [DQ], s'))"

definition generate_etag :: "string \<Rightarrow> sha1 \<Rightarrow> (string \<times> sha1) option" where
  "generate_etag data s =
     (case hex_digest (update data s) of
        None \<Rightarrow> None
      | Some (d, s') \<Rightarrow> Some ([DQ] @ d @ ''-'' @ dec (length data) @ [DQ], s'))"

section \<open>Media types\<close>

record mimetypes =
  mime_types :: "(string \<times> string list) list"
  file_extensions :: "(string \<times> string) list"

definition add_extension :: "string \<Rightarrow> string \<Rightarrow> mimetypes \<Rightarrow> mimetypes" where
  "add_extension type ext m =
     \<lparr>mime_types = (case map_of (mime_types m) type of
         None \<Rightarrow> mime_types m @ [(type, [ext])]
       | Some exts \<Rightarrow> map (\<lambda>(t, es). if t = type then (t, es @ [ext]) else (t, es)) (mime_types m)),
      file_extensions = (if map_of (file_extensions m) ext = None then file_extensions m @ [(ext, type)] else file_extensions m)\<rparr>"

definition mimetypes_new :: "string list list \<Rightarrow> mimetypes" where
  "mimetypes_new conf =
     fold (\<lambda>args m. fold (add_extension (hd args)) (tl args) m) conf \<lparr>mime_types = [], file_extensions = []\<rparr>"

definition mimetypes_load :: "string list list \<Rightarrow> mimetypes \<Rightarrow> mimetypes" where
  "mimetypes_load conf m0 =
     fold (\<lambda>args m.
        let m1 = (case map_of (mime_types m) (hd args) of
                    None \<Rightarrow> m
                  | Some exts \<Rightarrow> \<lparr>mime_types = filter (\<lambda>(t, es). t \<noteq> hd args) (mime_types m),
                      file_extensions = filter (\<lambda>(e, t). e \<notin> set exts) (file_extensions m)\<rparr>)
        in fold (add_extension (hd args)) (tl args) m1) conf m0"

definition get_suffix :: "string \<Rightarrow> string" where
  "get_suffix filename =
     (if CHR ''.'' \<in> set filename then rev (takeWhile (\<lambda>c. c \<noteq> CHR ''.'') (rev filename)) else [])"

definition get_mime_type :: "mimetypes \<Rightarrow> string \<Rightarrow> string option" where
  "get_mime_type m filename =
     (let suffix = get_suffix filename in if suffix = [] then None else map_of (file_extensions m) suffix)"

definition get_file_extensions :: "mimetypes \<Rightarrow> string \<Rightarrow> string list option" where
  "get_file_extensions m mime_type = map_of (mime_types m) mime_type"

section \<open>Lemmas\<close>

lemma weak_etag_equal_refl: "is_etag e \<Longrightarrow> weak_etag_equal e e"
  by (simp add: weak_etag_equal_def)

lemma strong_implies_weak: "strong_etag_equal a b \<Longrightarrow> weak_etag_equal a b"
  by (auto simp: strong_etag_equal_def weak_etag_equal_def is_etag_def)

lemma file_etag_strong: "is_strong_etag (generate_file_etag t n)"
  by (simp add: generate_file_etag_def is_strong_etag_def)

lemma split_at_first: "c \<notin> set xs \<Longrightarrow> c \<notin> set ys \<Longrightarrow> xs @ c # s = ys @ c # t \<longleftrightarrow> xs = ys \<and> s = t"
  by (induction xs ys rule: list_induct2') auto

lemma dec_inj: "dec m = dec n \<longleftrightarrow> m = n"
  by (metis digits_val_dec)

lemma hex_inj: "hex m = hex n \<longleftrightarrow> m = n"
  by (metis hex_val_hex)

text \<open>
  The tag of a file is built from its time of modification and its size, so two states of a file share a tag only
  if both agree.
\<close>

lemma file_etag_inj:
  assumes "0 \<le> t1" "t1 < 2 ^ 63" "0 \<le> t2" "t2 < 2 ^ 63"
  shows "generate_file_etag t1 n1 = generate_file_etag t2 n2 \<longleftrightarrow> t1 = t2 \<and> n1 = n2"
proof -
  have no: "CHR ''-'' \<notin> set (hex k)" for k
    using hex_digits [of k] ishexnumber_plain [of "CHR ''-''"] by (auto simp: list_all_iff)
  have "t1 mod 2 ^ 64 = t1" "t2 mod 2 ^ 64 = t2" using assms by simp_all
  then show ?thesis using assms(1,3) by (simp add: generate_file_etag_def split_at_first [OF no no] hex_inj dec_inj nat_eq_iff)
qed

text \<open>
  \<^verbatim>\<open>check_date_format\<close> compares the zone with \<open>GMP\<close>: it refuses every date as HTTP writes them.
\<close>

theorem check_date_format_rejects_GMT: "drop 26 date = ''GMT'' \<Longrightarrow> \<not> check_date_format date"
proof
  assume d: "drop 26 date = ''GMT''" and c: "check_date_format date"
  have "drop 17 date ! 11 = drop 26 date ! 2" using c by (simp add: check_date_format_def)
  with c d show False by (simp add: check_date_format_def check_time_def)
qed

text \<open>The constructor of the table: an extension belongs to the first type which lists it.\<close>

lemma add_extension_lookup:
  "map_of (file_extensions (add_extension type ext m)) e =
     (case map_of (file_extensions m) e of Some t \<Rightarrow> Some t | None \<Rightarrow> if e = ext then Some type else None)"
  by (auto simp: add_extension_def map_of_append map_add_def split: option.splits)

lemma add_extensions_lookup:
  "map_of (file_extensions (fold (add_extension type) exts m)) e =
     (case map_of (file_extensions m) e of Some t \<Rightarrow> Some t | None \<Rightarrow> if e \<in> set exts then Some type else None)"
  by (induction exts arbitrary: m) (auto simp: add_extension_lookup split: option.splits)

end
