(* ===== verification/Uri.thy ===== *)
theory Uri
  imports Qp
begin

text \<open>
  \<^verbatim>\<open>struct uri\<close> of \<^verbatim>\<open>src/httplib/httplib.cc\<close>: percent encoding, query parameters and the
  decomposition of an absolute URI. A pair of pointers into the text is the text between them;
  a range whose end lies before its start becomes a huge \<^verbatim>\<open>size_t\<close> in the code, which is the result \<open>None\<close> here.
  A \<^verbatim>\<open>Params\<close> map is an association list with distinct keys.
\<close>

section \<open>Percent encoding\<close>

text \<open>\<^verbatim>\<open>strchr(s, c)\<close> also finds the terminating NUL of \<open>s\<close>.\<close>

definition strchr :: "string \<Rightarrow> char \<Rightarrow> bool" where
  "strchr s c \<longleftrightarrow> c \<in> set (s @ [NUL])"

fun uri_encode :: "string \<Rightarrow> string" where
  "uri_encode [] = []"
| "uri_encode (c # cs) =
     (if \<not> isalnum c \<and> \<not> strchr ''-_.~'' c then to_hex_pair CHR ''%'' c else [c]) @ uri_encode cs"

text \<open>The result is the returned flag and what was appended to \<^verbatim>\<open>res\<close>.\<close>

fun uri_decode :: "string \<Rightarrow> bool \<times> string" where
  "uri_decode [] = (True, [])"
| "uri_decode (c # cs) =
     (if c = CHR ''%'' then
        case cs of
          c1 # c2 # cs' \<Rightarrow>
            if \<not> ishexnumber c1 \<or> \<not> ishexnumber c2 then (False, [])
            else let (ok, res) = uri_decode cs' in (ok, from_hex_pair c1 c2 # res)
        | _ \<Rightarrow> (False, [])
      else let (ok, res) = uri_decode cs in (ok, c # res))"

section \<open>Query parameters\<close>

type_synonym params = "(string \<times> string) list"

definition params_emplace :: "string \<Rightarrow> string \<Rightarrow> params \<Rightarrow> params" where
  "params_emplace k v ps = (if map_of ps k = None then ps @ [(k, v)] else ps)"

fun parse_args :: "string list \<Rightarrow> params \<Rightarrow> bool \<times> params" where
  "parse_args [] ps = (True, ps)"
| "parse_args (arg # args) ps =
     (let key = takeWhile (\<lambda>c. c \<noteq> CHR ''='') arg
      in if length key = length arg then (False, ps)
         else
           let (ok1, decoded_key) = uri_decode key;
               (ok2, decoded_value) = uri_decode (drop (length key + 1) arg)
           in if \<not> ok1 \<or> \<not> ok2 then (False, ps)
              else parse_args args (params_emplace decoded_key decoded_value ps))"

definition parse_params :: "string \<Rightarrow> params \<Rightarrow> bool \<times> params" where
  "parse_params s ps = parse_args (split s CHR ''&'') ps"

section \<open>The parts of a URI\<close>

record uri =
  scheme :: string
  host :: string
  port :: int
  path :: string
  params :: params
  fragment :: string

definition uri_clear :: uri where
  "uri_clear = \<lparr>scheme = [], host = [], port = 80, path = [], params = [], fragment = []\<rparr>"

definition uri_path :: "uri \<Rightarrow> string \<Rightarrow> (bool \<times> uri) option" where
  "uri_path u p =
     (if p = [] then Some (True, u\<lparr>path := ''/''\<rparr>)
      else
        let sep = length (takeWhile (\<lambda>c. c \<noteq> CHR ''?'') p);
            (ok, res) = uri_decode (take sep p);
            u1 = u\<lparr>path := path u @ res\<rparr>;
            frag = length (takeWhile (\<lambda>c. c \<noteq> CHR ''#'') p);
            set_fragment = (\<lambda>u. if frag \<noteq> length p then u\<lparr>fragment := drop (frag + 1) p\<rparr> else u)
        in if \<not> ok then Some (False, u1)
           else if sep \<noteq> length p then
             if frag < sep + 1 then None
             else
               let (ok, ps) = parse_params (take (frag - (sep + 1)) (drop (sep + 1) p)) (params u1);
                   u2 = u1\<lparr>params := ps\<rparr>
               in if \<not> ok then Some (False, u2) else Some (True, set_fragment u2)
           else Some (True, set_fragment u1))"

definition uri_authority :: "uri \<Rightarrow> string \<Rightarrow> (bool \<times> uri) option" where
  "uri_authority u p =
     (let sep = length (takeWhile (\<lambda>c. c \<noteq> CHR '':'') p)
      in if sep \<noteq> length p then
           let p1 = drop (sep + 1) p;
               digits = takeWhile (\<lambda>c. c \<noteq> CHR ''/'') p1;
               u1 = u\<lparr>host := take sep p, port := value_or (svtoi digits) (-1)\<rparr>
           in if port u1 \<le> 0 then Some (False, u1) else uri_path u1 (drop (length digits) p1)
         else
           let name = takeWhile (\<lambda>c. c \<noteq> CHR ''/'') p
           in uri_path (u\<lparr>host := name\<rparr>) (drop (length name) p))"

definition uri_parse :: "string \<Rightarrow> (bool \<times> uri) option" where
  "uri_parse s =
     (case util_search s ''://'' of
        None \<Rightarrow> Some (False, uri_clear)
      | Some sep \<Rightarrow>
          let u = uri_clear\<lparr>scheme := take sep s\<rparr>; p = drop (sep + 3) s
          in if scheme u = ''http'' then uri_authority (u\<lparr>port := 80\<rparr>) p
             else if scheme u = ''https'' then uri_authority (u\<lparr>port := 443\<rparr>) p
             else Some (False, u))"

section \<open>Encoded text\<close>

definition uri_char :: "char \<Rightarrow> bool" where
  "uri_char c \<longleftrightarrow> isalnum c \<or> strchr ''-_.~%'' c"

lemma uri_char_not_special:
  assumes "uri_char c"
  shows "c \<noteq> CHR ''&'' \<and> c \<noteq> CHR ''='' \<and> c \<noteq> CHR ''?'' \<and> c \<noteq> CHR ''#'' \<and> c \<noteq> CHR '':'' \<and> c \<noteq> CHR ''/'' \<and> c \<noteq> SP \<and> c \<noteq> CR"
  using assms by (auto simp: uri_char_def strchr_def char_eval)

lemma unreserved_not_percent: "isalnum c \<or> strchr ''-_.~'' c \<Longrightarrow> c \<noteq> CHR ''%''"
  by (auto simp: strchr_def char_eval)

lemma hex_pair_chars: "\<forall>x \<in> set (to_hex_pair CHR ''%'' c). uri_char x"
proof -
  have "ishexnumber x \<Longrightarrow> isalnum x" for x by (auto simp: char_eval)
  then show ?thesis
    using nibble_lt [of "u8 c"] by (auto simp: to_hex_pair_def uri_char_def tohexchar_hex strchr_def)
qed

lemma uri_encode_chars: "\<forall>x \<in> set (uri_encode s). uri_char x"
proof (induction s)
  case (Cons c s)
  then show ?case using hex_pair_chars [of c] by (auto simp: uri_char_def strchr_def)
qed simp

lemma uri_encode_no: "\<not> uri_char x \<Longrightarrow> x \<notin> set (uri_encode s)"
  using uri_encode_chars by blast

lemma uri_char_literals [simp]:
  "\<not> uri_char CHR ''&''" "\<not> uri_char CHR ''=''" "\<not> uri_char CHR ''?''" "\<not> uri_char CHR ''#''"
  "\<not> uri_char CHR '':''" "\<not> uri_char CHR ''/''" "\<not> uri_char SP" "\<not> uri_char CR"
  using uri_char_not_special by blast+

lemma uri_decode_hex:
  "uri_decode (to_hex_pair CHR ''%'' c @ cs) = (let (ok, res) = uri_decode cs in (ok, c # res))"
  using from_to_hex_pair [of c] nibble_lt [of "u8 c"] by (simp add: to_hex_pair_def tohexchar_hex)

lemma uri_decode_plain: "CHR ''%'' \<notin> set s \<Longrightarrow> uri_decode s = (True, s)"
  by (induction s) auto

lemma uri_decode_encode [simp]: "uri_decode (uri_encode s) = (True, s)"
proof (induction s)
  case (Cons c s)
  then show ?case
    using unreserved_not_percent [of c] uri_decode_hex [of c "uri_encode s"] by auto
qed simp

section \<open>Written and parsed parameters\<close>

definition format_param :: "string \<times> string \<Rightarrow> string" where
  "format_param kv = uri_encode (fst kv) @ ''='' @ uri_encode (snd kv)"

definition format_params :: "params \<Rightarrow> string" where
  "format_params ps = join ''&'' (map format_param ps)"

lemma takeWhile_until: "c \<notin> set s \<Longrightarrow> takeWhile (\<lambda>x. x \<noteq> c) (s @ c # t) = s"
  by (induction s) auto

lemma parse_args_format:
  "distinct (map fst (ps @ qs)) \<Longrightarrow> parse_args (map format_param qs) ps = (True, ps @ qs)"
proof (induction qs arbitrary: ps)
  case (Cons q qs)
  obtain k v where q: "q = (k, v)" by (cases q)
  have "map_of ps k = None" using Cons(2) by (auto simp: map_of_eq_None_iff q)
  moreover have "takeWhile (\<lambda>c. c \<noteq> CHR ''='') (format_param q) = uri_encode k"
    by (simp add: format_param_def q takeWhile_until uri_encode_no)
  moreover have "drop (length (uri_encode k) + 1) (format_param q) = uri_encode v"
    "length (uri_encode k) \<noteq> length (format_param q)"
    by (simp_all add: format_param_def q)
  ultimately show ?case using Cons(1) [of "ps @ [(k, v)]"] Cons(2) by (simp add: params_emplace_def q)
qed simp

lemma split_format_params:
  assumes "ps \<noteq> []"
  shows "split (format_params ps) CHR ''&'' = map format_param ps"
  unfolding format_params_def
  by (rule split_join) (use assms in \<open>auto simp: format_param_def uri_encode_no\<close>)

lemma parse_format_params:
  "ps \<noteq> [] \<Longrightarrow> distinct (map fst ps) \<Longrightarrow> parse_params (format_params ps) [] = (True, ps)"
  by (simp add: parse_params_def split_format_params parse_args_format)

lemma format_params_chars:
  assumes "x \<in> set (format_params ps)"
  shows "uri_char x \<or> x = CHR ''='' \<or> x = CHR ''&''"
proof -
  have "set (join d xs) \<subseteq> set d \<union> (\<Union>y \<in> set xs. set y)" for d :: string and xs
    by (induction d xs rule: join.induct) auto
  with assms show ?thesis using uri_encode_chars by (fastforce simp: format_params_def format_param_def)
qed

section \<open>Parsing a written URI\<close>

lemma dec_chars: "x \<in> set (dec n) \<Longrightarrow> isdigit x"
  using dec_digits [of n] by (simp add: list_all_iff)

lemma dec_no: "\<not> isdigit c \<Longrightarrow> c \<notin> set (dec n)"
  using dec_chars by blast

lemma util_search_http: "util_search (''http://'' @ s) ''://'' = Some 4"
  by (simp add: util_search_def eval_nat_numeral)

lemma uri_authority_port:
  assumes "CHR '':'' \<notin> set h" and "0 < n" and "n < 2 ^ 31" and "q = [] \<or> hd q = CHR ''/''"
  shows "uri_authority u (h @ CHR '':'' # dec n @ q) = uri_path (u\<lparr>host := h, port := int n\<rparr>) q"
proof -
  have sep: "takeWhile (\<lambda>c. c \<noteq> CHR '':'') (h @ CHR '':'' # dec n @ q) = h" using assms(1) by (rule takeWhile_until)
  have "takeWhile (\<lambda>c. c \<noteq> CHR ''/'') (dec n) = dec n"
    using dec_no [of "CHR ''/''" n] by (auto simp: takeWhile_eq_all_conv isdigit_def)
  moreover have "takeWhile (\<lambda>c. c \<noteq> CHR ''/'') q = []" using assms(4) by (cases q) auto
  ultimately have dig: "takeWhile (\<lambda>c. c \<noteq> CHR ''/'') (dec n @ q) = dec n"
    by (subst takeWhile_append2) (auto simp: takeWhile_eq_all_conv)
  show ?thesis using assms(2) svtoi_dec [OF assms(3)]
    by (simp add: uri_authority_def Let_def sep dig)
qed

lemma uri_path_params:
  assumes p: "CHR ''?'' \<notin> set p" "CHR ''#'' \<notin> set p" "CHR ''%'' \<notin> set p" "p \<noteq> []"
    and ps: "ps \<noteq> []" "distinct (map fst ps)" and u: "path u = []" "params u = []"
  shows "uri_path u (p @ CHR ''?'' # format_params ps @ CHR ''#'' # f) = Some (True, u\<lparr>path := p, params := ps, fragment := f\<rparr>)"
proof -
  let ?s = "p @ CHR ''?'' # format_params ps @ CHR ''#'' # f"
  have sep: "takeWhile (\<lambda>c. c \<noteq> CHR ''?'') ?s = p" using p(1) by (rule takeWhile_until)
  have "CHR ''#'' \<notin> set (p @ CHR ''?'' # format_params ps)"
    using p(2) format_params_chars [of "CHR ''#''" ps] by auto
  then have frag: "takeWhile (\<lambda>c. c \<noteq> CHR ''#'') ?s = p @ CHR ''?'' # format_params ps"
    using takeWhile_until [of "CHR ''#''" "p @ CHR ''?'' # format_params ps" f] by simp
  show ?thesis
    using p(4) u by (simp add: uri_path_def sep frag uri_decode_plain [OF p(3)] parse_format_params [OF ps])
qed

section \<open>Properties\<close>

text \<open>
  C12: percent encoding is lossless for every byte string, and the encoded text has only letters, digits, the
  four marks, percent signs and NUL bytes, so none of the delimiters of a URI.
\<close>

theorem uri_roundtrip:
  "uri_decode (uri_encode s) = (True, s) \<and> list_all (\<lambda>c. isalnum c \<or> c \<in> set (''-_.~%'' @ [NUL])) (uri_encode s)"
  using uri_encode_chars [of s] by (simp add: uri_char_def strchr_def list_all_iff)

text \<open>
  An absolute URI with port, path, parameters (each one percent encoded, as the client writes them) and fragment is taken
  apart into exactly these parts.
\<close>

theorem uri_parse_roundtrip:
  assumes "CHR '':'' \<notin> set h" and "0 < n" "n < 2 ^ 31"
    and "CHR ''?'' \<notin> set p" "CHR ''#'' \<notin> set p" "CHR ''%'' \<notin> set p"
    and "ps \<noteq> []" "distinct (map fst ps)"
  shows "uri_parse (''http://'' @ h @ '':'' @ dec n @ ''/'' @ p @ ''?'' @ format_params ps @ ''#'' @ f)
    = Some (True, \<lparr>scheme = ''http'', host = h, port = int n, path = CHR ''/'' # p, params = ps, fragment = f\<rparr>)"
proof -
  let ?q = "(CHR ''/'' # p) @ CHR ''?'' # format_params ps @ CHR ''#'' # f"
  let ?u = "uri_clear\<lparr>scheme := ''http'', port := 80\<rparr>"
  have "uri_parse (''http://'' @ h @ CHR '':'' # dec n @ ?q) = uri_authority ?u (h @ CHR '':'' # dec n @ ?q)"
    using util_search_http [of "h @ CHR '':'' # dec n @ ?q"] by (simp add: uri_parse_def)
  also have "\<dots> = uri_path (?u\<lparr>host := h, port := int n\<rparr>) ?q"
    using assms(1-3) by (rule uri_authority_port) simp
  also have "\<dots> = Some (True, ?u\<lparr>host := h, port := int n, path := CHR ''/'' # p, params := ps, fragment := f\<rparr>)"
    using assms(4-8) by (subst uri_path_params) (simp_all add: uri_clear_def)
  finally show ?thesis by (simp add: uri_clear_def)
qed

theorem uri_parse_roundtrip_witness:
  "uri_parse (''http://'' @ ''a.org'' @ '':'' @ dec 8080 @ ''/'' @ ''x'' @ ''?'' @ format_params [(''k'', ''a b''), (''l'', ''&'')] @ ''#'' @ ''top'')
    = Some (True, \<lparr>scheme = ''http'', host = ''a.org'', port = 8080, path = ''/x'', params = [(''k'', ''a b''), (''l'', ''&'')], fragment = ''top''\<rparr>)"
  using uri_parse_roundtrip [of "''a.org''" 8080 "''x''" "[(''k'', ''a b''), (''l'', ''&'')]" "''top''"] by simp

text \<open>
  Without a port in the URI the first colon of the path or the query is taken for the port separator: the
  host then contains a part of the path.
\<close>

theorem uri_colon_in_path:
  assumes "CHR '':'' \<notin> set h" "CHR '':'' \<notin> set a" and "0 < n" "n < 2 ^ 31"
  shows "uri_parse (''http://'' @ h @ ''/'' @ a @ '':'' @ dec n)
    = Some (True, uri_clear\<lparr>scheme := ''http'', host := h @ ''/'' @ a, port := int n, path := ''/''\<rparr>)"
proof -
  have "uri_parse (''http://'' @ (h @ ''/'' @ a) @ CHR '':'' # dec n @ [])
      = uri_authority (uri_clear\<lparr>scheme := ''http'', port := 80\<rparr>) ((h @ ''/'' @ a) @ CHR '':'' # dec n @ [])"
    using util_search_http [of "(h @ ''/'' @ a) @ CHR '':'' # dec n @ []"] by (simp add: uri_parse_def)
  also have "\<dots> = uri_path (uri_clear\<lparr>scheme := ''http'', port := 80, host := h @ ''/'' @ a, port := int n\<rparr>) []"
    by (subst uri_authority_port) (use assms in simp_all)
  finally show ?thesis by (simp add: uri_path_def uri_clear_def)
qed

end
