(* ===== verification/HttpServer.thy ===== *)
theory HttpServer
  imports HttpUtil Uri
begin

text \<open>
  \<^verbatim>\<open>class request\<close>, \<^verbatim>\<open>class response\<close> and \<^verbatim>\<open>class http_server\<close> of \<^verbatim>\<open>src/httplib/httplib.cc\<close>: the request line, the
  answer and its chunked form, conditional requests, byte ranges, static files, the routing of a
  request and the loop of \<^verbatim>\<open>message_handler\<close>.

  The calls on the connection are collected in order (\<open>conn_ops\<close>); what the connection does with
  them is the subject of the theory Connection. The world of a request is the file system (\<open>files\<close>: content and time of
  modification of the regular files), the hash object, the counter of boundaries, the clock and the answers of \<^verbatim>\<open>write(2)\<close>; nothing else changes
  the files while a request is handled. User handlers are functions on the response. Faults of the sc which end the
  process or leave the language (an exception, a read out of bounds) are values of \<open>http_fault\<close>.
\<close>

section \<open>Requests\<close>

datatype Version = HTTP_VERSION_1_0 | HTTP_VERSION_1_1
datatype Method = OPTIONS | GET | HEAD | POST | PUT | DELETE | TRACE | CONNECT
datatype ParseState = ParseLine | ParseHeader | ParseBody

record request =
  req_state :: ParseState
  req_method :: Method
  abs_path :: string
  http_version :: Version
  query_params :: params
  has_file :: bool
  filesize :: nat
  last_modified :: string
  etag :: string
  msg :: message

text \<open>Members without initialiser have an unspecified value; they are written before they are read.\<close>

definition request_new :: request where
  "request_new = \<lparr>req_state = ParseLine, req_method = OPTIONS, abs_path = [], http_version = HTTP_VERSION_1_0,
     query_params = [], has_file = False, filesize = 0, last_modified = [], etag = [], msg = message_new\<rparr>"

definition methods :: "(string \<times> Method) list" where
  "methods = [(''OPTIONS'', OPTIONS), (''GET'', GET), (''HEAD'', HEAD), (''POST'', POST), (''PUT'', PUT), (''DELETE'', DELETE),
     (''TRACE'', TRACE), (''CONNECT'', CONNECT)]"

definition UriMaxLength :: nat where
  "UriMaxLength = 1024 * 1024"

text \<open>The Request-URI: \<open>None\<close> when a fragment stands in front of the question mark (a negative range).\<close>

definition parse_request_uri :: "request \<Rightarrow> string \<Rightarrow> (bool \<times> request) option" where
  "parse_request_uri req p =
     (let sep = length (takeWhile (\<lambda>c. c \<noteq> CHR ''?'') p);
          (ok, res) = uri_decode (take sep p);
          req1 = req\<lparr>abs_path := abs_path req @ res\<rparr>;
          end = length (takeWhile (\<lambda>c. c \<noteq> CHR ''#'') p)
      in if \<not> ok then Some (False, req1)
         else if sep = length p then Some (True, req1)
         else if end < sep + 1 then None
         else
           let (ok, ps) = parse_params (take (end - (sep + 1)) (drop (sep + 1) p)) (query_params req1)
           in Some (ok, req1\<lparr>query_params := ps\<rparr>))"

definition parse_version :: "string \<Rightarrow> StatusCode + Version" where
  "parse_version s =
     (if s = ''HTTP/1.1'' then Inr HTTP_VERSION_1_1
      else if s = ''HTTP/1.0'' then Inr HTTP_VERSION_1_0
      else if s = ''HTTP/2.0'' then Inl HttpVersionNotSupported
      else Inl BadRequest)"

definition request_parse_line :: "request \<Rightarrow> buffer \<Rightarrow> (StatusCode \<times> request \<times> buffer) option" where
  "request_parse_line req buf =
     (case find_crlf buf of
        None \<Rightarrow> Some (Continue, req, buf)
      | Some crlf \<Rightarrow>
          if crlf > UriMaxLength then Some (RequestUriTooLong, req, buf)
          else
            let res = split (take crlf (peek buf)) SP
            in if length res \<noteq> 3 then Some (BadRequest, req, buf)
               else case map_of methods (res ! 0) of
                 None \<Rightarrow> Some (BadRequest, req, buf)
               | Some m \<Rightarrow>
                   (case parse_request_uri (req\<lparr>req_method := m\<rparr>) (res ! 1) of
                      None \<Rightarrow> None
                    | Some (ok, req1) \<Rightarrow>
                        if \<not> ok then Some (BadRequest, req1, buf)
                        else case parse_version (res ! 2) of
                          Inl c \<Rightarrow> Some (c, req1, buf)
                        | Inr v \<Rightarrow> Some (Ok, req1\<lparr>http_version := v\<rparr>, retrieve buf (crlf + 2))))"

definition request_clear :: "request \<Rightarrow> request" where
  "request_clear req = req\<lparr>req_state := ParseLine, abs_path := [], query_params := [], msg := message_clear (msg req)\<rparr>"

definition req_headers :: "request \<Rightarrow> headers" where
  "req_headers req = headers (msg req)"

section \<open>Responses\<close>

datatype conn_op = Send string | SendFile string nat nat | OnComplete | CloseConn

text \<open>\<open>date\<close> is what \<^verbatim>\<open>format_date()\<close> returns at the time of the call.\<close>

record response =
  status_code :: StatusCode
  res_headers :: headers
  res_buf :: string
  res_chunked :: bool
  chunked_buf :: string
  conn_ops :: "conn_op list"
  date :: string

fun to_str :: "StatusCode \<Rightarrow> string" where
  "to_str Continue = ''Continue''" | "to_str SwitchingProtocols = ''Switching Protocols''" | "to_str Ok = ''OK''"
| "to_str Created = ''Created''" | "to_str Accepted = ''Accepted''"
| "to_str NonAuthoritativeInformation = ''Non Authoritative Information''" | "to_str NoContent = ''No Content''"
| "to_str ResetContent = ''Reset Content''" | "to_str PartialContent = ''Partial Content''"
| "to_str MultipleChoices = ''Multiple Choices''" | "to_str MovedPermanently = ''Moved Permanently''" | "to_str Found = ''Found''"
| "to_str SeeOther = ''See Other''" | "to_str NotModified = ''Not Modified''" | "to_str UseProxy = ''Use Proxy''"
| "to_str TemporaryRedirect = ''Temporary Redirect''" | "to_str BadRequest = ''Bad Request''"
| "to_str Unauthorized = ''Unauthorized''" | "to_str Forbidden = ''Forbidden''" | "to_str NotFound = ''Not Found''"
| "to_str MethodNotAllowed = ''Method Not Allowed''" | "to_str NotAcceptable = ''Not Acceptable''"
| "to_str ProxyAuthenticationRequired = ''Proxy Authentication Required''" | "to_str RequestTimeout = ''Request Timeout''"
| "to_str Conflict = ''Conflict''" | "to_str Gone = ''Gone''" | "to_str LengthRequired = ''Length Required''"
| "to_str PreconditionFailed = ''Precondition Failed''" | "to_str RequestEntityTooLarge = ''Request Entity Too Large''"
| "to_str RequestUriTooLong = ''Request-URI Too Long''" | "to_str UnsupportedMediaType = ''Unsupported Media Type''"
| "to_str RequestedRangeNotSatisfiable = ''Requested Range Not Satisfiable''" | "to_str ExpectationFailed = ''Expectation Failed''"
| "to_str InternalServerError = ''Internal Server Error''" | "to_str NotImplemented = ''Not Implemented''"
| "to_str BadGateway = ''Bad Gateway''" | "to_str ServiceUnavailable = ''Service Unavailable''"
| "to_str GatewayTimeout = ''Gateway Timeout''" | "to_str HttpVersionNotSupported = ''Http Version Not Supported''"

definition index_page :: string where
  "index_page = ''<html>'' @ [LF] @ ''<head><title>angel-server</title></head>'' @ [LF] @ ''<body>'' @ [LF] @
     ''<center><h1>Welcome to angel-server!</h1></center>'' @ [LF] @ ''</body>'' @ [LF] @ ''</html>'' @ [LF]"

definition err_page :: "StatusCode \<Rightarrow> string" where
  "err_page c =
     (let text = dec (status_value c) @ [SP] @ to_str c
      in take 1023 (''<html>'' @ [LF] @ ''<head><title>'' @ text @ ''</title></head>'' @ [LF] @ ''<body>'' @ [LF] @
           ''<center><h1>'' @ text @ ''</h1></center>'' @ [LF] @ ''<hr><center>ange-server</center>'' @ [LF] @
           ''</body>'' @ [LF] @ ''</html>''))"

definition set_status_code :: "StatusCode \<Rightarrow> response \<Rightarrow> response" where
  "set_status_code c res = res\<lparr>status_code := c\<rparr>"

definition add_header :: "string \<Rightarrow> string \<Rightarrow> response \<Rightarrow> response" where
  "add_header field val res = res\<lparr>res_headers := hdr_emplace field val (res_headers res)\<rparr>"

definition conn_call :: "conn_op list \<Rightarrow> response \<Rightarrow> response" where
  "conn_call ops res = res\<lparr>conn_ops := conn_ops res @ ops\<rparr>"

definition append_status_line :: "response \<Rightarrow> response" where
  "append_status_line res =
     res\<lparr>res_buf := res_buf res @ ''HTTP/1.1'' @ [SP] @ dec (status_value (status_code res)) @ [SP] @ to_str (status_code res) @ CRLF\<rparr>"

definition header :: "response \<Rightarrow> response" where
  "header res =
     (let r1 = append_status_line (res\<lparr>res_buf := []\<rparr>);
          r2 = add_header ''Date'' (date r1) (add_header ''Server'' ''angel'' r1)
      in r2\<lparr>res_buf := res_buf r2 @ format_fields (res_headers r2), res_headers := []\<rparr>)"

definition BufferedSize :: nat where
  "BufferedSize = 4096"

definition res_send :: "string \<Rightarrow> response \<Rightarrow> response" where
  "res_send content res =
     (let r1 = header (if length content > 0 then add_header ''Content-Length'' (dec (length content)) res else res)
      in if length content \<ge> BufferedSize then conn_call [Send (res_buf r1), Send content] r1
         else let r2 = r1\<lparr>res_buf := res_buf r1 @ content\<rparr> in conn_call [Send (res_buf r2)] r2)"

definition set_content :: "string \<Rightarrow> string \<Rightarrow> response \<Rightarrow> response" where
  "set_content content type res = res_send content (add_header ''Content-Type'' type res)"

text \<open>\<^verbatim>\<open>snprintf\<close> into 16 bytes keeps 15 characters.\<close>

definition chunk_head :: "response \<Rightarrow> string \<Rightarrow> response" where
  "chunk_head res c =
     (if res_chunked res then res
      else
        let r1 = header (add_header ''Transfer-Encoding'' ''chunked'' (res\<lparr>res_chunked := True\<rparr>))
        in if length c \<ge> BufferedSize then conn_call [Send (res_buf r1)] r1
           else r1\<lparr>chunked_buf := chunked_buf r1 @ res_buf r1\<rparr>)"

definition send_chunk :: "string \<Rightarrow> response \<Rightarrow> response" where
  "send_chunk c res =
     (let r1 = chunk_head res c; x = take 15 (hex (length c) @ CRLF)
      in if length c \<ge> BufferedSize then
           (conn_call [Send (chunked_buf r1 @ x), Send c] r1)\<lparr>chunked_buf := CRLF\<rparr>
         else
           let r2 = r1\<lparr>chunked_buf := chunked_buf r1 @ x @ c @ CRLF\<rparr>
           in if length (chunked_buf r2) \<ge> BufferedSize then (conn_call [Send (chunked_buf r2)] r2)\<lparr>chunked_buf := []\<rparr>
              else r2)"

definition send_done :: "response \<Rightarrow> response" where
  "send_done res =
     (let r1 = res\<lparr>res_chunked := False, chunked_buf := chunked_buf res @ ''0'' @ CRLF @ CRLF\<rparr>
      in (conn_call [Send (chunked_buf r1)] r1)\<lparr>chunked_buf := []\<rparr>)"

definition send_err :: "response \<Rightarrow> response" where
  "send_err res = res_send (err_page (status_code res)) (add_header ''Content-Type'' ''text/html'' res)"

definition fail_with :: "StatusCode \<Rightarrow> response \<Rightarrow> response" where
  "fail_with c res = send_err (set_status_code c res)"

section \<open>Conditional requests\<close>

datatype ConditionCode = NoHeader | Successful | Failed

definition expect :: "request \<Rightarrow> response \<Rightarrow> ConditionCode \<times> response" where
  "expect req res =
     (case hdr_find ''Expect'' (req_headers req) of
        None \<Rightarrow> (NoHeader, res)
      | Some v \<Rightarrow>
          if equal_case v ''100-continue'' then (Successful, res) else (Failed, fail_with ExpectationFailed res))"

definition if_match :: "request \<Rightarrow> response \<Rightarrow> ConditionCode \<times> response" where
  "if_match req res =
     (case hdr_find ''If-Match'' (req_headers req) of
        None \<Rightarrow> (NoHeader, res)
      | Some v \<Rightarrow>
          if v = ''*'' then (Successful, res)
          else if list_ex (\<lambda>e. strong_etag_equal e (etag req)) (split v CHR '','') then (Successful, res)
          else (Failed, fail_with PreconditionFailed res))"

definition if_modified_since :: "request \<Rightarrow> response \<Rightarrow> ConditionCode \<times> response" where
  "if_modified_since req res =
     (case hdr_find ''If-Modified-Since'' (req_headers req) of
        None \<Rightarrow> (NoHeader, res)
      | Some v \<Rightarrow>
          if v \<noteq> last_modified req then (Successful, res)
          else (Failed, res_send [] (set_status_code NotModified res)))"

definition is_get_or_head :: "request \<Rightarrow> bool" where
  "is_get_or_head req \<longleftrightarrow> req_method req = GET \<or> req_method req = HEAD"

definition if_none_match :: "request \<Rightarrow> response \<Rightarrow> ConditionCode \<times> response" where
  "if_none_match req res =
     (case hdr_find ''If-None-Match'' (req_headers req) of
        None \<Rightarrow> (NoHeader, res)
      | Some v \<Rightarrow>
          let etags = split v CHR '','';
              etag_equal = (if is_get_or_head req then weak_etag_equal else strong_etag_equal)
          in if v = ''*'' \<or> list_ex (\<lambda>e. etag_equal e (etag req)) etags then
               (Failed, if is_get_or_head req then res_send [] (set_status_code NotModified res)
                        else fail_with PreconditionFailed res)
             else (Successful, res))"

definition if_range :: "request \<Rightarrow> ConditionCode \<times> request" where
  "if_range req =
     (case hdr_find ''If-Range'' (req_headers req) of
        None \<Rightarrow> (NoHeader, req)
      | Some v \<Rightarrow>
          if hdr_find ''Range'' (req_headers req) = None then (Successful, req)
          else if (if is_etag v then strong_etag_equal v (etag req) else v = last_modified req) then (Successful, req)
          else (Successful, req\<lparr>msg := (msg req)\<lparr>headers := hdr_erase ''Range'' (headers (msg req))\<rparr>\<rparr>))"

definition if_unmodified_since :: "request \<Rightarrow> response \<Rightarrow> ConditionCode \<times> response" where
  "if_unmodified_since req res =
     (case hdr_find ''If-Unmodified-Since'' (req_headers req) of
        None \<Rightarrow> (NoHeader, res)
      | Some v \<Rightarrow>
          if v = last_modified req then (Successful, res) else (Failed, fail_with PreconditionFailed res))"

definition handle_conditional :: "request \<Rightarrow> response \<Rightarrow> ConditionCode \<times> request \<times> response" where
  "handle_conditional req0 res =
     (let req = snd (if_range req0); (sc, res1) = if_none_match req res
      in if sc \<noteq> NoHeader then (sc, req, res1)
         else let (sc, res2) = if_modified_since req res1
              in if sc \<noteq> NoHeader then (sc, req, res2)
                 else let (sc, res3) = if_match req res2
                      in if sc \<noteq> NoHeader then (sc, req, res3)
                         else let (sc, res4) = if_unmodified_since req res3 in (sc, req, res4))"

section \<open>Byte ranges\<close>

record byte_range =
  first_byte_pos :: int
  last_byte_pos :: int

definition range_length :: "byte_range \<Rightarrow> int" where
  "range_length r = last_byte_pos r - first_byte_pos r + 1"

text \<open>\<^verbatim>\<open>std::to_string\<close> of an \<^verbatim>\<open>off_t\<close>.\<close>

definition int_str :: "int \<Rightarrow> string" where
  "int_str i = (if i < 0 then CHR ''-'' # dec (nat (- i)) else dec (nat i))"

definition byte_range_str :: "byte_range \<Rightarrow> string" where
  "byte_range_str r = int_str (first_byte_pos r) @ ''-'' @ int_str (last_byte_pos r)"

definition content_range :: "string \<Rightarrow> nat \<Rightarrow> string" where
  "content_range resp fsize = ''bytes'' @ [SP] @ resp @ ''/'' @ dec fsize"

definition byte_pos :: "string \<Rightarrow> int" where
  "byte_pos s = (case svtoll s of Some v \<Rightarrow> v | None \<Rightarrow> -1)"

definition parse_byte_range_spec :: "nat \<Rightarrow> string \<Rightarrow> byte_range option" where
  "parse_byte_range_spec fsize spec =
     (let parts = split spec CHR ''-''
      in if length parts \<noteq> 2 then None
         else
           let first = byte_pos (trim (parts ! 0))
           in if first < 0 \<or> first \<ge> int fsize then None
              else if parts ! 1 \<noteq> [] then
                let last = byte_pos (trim (parts ! 1))
                in if last < 0 \<or> last < first then None
                   else Some \<lparr>first_byte_pos = first, last_byte_pos = (if last \<ge> int fsize then int fsize - 1 else last)\<rparr>
              else Some \<lparr>first_byte_pos = first, last_byte_pos = int fsize - 1\<rparr>)"

definition parse_suffix_byte_range_spec :: "nat \<Rightarrow> string \<Rightarrow> byte_range option" where
  "parse_suffix_byte_range_spec fsize spec =
     (let n = byte_pos spec
      in if n \<le> 0 then None
         else Some \<lparr>first_byte_pos = int fsize - min n (int fsize), last_byte_pos = int fsize - 1\<rparr>)"

definition parse_spec :: "nat \<Rightarrow> string \<Rightarrow> byte_range option" where
  "parse_spec fsize spec0 =
     (let spec = trim spec0
      in if length spec < 2 then None
         else if hd spec = CHR ''-'' then
           if \<not> isdigit (spec ! 1) then None else parse_suffix_byte_range_spec fsize (tl spec)
         else parse_byte_range_spec fsize spec)"

fun parse_specs :: "nat \<Rightarrow> string list \<Rightarrow> byte_range list option" where
  "parse_specs fsize [] = Some []"
| "parse_specs fsize (s # ss) =
     (case parse_spec fsize s of
        None \<Rightarrow> None
      | Some r \<Rightarrow> (case parse_specs fsize ss of None \<Rightarrow> None | Some rs \<Rightarrow> Some (r # rs)))"

definition parse_byte_ranges :: "nat \<Rightarrow> string \<Rightarrow> StatusCode \<times> byte_range list" where
  "parse_byte_ranges fsize field =
     (if \<not> starts_with field ''bytes='' then (Ok, [])
      else
        let rest = drop 6 field
        in if rest = [] then (Ok, [])
           else case parse_specs fsize (split rest CHR '','') of
             None \<Rightarrow> (RequestedRangeNotSatisfiable, [])
           | Some rs \<Rightarrow> (PartialContent, rs))"

text \<open>\<^verbatim>\<open>mime::generate_boundary\<close> numbers the boundaries of a thread.\<close>

definition generate_boundary :: "nat \<Rightarrow> string \<Rightarrow> nat \<Rightarrow> string" where
  "generate_boundary part tid time = ''----=_Part_'' @ dec part @ ''_'' @ tid @ ''.'' @ dec time"

definition multipart_type :: "string \<Rightarrow> string" where
  "multipart_type boundary = ''multipart/byteranges; boundary='' @ [DQ] @ boundary @ [DQ]"

definition part_length :: "nat \<Rightarrow> string \<Rightarrow> string \<Rightarrow> byte_range \<Rightarrow> nat" where
  "part_length fsize mime_type boundary r =
     (2 + length boundary + 2) + (length ''Content-Type'' + 2 + length mime_type + 2) +
     (length ''Content-Range'' + 2 + length (content_range (byte_range_str r) fsize) + 2) + 2 + (nat (range_length r) + 2)"

definition multipart_length :: "nat \<Rightarrow> string \<Rightarrow> string \<Rightarrow> byte_range list \<Rightarrow> nat" where
  "multipart_length fsize mime_type boundary rs =
     sum_list (map (part_length fsize mime_type boundary) rs) + (2 + length boundary + 2 + 2)"

definition build_multipart_header :: "nat \<Rightarrow> string \<Rightarrow> string \<Rightarrow> byte_range list \<Rightarrow> response \<Rightarrow> response" where
  "build_multipart_header fsize mime_type boundary rs res =
     add_header ''Content-Length'' (dec (multipart_length fsize mime_type boundary rs))
       (add_header ''Content-Type'' (multipart_type boundary) res)"

fun send_parts :: "nat \<Rightarrow> string \<Rightarrow> string \<Rightarrow> string \<Rightarrow> string \<Rightarrow> byte_range list \<Rightarrow> conn_op list" where
  "send_parts fsize mime_type boundary fpath buf [] = [Send (buf @ ''--'' @ boundary @ ''--'' @ CRLF), OnComplete]"
| "send_parts fsize mime_type boundary fpath buf (r # rs) =
     Send (buf @ ''--'' @ boundary @ CRLF @ format_header ''Content-Type'' mime_type @
           format_header ''Content-Range'' (content_range (byte_range_str r) fsize) @ CRLF)
     # SendFile fpath (nat (first_byte_pos r)) (nat (range_length r))
     # send_parts fsize mime_type boundary fpath CRLF rs"

definition send_range_response :: "nat \<Rightarrow> string \<Rightarrow> string \<Rightarrow> byte_range list \<Rightarrow> string \<Rightarrow> response \<Rightarrow> response" where
  "send_range_response fsize mime_type boundary rs fpath res0 =
     (let res = set_status_code PartialContent res0
      in case rs of
           [r] \<Rightarrow>
             conn_call [SendFile fpath (nat (first_byte_pos r)) (nat (range_length r)), OnComplete]
               (res_send [] (add_header ''Content-Length'' (int_str (range_length r))
                  (add_header ''Content-Range'' (content_range (byte_range_str r) fsize)
                     (add_header ''Content-Type'' mime_type res))))
         | _ \<Rightarrow>
             conn_call (send_parts fsize mime_type boundary fpath [] rs)
               (res_send [] (build_multipart_header fsize mime_type boundary rs res)))"

section \<open>The server\<close>

datatype http_fault = ReadOutOfBounds | NoSuchKey | LengthError | ScriptEnded

record world =
  files :: "string \<Rightarrow> (string \<times> int) option"
  hasher :: sha1
  part :: nat
  clock :: nat
  disk :: "write_res list"

type_synonym server_handler = "request \<Rightarrow> response \<Rightarrow> response"
type_synonym file_handler = "request \<Rightarrow> headers \<Rightarrow> headers"

text \<open>
  The configuration of a server, with what it takes from the system: the formatting of a time, the table of media
  types, the thread id, and which files can be opened for writing.
\<close>

record http_server =
  router :: "Method \<Rightarrow> (string \<Rightarrow> server_handler option) option"
  file_table :: "string \<Rightarrow> file_handler option"
  base_dir :: string
  generate_file_etag_by_sha1 :: bool
  fmt_date :: "int \<Rightarrow> string"
  types :: mimetypes
  tid :: string
  can_write :: "string \<Rightarrow> bool"

definition server_mime_type :: "http_server \<Rightarrow> string \<Rightarrow> string" where
  "server_mime_type srv fpath =
     (case get_mime_type (types srv) fpath of Some t \<Rightarrow> t | None \<Rightarrow> ''application/octet-stream'')"

definition set_base_dir :: "string \<Rightarrow> http_server \<Rightarrow> http_server" where
  "set_base_dir dir srv = srv\<lparr>base_dir := (if dir \<noteq> [] \<and> last dir = CHR ''/'' then butlast dir else dir)\<rparr>"

definition file_content :: "world \<Rightarrow> string \<Rightarrow> string" where
  "file_content w fpath = (case files w fpath of Some (content, mtime) \<Rightarrow> content | None \<Rightarrow> [])"

definition file_mtime :: "world \<Rightarrow> string \<Rightarrow> int" where
  "file_mtime w fpath = (case files w fpath of Some (content, mtime) \<Rightarrow> mtime | None \<Rightarrow> 0)"

definition http_send_file :: "http_server \<Rightarrow> request \<Rightarrow> response \<Rightarrow> world \<Rightarrow> response" where
  "http_send_file srv req res w =
     (let r1 = add_header ''Content-Type'' (server_mime_type srv (abs_path req)) (set_status_code Ok res)
      in if filesize req < 256 * 1024 then res_send (file_content w (abs_path req)) r1
         else conn_call [SendFile (abs_path req) 0 (filesize req), OnComplete]
                (res_send [] (add_header ''Content-Length'' (dec (filesize req)) r1)))"

definition update_file :: "http_server \<Rightarrow> request \<Rightarrow> response \<Rightarrow> world \<Rightarrow> http_fault + (response \<times> world)" where
  "update_file srv req res w =
     (if \<not> can_write srv (abs_path req) then Inr (fail_with InternalServerError res, w)
      else case write_file (body (msg req)) (disk w) [] of
        None \<Rightarrow> Inl ScriptEnded
      | Some (rc, written, answers) \<Rightarrow>
          let w1 = w\<lparr>files := (files w)(abs_path req \<mapsto> (written, int (clock w))), disk := answers\<rparr>
          in if \<not> rc then Inr (fail_with InternalServerError res, w1)
             else case hdr_find ''Host'' (req_headers req) of
               None \<Rightarrow> Inl NoSuchKey
             | Some hname \<Rightarrow>
                 Inr (res_send [] (add_header ''Location'' (''http://'' @ hname @ abs_path req)
                        (set_status_code (if has_file req then NoContent else Created) res)), w1))"

definition delete_file :: "request \<Rightarrow> response \<Rightarrow> world \<Rightarrow> response \<times> world" where
  "delete_file req res w =
     (res_send [] (set_status_code NoContent res),
      if has_file req then w\<lparr>files := (files w)(abs_path req := None)\<rparr> else w)"

definition handle_range_request :: "http_server \<Rightarrow> request \<Rightarrow> response \<Rightarrow> world \<Rightarrow> http_fault + (response \<times> world)" where
  "handle_range_request srv req res w =
     (let type = server_mime_type srv (abs_path req)
      in if filesize req = 0 then
           Inr (res_send [] (add_header ''Content-Length'' ''0'' (add_header ''Content-Type'' type (set_status_code Ok res))), w)
         else case hdr_find ''Range'' (req_headers req) of
           None \<Rightarrow> Inl NoSuchKey
         | Some field \<Rightarrow>
             (case parse_byte_ranges (filesize req) field of
                (Ok, rs) \<Rightarrow> Inr (http_send_file srv req res w, w)
              | (RequestedRangeNotSatisfiable, rs) \<Rightarrow>
                  Inr (conn_call [CloseConn] (res_send [] (add_header ''Content-Range'' (content_range ''*'' (filesize req))
                         (set_status_code RequestedRangeNotSatisfiable res))), w)
              | (c, rs) \<Rightarrow>
                  Inr (send_range_response (filesize req) type (generate_boundary (part w) (tid srv) (clock w)) rs (abs_path req) res,
                       if length rs = 1 then w else w\<lparr>part := part w + 1\<rparr>)))"

definition handle_file_router :: "http_server \<Rightarrow> request \<Rightarrow> response \<Rightarrow> response" where
  "handle_file_router srv req res =
     (case file_table srv (abs_path req) of None \<Rightarrow> res | Some h \<Rightarrow> res\<lparr>res_headers := h req (res_headers res)\<rparr>)"

definition handle_user_router :: "http_server \<Rightarrow> request \<Rightarrow> response \<Rightarrow> http_fault + (bool \<times> response)" where
  "handle_user_router srv req res =
     (case router srv (req_method req) of
        None \<Rightarrow> Inl NoSuchKey
      | Some table \<Rightarrow>
          (case table (abs_path req) of None \<Rightarrow> Inr (False, res) | Some h \<Rightarrow> Inr (True, h req res)))"

definition file_tag :: "http_server \<Rightarrow> world \<Rightarrow> string \<Rightarrow> http_fault + (string \<times> world)" where
  "file_tag srv w fpath =
     (let fsize = length (file_content w fpath)
      in if generate_file_etag_by_sha1 srv then
           (case generate_file_etag_sha1 (Some (file_content w fpath)) fsize (hasher w) of
              None \<Rightarrow> Inl LengthError
            | Some (tag, h) \<Rightarrow> Inr (tag, w\<lparr>hasher := h\<rparr>))
         else Inr (generate_file_etag (file_mtime w fpath) fsize, w))"

definition serve_file :: "http_server \<Rightarrow> request \<Rightarrow> response \<Rightarrow> world \<Rightarrow> http_fault + (request \<times> response \<times> world)" where
  "serve_file srv req0 res0 w0 =
     (case file_tag srv w0 (abs_path req0) of
        Inl f \<Rightarrow> Inl f
      | Inr (tag, w) \<Rightarrow>
          let req1 = req0\<lparr>filesize := length (file_content w (abs_path req0)),
                          last_modified := fmt_date srv (file_mtime w (abs_path req0)), etag := tag\<rparr>;
              res1 = add_header ''ETag'' (etag req1) (add_header ''Accept-Ranges'' ''bytes''
                       (add_header ''Last-Modified'' (last_modified req1) res0));
              (sc, req, res) = handle_conditional req1 res1
          in if sc = Failed then Inr (req, res, w)
             else if req_method req = GET then
               let res2 = handle_file_router srv req res
               in if hdr_find ''Range'' (req_headers req) \<noteq> None then
                    (case handle_range_request srv req res2 w of
                       Inl f \<Rightarrow> Inl f
                     | Inr (res3, w3) \<Rightarrow> Inr (req, res3, w3))
                  else Inr (req, http_send_file srv req res2 w, w)
             else if req_method req = HEAD then
               Inr (req, res_send [] (add_header ''Content-Length'' (dec (filesize req)) (set_status_code Ok res)), w)
             else Inr (req, res, w))"

definition handle_static_file_request :: "http_server \<Rightarrow> request \<Rightarrow> response \<Rightarrow> world \<Rightarrow> http_fault + (request \<times> response \<times> world)" where
  "handle_static_file_request srv req0 res w =
     (let root_index = (abs_path req0 = ''/'');
          fpath = base_dir srv @ abs_path req0 @ (if root_index then ''index.html'' else []);
          req = req0\<lparr>abs_path := fpath, has_file := files w fpath \<noteq> None\<rparr>
      in if req_method req = PUT then
           (case update_file srv req res w of Inl f \<Rightarrow> Inl f | Inr (res1, w1) \<Rightarrow> Inr (req, res1, w1))
         else if req_method req = DELETE then let (res1, w1) = delete_file req res w in Inr (req, res1, w1)
         else if \<not> has_file req then
           Inr (req, if root_index then res_send index_page (set_status_code Ok res) else fail_with NotFound res, w)
         else serve_file srv req res w)"

definition keepalive :: "request \<Rightarrow> bool" where
  "keepalive req =
     (case hdr_find ''Connection'' (req_headers req) of
        None \<Rightarrow> http_version req = HTTP_VERSION_1_1
      | Some v \<Rightarrow> equal_case v ''keep-alive'')"

definition route_request :: "http_server \<Rightarrow> request \<Rightarrow> response \<Rightarrow> world \<Rightarrow> http_fault + (request \<times> response \<times> world)" where
  "route_request srv req res w =
     (case req_method req of
        GET \<Rightarrow>
          (case handle_user_router srv req res of
             Inl f \<Rightarrow> Inl f
           | Inr (found, res1) \<Rightarrow>
               if found then Inr (req, res1, w) else handle_static_file_request srv req res1 w)
      | HEAD \<Rightarrow> handle_static_file_request srv req res w
      | POST \<Rightarrow>
          (case handle_user_router srv req res of Inl f \<Rightarrow> Inl f | Inr (found, res1) \<Rightarrow> Inr (req, res1, w))
      | PUT \<Rightarrow> handle_static_file_request srv req res w
      | DELETE \<Rightarrow> handle_static_file_request srv req res w
      | m \<Rightarrow> Inr (req, fail_with NotImplemented res, w))"

definition process_request :: "http_server \<Rightarrow> request \<Rightarrow> response \<Rightarrow> world \<Rightarrow> http_fault + (request \<times> response \<times> world)" where
  "process_request srv req res w =
     (let is_keepalive = keepalive req
      in case route_request srv req (add_header ''Connection'' (if is_keepalive then ''keep-alive'' else ''close'') res) w of
           Inl f \<Rightarrow> Inl f
         | Inr (req1, res1, w1) \<Rightarrow>
             Inr (request_clear req1, if is_keepalive then res1 else conn_call [CloseConn] res1, w1))"

section \<open>The message handler\<close>

record ctx =
  creq :: request
  cres :: response
  cworld :: world
  cbuf :: buffer

datatype handler_step = Finish "http_fault + ctx" | Again ctx

definition handler_err :: "StatusCode \<Rightarrow> ctx \<Rightarrow> ctx" where
  "handler_err c x =
     x\<lparr>cres := conn_call [CloseConn] (send_err (add_header ''Connection'' ''close'' (set_status_code c (cres x))))\<rparr>"

definition handle_request :: "http_server \<Rightarrow> ctx \<Rightarrow> handler_step" where
  "handle_request srv x =
     (case process_request srv (creq x) (cres x) (cworld x) of
        Inl f \<Rightarrow> Finish (Inl f)
      | Inr (req, res, w) \<Rightarrow> Again (x\<lparr>creq := req, cres := res, cworld := w\<rparr>))"

definition after_header :: "http_server \<Rightarrow> ctx \<Rightarrow> handler_step" where
  "after_header srv x =
     (if hdr_find ''Host'' (req_headers (creq x)) = None then Finish (Inr (handler_err BadRequest x))
      else
        let (sc, res) = expect (creq x) (cres x); x1 = x\<lparr>cres := res\<rparr>
        in if sc = Failed then Finish (Inr (x1\<lparr>creq := request_clear (creq x1)\<rparr>))
           else
             let (sc, m) = parse_body_length (msg (creq x1)); x2 = x1\<lparr>creq := (creq x1)\<lparr>msg := m\<rparr>\<rparr>
             in if sc = Ok then Again (x2\<lparr>creq := (creq x2)\<lparr>req_state := ParseBody\<rparr>\<rparr>)
                else if sc = Continue then handle_request srv x2
                else Finish (Inr (handler_err sc x2)))"

definition handle_step :: "http_server \<Rightarrow> ctx \<Rightarrow> handler_step" where
  "handle_step srv x =
     (case req_state (creq x) of
        ParseLine \<Rightarrow>
          (case request_parse_line (creq x) (cbuf x) of
             None \<Rightarrow> Finish (Inl ReadOutOfBounds)
           | Some (sc, req, buf) \<Rightarrow>
               let x1 = x\<lparr>creq := req, cbuf := buf\<rparr>
               in if sc = Ok then Again (x1\<lparr>creq := req\<lparr>req_state := ParseHeader\<rparr>\<rparr>)
                  else if sc = Continue then Finish (Inr x1)
                  else Finish (Inr (handler_err sc x1)))
      | ParseHeader \<Rightarrow>
          (case parse_header (headers (msg (creq x))) (cbuf x) of
             None \<Rightarrow> Finish (Inl ReadOutOfBounds)
           | Some (sc, hds, buf) \<Rightarrow>
               let x1 = x\<lparr>creq := (creq x)\<lparr>msg := (msg (creq x))\<lparr>headers := hds\<rparr>\<rparr>, cbuf := buf\<rparr>
               in if sc = Ok then after_header srv x1
                  else if sc = Continue then Finish (Inr x1)
                  else Finish (Inr (handler_err sc x1)))
      | ParseBody \<Rightarrow>
          (case parse_body (msg (creq x)) (cbuf x) of
             None \<Rightarrow> Finish (Inl ReadOutOfBounds)
           | Some (sc, m, buf) \<Rightarrow>
               let x1 = x\<lparr>creq := (creq x)\<lparr>msg := m\<rparr>, cbuf := buf\<rparr>
               in if sc = Ok then handle_request srv x1
                  else if sc = Continue then Finish (Inr x1)
                  else Finish (Inr (handler_err sc x1))))"

text \<open>Every round of the loop makes progress: it consumes bytes, or it leaves the state \<open>ParseBody\<close>.\<close>

lemma parse_header_unfold [consumes 1, case_names stop end_of_header field]:
  assumes "parse_header hds buf = Some (c, hds', b')"
  obtains "c \<noteq> Ok" "b' = buf"
  | "b' = retrieve buf 2" "readable buf \<noteq> 0"
  | crlf pos where "readable buf \<noteq> 0" "find_crlf buf = Some crlf" "crlf \<noteq> 0" "buf_find buf '':'' = Some pos" "\<not> pos > crlf"
      "parse_header (field_added hds (peek buf) pos crlf) (retrieve buf (crlf + 2)) = Some (c, hds', b')"
proof (cases "readable buf = 0 \<or> find_crlf buf = None")
  case True
  then have "parse_header hds buf = Some (Continue, hds, buf)" by (subst parse_header.simps) auto
  then show ?thesis using assms that(1) by simp
next
  case False
  then obtain crlf where c: "readable buf \<noteq> 0" "find_crlf buf = Some crlf" by auto
  show ?thesis
  proof (cases "crlf = 0")
    case True
    then show ?thesis using assms that(2) c by (simp add: parse_header.simps [of hds buf])
  next
    case nz: False
    show ?thesis
    proof (cases "buf_find buf '':''")
      case None
      then show ?thesis using assms that(1) c nz by (simp add: parse_header.simps [of hds buf])
    next
      case (Some pos)
      then have p: "\<not> pos > crlf" using assms c nz by (auto simp: parse_header.simps [of hds buf])
      then have "parse_header (field_added hds (peek buf) pos crlf) (retrieve buf (crlf + 2)) = Some (c, hds', b')"
        using assms c nz Some by (simp add: parse_header.simps [of hds buf] field_added_def Let_def)
      then show ?thesis using that(3) c nz Some p by blast
    qed
  qed
qed

lemma parse_header_readable:
  "parse_header hds buf = Some (c, hds', b') \<Longrightarrow> readable b' \<le> readable buf \<and> (c = Ok \<longrightarrow> readable b' < readable buf)"
proof (induction hds buf rule: parse_header.induct)
  case (1 hds buf)
  from 1(2) show ?case
  proof (cases rule: parse_header_unfold)
    case end_of_header
    then show ?thesis using readable_retrieve_lt [of buf 2] by simp
  next
    case (field crlf pos)
    have "readable b' \<le> readable (retrieve buf (crlf + 2)) \<and> (c = Ok \<longrightarrow> readable b' < readable (retrieve buf (crlf + 2)))"
      by (rule 1(1) [OF field(1-5) refl refl refl]) (rule field(6) [unfolded field_added_def Let_def])
    then show ?thesis using readable_retrieve_le [of buf "crlf + 2"] by auto
  qed simp
qed

lemma readable_retrieve_all: "readable (retrieve_all buf) \<le> readable buf"
  unfolding retrieve_all_def by (rule readable_retrieve_le)

lemma chunk_data_readable: "chunk_data m buf = Return c m' b \<Longrightarrow> readable b \<le> readable buf"
  by (auto simp: chunk_data_def Let_def readable_retrieve_le readable_retrieve_all split: if_splits)

lemma chunk_body_readable: "chunk_body m buf = Return c m' b \<Longrightarrow> readable b \<le> readable buf"
  using chunk_data_readable [of m buf c m' b] parse_header_readable [of "headers m" buf]
  by (auto simp: chunk_body_def Let_def readable_retrieve_le split: if_splits option.splits
      dest!: chunk_data_readable intro: order_trans [OF _ readable_retrieve_le])

lemma parse_body_by_chunked_readable: "parse_body_by_chunked m buf = Some (c, m', b) \<Longrightarrow> readable b \<le> readable buf"
proof (induction m buf rule: parse_body_by_chunked.induct)
  case (1 m buf)
  show ?case
  proof (cases "readable buf = 0")
    case True
    then show ?thesis using 1(2) by (simp add: parse_body_by_chunked.simps [of m buf])
  next
    case False
    show ?thesis
    proof (cases "chunk_body m buf")
      case (Return c1 m1 b1)
      then show ?thesis using 1(2) False chunk_body_readable [OF Return] by (simp add: parse_body_by_chunked.simps [of m buf])
    next
      case (Loop m1 b1)
      then have "readable b \<le> readable b1" using 1(1) [OF False Loop] 1(2) False by (simp add: parse_body_by_chunked.simps [of m buf])
      then show ?thesis using chunk_body_less [of buf m, OF _ Loop] False by simp
    qed (use 1(2) False in \<open>simp add: parse_body_by_chunked.simps [of m buf]\<close>)
  qed
qed

lemma parse_body_readable: "parse_body m buf = Some (c, m', b) \<Longrightarrow> readable b \<le> readable buf"
  by (auto simp: parse_body_def parse_body_by_content_length_def readable_retrieve_le readable_retrieve_all
      dest: parse_body_by_chunked_readable split: if_splits)

lemma request_parse_line_readable:
  "request_parse_line req buf = Some (Ok, req', b) \<Longrightarrow> readable buf \<noteq> 0 \<Longrightarrow> readable b < readable buf"
  by (auto simp: request_parse_line_def Let_def parse_version_def readable_retrieve_lt split: option.splits if_splits)

lemma process_request_state: "process_request srv req res w = Inr (req', res', w') \<Longrightarrow> req_state req' = ParseLine"
  by (auto simp: process_request_def request_clear_def Let_def split: sum.splits)

definition progress :: "ctx \<Rightarrow> nat" where
  "progress x = 2 * readable (cbuf x) + (if req_state (creq x) = ParseBody then 1 else 0)"

lemma handle_request_progress:
  "handle_request srv x = Again x' \<Longrightarrow> cbuf x' = cbuf x \<and> req_state (creq x') = ParseLine"
  by (auto simp: handle_request_def process_request_state split: sum.splits)

lemma after_header_progress: "after_header srv x = Again x' \<Longrightarrow> cbuf x' = cbuf x"
  by (auto simp: after_header_def Let_def dest!: handle_request_progress split: if_splits prod.splits)

lemma handle_step_progress:
  assumes "handle_step srv x = Again x'" and "readable (cbuf x) \<noteq> 0"
  shows "progress x' < progress x"
proof (cases "req_state (creq x)")
  case ParseLine
  with assms show ?thesis
    by (auto simp: handle_step_def Let_def progress_def dest!: request_parse_line_readable split: option.splits if_splits)
next
  case ParseHeader
  then obtain hds buf where "parse_header (headers (msg (creq x))) (cbuf x) = Some (Ok, hds, buf)"
      "after_header srv (x\<lparr>creq := (creq x)\<lparr>msg := (msg (creq x))\<lparr>headers := hds\<rparr>\<rparr>, cbuf := buf\<rparr>) = Again x'"
    using assms by (auto simp: handle_step_def Let_def split: option.splits if_splits)
  then show ?thesis using parse_header_readable after_header_progress ParseHeader by (fastforce simp: progress_def)
next
  case ParseBody
  then obtain m buf where "parse_body (msg (creq x)) (cbuf x) = Some (Ok, m, buf)"
      "handle_request srv (x\<lparr>creq := (creq x)\<lparr>msg := m\<rparr>, cbuf := buf\<rparr>) = Again x'"
    using assms by (auto simp: handle_step_def Let_def split: option.splits if_splits)
  then show ?thesis using parse_body_readable handle_request_progress ParseBody by (fastforce simp: progress_def)
qed

function handle_messages :: "http_server \<Rightarrow> ctx \<Rightarrow> http_fault + ctx" where
  "handle_messages srv x =
     (if readable (cbuf x) = 0 then Inr x
      else case handle_step srv x of Finish r \<Rightarrow> r | Again x' \<Rightarrow> handle_messages srv x')"
  by pat_completeness auto
termination
  by (relation "measure (\<lambda>(srv, x). progress x)") (auto simp: handle_step_progress)

declare handle_messages.simps [simp del]

definition message_handler :: "http_server \<Rightarrow> bool \<Rightarrow> ctx \<Rightarrow> http_fault + ctx" where
  "message_handler srv is_connected x = (if \<not> is_connected then Inr x else handle_messages srv x)"

section \<open>What goes over the wire\<close>

fun op_bytes :: "world \<Rightarrow> conn_op \<Rightarrow> string" where
  "op_bytes w (Send s) = s"
| "op_bytes w (SendFile fpath offset n) = take n (drop offset (file_content w fpath))"
| "op_bytes w OnComplete = []"
| "op_bytes w CloseConn = []"

definition wire :: "world \<Rightarrow> conn_op list \<Rightarrow> string" where
  "wire w ops = concat (map (op_bytes w) ops)"

lemma wire_simps [simp]:
  "wire w [] = []" "wire w (op # ops) = op_bytes w op @ wire w ops" "wire w (xs @ ys) = wire w xs @ wire w ys"
  by (simp_all add: wire_def)

definition status_line :: "StatusCode \<Rightarrow> string" where
  "status_line c = ''HTTP/1.1'' @ [SP] @ dec (status_value c) @ [SP] @ to_str c @ CRLF"

definition all_headers :: "response \<Rightarrow> headers" where
  "all_headers res = hdr_emplace ''Date'' (date res) (hdr_emplace ''Server'' ''angel'' (res_headers res))"

lemma response_simps [simp]:
  "status_code (set_status_code c res) = c" "res_headers (set_status_code c res) = res_headers res"
  "conn_ops (set_status_code c res) = conn_ops res" "date (set_status_code c res) = date res"
  "status_code (add_header f v res) = status_code res" "res_headers (add_header f v res) = hdr_emplace f v (res_headers res)"
  "conn_ops (add_header f v res) = conn_ops res" "date (add_header f v res) = date res"
  "conn_ops (conn_call ops res) = conn_ops res @ ops" "res_headers (conn_call ops res) = res_headers res"
  "chunked_buf (conn_call ops res) = chunked_buf res" "res_chunked (conn_call ops res) = res_chunked res"
  "chunked_buf (add_header f v res) = chunked_buf res" "res_chunked (add_header f v res) = res_chunked res"
  "res_buf (conn_call ops res) = res_buf res"
  by (simp_all add: set_status_code_def add_header_def conn_call_def)

lemma header_fields [simp]:
  "res_buf (header res) = status_line (status_code res) @ format_fields (all_headers res)" "res_headers (header res) = []"
  "conn_ops (header res) = conn_ops res" "chunked_buf (header res) = chunked_buf res" "res_chunked (header res) = res_chunked res"
  by (simp_all add: header_def append_status_line_def status_line_def all_headers_def add_header_def)

lemma res_send_ops:
  "conn_ops (res_send b res) = conn_ops res @
     (let r = (if b = [] then res else add_header ''Content-Length'' (dec (length b)) res);
          h = status_line (status_code res) @ format_fields (all_headers r)
      in if length b \<ge> BufferedSize then [Send h, Send b] else [Send (h @ b)])"
  by (simp add: res_send_def Let_def conn_call_def BufferedSize_def)

section \<open>Announced and sent lengths\<close>

text \<open>
  \<open>framed w ops\<close>: the calls send one response whose head announces the number of bytes that follow, where no
  \<^verbatim>\<open>Content-Length\<close> stands for no bytes.
\<close>

definition framed :: "world \<Rightarrow> conn_op list \<Rightarrow> bool" where
  "framed w ops \<longleftrightarrow> (\<exists>c hds rest. wire w ops = status_line c @ format_fields hds @ rest \<and>
     (case hdr_find ''Content-Length'' hds of None \<Rightarrow> rest = [] | Some v \<Rightarrow> v = dec (length rest)))"

lemma equal_case_literals [simp]:
  "\<not> equal_case ''Date'' ''Content-Length''" "\<not> equal_case ''Server'' ''Content-Length''" "\<not> equal_case ''Content-Type'' ''Content-Length''"
  "\<not> equal_case ''Content-Range'' ''Content-Length''" "\<not> equal_case ''Connection'' ''Content-Length''" "\<not> equal_case ''ETag'' ''Content-Length''"
  "\<not> equal_case ''Accept-Ranges'' ''Content-Length''" "\<not> equal_case ''Last-Modified'' ''Content-Length''"
  by (simp_all add: equal_case_def char_eval)

lemma hdr_find_emplace:
  "hdr_find k (hdr_emplace f v hds) =
     (case hdr_find k hds of Some u \<Rightarrow> Some u
      | None \<Rightarrow> if hdr_find f hds = None \<and> equal_case f k then Some v else None)"
  by (auto simp: hdr_emplace_def hdr_find_append split: option.splits)

lemma hdr_find_emplace_other: "\<not> equal_case f k \<Longrightarrow> hdr_find k (hdr_emplace f v hds) = hdr_find k hds"
  by (simp add: hdr_find_emplace split: option.splits)

lemma hdr_find_emplace_new: "hdr_find f hds = None \<Longrightarrow> hdr_find f (hdr_emplace f v hds) = Some v"
  by (simp add: hdr_find_emplace)

lemma all_headers_length: "hdr_find ''Content-Length'' (all_headers res) = hdr_find ''Content-Length'' (res_headers res)"
  by (simp add: all_headers_def hdr_find_emplace_other)

lemmas header_lookup = hdr_find_emplace_other hdr_find_emplace_new all_headers_length

text \<open>\<^verbatim>\<open>send\<close> with the body itself, and \<^verbatim>\<open>send\<close> of the head followed by further calls.\<close>

lemma framed_send:
  assumes "hdr_find ''Content-Length'' (res_headers res) = None"
  shows "\<exists>ops. conn_ops (res_send b res) = conn_ops res @ ops \<and> framed w ops"
proof -
  let ?r = "if b = [] then res else add_header ''Content-Length'' (dec (length b)) res"
  let ?ops = "drop (length (conn_ops res)) (conn_ops (res_send b res))"
  have "wire w ?ops = status_line (status_code res) @ format_fields (all_headers ?r) @ b"
    by (simp add: res_send_ops Let_def)
  moreover have "(case hdr_find ''Content-Length'' (all_headers ?r) of None \<Rightarrow> b = [] | Some v \<Rightarrow> v = dec (length b))"
    using assms by (auto simp: header_lookup)
  ultimately have "framed w ?ops" unfolding framed_def by blast
  moreover have "conn_ops (res_send b res) = conn_ops res @ ?ops" by (simp add: res_send_ops Let_def)
  ultimately show ?thesis by blast
qed

lemma dec_zero: "dec 0 = ''0''"
  by (subst dec.simps) (simp add: digit_0)

lemma framed_head:
  assumes "hdr_find ''Content-Length'' (res_headers res) = Some (dec (length (wire w ops)))"
  shows "\<exists>ops'. conn_ops (conn_call ops (res_send [] res)) = conn_ops res @ ops' \<and> framed w ops'"
proof -
  have "framed w (Send (status_line (status_code res) @ format_fields (all_headers res)) # ops)"
    unfolding framed_def using assms by (intro exI [of _ "status_code res"] exI [of _ "all_headers res"] exI [of _ "wire w ops"])
      (simp add: header_lookup)
  then show ?thesis by (auto simp: res_send_ops Let_def BufferedSize_def)
qed

definition range_ok :: "nat \<Rightarrow> byte_range \<Rightarrow> bool" where
  "range_ok n r \<longleftrightarrow> 0 \<le> first_byte_pos r \<and> first_byte_pos r \<le> last_byte_pos r \<and> last_byte_pos r < int n"

lemma range_bytes: "range_ok n r \<Longrightarrow> min (n - nat (first_byte_pos r)) (nat (range_length r)) = nat (range_length r)"
  by (auto simp: range_ok_def range_length_def min_def nat_le_iff)

lemma parts_length:
  assumes "list_all (range_ok n) rs" and "n = length (file_content w fpath)"
  shows "length (wire w (send_parts n t bd fpath buf rs)) = length buf + multipart_length n t bd rs"
  using assms
  by (induction rs arbitrary: buf) (auto simp: multipart_length_def part_length_def format_header_def range_bytes)

lemma send_range_response_framed:
  assumes rs: "list_all (range_ok n) rs" and n: "n = length (file_content w fpath)"
    and res: "hdr_find ''Content-Length'' (res_headers res) = None"
  shows "\<exists>ops. conn_ops (send_range_response n t bd rs fpath res) = conn_ops res @ ops \<and> framed w ops"
proof (cases "\<exists>r. rs = [r]")
  case True
  then obtain r where r: "rs = [r]" by blast
  let ?ops = "[SendFile fpath (nat (first_byte_pos r)) (nat (range_length r)), OnComplete]"
  have "int_str (range_length r) = dec (length (wire w ?ops))"
    using rs n range_bytes [of n r] by (simp add: r int_str_def range_ok_def range_length_def)
  note len = this
  let ?res = "add_header ''Content-Length'' (int_str (range_length r))
      (add_header ''Content-Range'' (content_range (byte_range_str r) n) (add_header ''Content-Type'' t (set_status_code PartialContent res)))"
  have "hdr_find ''Content-Length'' (res_headers ?res) = Some (dec (length (wire w ?ops)))"
    using res len by (simp add: header_lookup del: wire_simps)
  from framed_head [OF this] show ?thesis by (simp add: r send_range_response_def del: wire_simps)
next
  case False
  then have "send_range_response n t bd rs fpath res = conn_call (send_parts n t bd fpath [] rs)
      (res_send [] (build_multipart_header n t bd rs (set_status_code PartialContent res)))"
    by (auto simp: send_range_response_def Let_def split: list.splits)
  then show ?thesis
    using framed_head [of "build_multipart_header n t bd rs (set_status_code PartialContent res)" w "send_parts n t bd fpath [] rs"]
      parts_length [OF rs n, of t bd "[]"] res
    by (simp add: build_multipart_header_def header_lookup)
qed

lemma send_file_framed:
  assumes "filesize req = length (file_content w (abs_path req))" and "hdr_find ''Content-Length'' (res_headers res) = None"
  shows "\<exists>ops. conn_ops (http_send_file srv req res w) = conn_ops res @ ops \<and> framed w ops"
proof (cases "filesize req < 256 * 1024")
  case True
  then show ?thesis
    using framed_send [of "add_header ''Content-Type'' (server_mime_type srv (abs_path req)) (set_status_code Ok res)"
        "file_content w (abs_path req)" w] assms(2)
    by (simp add: http_send_file_def header_lookup)
next
  case False
  then show ?thesis
    using framed_head [of "add_header ''Content-Length'' (dec (filesize req))
        (add_header ''Content-Type'' (server_mime_type srv (abs_path req)) (set_status_code Ok res))" w
        "[SendFile (abs_path req) 0 (filesize req), OnComplete]"] assms
    by (simp add: http_send_file_def header_lookup Let_def)
qed

section \<open>Ranges\<close>

lemma parse_byte_range_spec_ok: "parse_byte_range_spec n s = Some r \<Longrightarrow> range_ok n r"
  by (auto simp: parse_byte_range_spec_def range_ok_def Let_def split: if_splits)

lemma parse_suffix_ok: "parse_suffix_byte_range_spec n s = Some r \<Longrightarrow> 0 < n \<Longrightarrow> range_ok n r"
  by (auto simp: parse_suffix_byte_range_spec_def range_ok_def Let_def split: if_splits)

lemma parse_specs_ok: "parse_specs n ss = Some rs \<Longrightarrow> 0 < n \<Longrightarrow> list_all (range_ok n) rs \<and> length rs = length ss"
  by (induction ss arbitrary: rs)
     (auto simp: parse_spec_def Let_def parse_byte_range_spec_ok parse_suffix_ok split: option.splits if_splits)

lemma ranges_inside:
  "parse_byte_ranges n field = (PartialContent, rs) \<Longrightarrow> 0 < n \<Longrightarrow> rs \<noteq> [] \<and> list_all (range_ok n) rs"
  using parse_specs_ok [of n _ rs] by (fastforce simp: parse_byte_ranges_def Let_def split: if_splits option.splits)

lemma parse_byte_ranges_code:
  "fst (parse_byte_ranges n f) = Ok \<or> fst (parse_byte_ranges n f) = RequestedRangeNotSatisfiable \<or> fst (parse_byte_ranges n f) = PartialContent"
  by (simp add: parse_byte_ranges_def Let_def split: option.splits)

section \<open>Chunked responses\<close>

text \<open>What was given to the connection and what still waits in \<^verbatim>\<open>chunked_buf\<close>.\<close>

definition chunk_bytes :: "world \<Rightarrow> response \<Rightarrow> string" where
  "chunk_bytes w res = wire w (conn_ops res) @ chunked_buf res"

lemma hex_length: "n < 16 ^ k \<Longrightarrow> 0 < k \<Longrightarrow> length (hex n) \<le> k"
proof (induction n arbitrary: k rule: hex.induct)
  case (1 n)
  show ?case
  proof (cases "n < 16")
    case True
    then show ?thesis using 1(3) by (simp add: hex.simps [of n])
  next
    case False
    then obtain j where j: "k = Suc j" "0 < j" using 1(2,3) by (cases k; cases "k - 1") auto
    then have "n div 16 < 16 ^ j" using 1(2) by (simp add: div_less_iff_less_mult mult.commute)
    then show ?thesis using 1(1) [of j] False j by (simp add: hex.simps [of n])
  qed
qed

lemma chunk_size_line: "length c < 2 ^ 52 \<Longrightarrow> take 15 (hex (length c) @ CRLF) = hex (length c) @ CRLF"
proof -
  assume "length c < 2 ^ 52"
  then have "length (hex (length c) @ CRLF) \<le> 15" using hex_length [of "length c" 13] by simp
  then show ?thesis by (rule take_all)
qed

lemma send_chunk_bytes:
  assumes "length c < 2 ^ 52"
  shows "chunk_bytes w (send_chunk c res) = chunk_bytes w (chunk_head res c) @ chunk c" "res_chunked (send_chunk c res)"
  unfolding send_chunk_def Let_def chunk_size_line [OF assms]
  by (auto simp: chunk_bytes_def chunk_def chunk_head_def conn_call_def Let_def)

lemma chunk_head_bytes:
  assumes "chunked_buf res = []"
  shows "chunk_bytes w (chunk_head res c) = chunk_bytes w res @
    (if res_chunked res then [] else status_line (status_code res) @
       format_fields (all_headers (add_header ''Transfer-Encoding'' ''chunked'' res)))"
  using assms by (auto simp: chunk_head_def chunk_bytes_def Let_def all_headers_def)

lemma chunk_head_again: "res_chunked res \<Longrightarrow> chunk_head res c = res"
  by (simp add: chunk_head_def)

lemma send_chunks_bytes:
  assumes "\<forall>c \<in> set cs. length c < 2 ^ 52" and "res_chunked res"
  shows "chunk_bytes w (fold send_chunk cs res) = chunk_bytes w res @ concat (map chunk cs) \<and> res_chunked (fold send_chunk cs res)"
  using assms
proof (induction cs arbitrary: res)
  case (Cons c cs)
  then show ?case using send_chunk_bytes(1) [of c w res] send_chunk_bytes(2) [of c res] chunk_head_again [of res c] by simp
qed simp

section \<open>Properties\<close>

text \<open>
  C19: byte ranges. A \<^verbatim>\<open>Range\<close> field of a request on a non-empty file is either ignored, refused, or gives at least one
  range, and every range lies inside the file: the later \<^verbatim>\<open>sendfile\<close> calls never leave it.
\<close>

theorem ranges_inside_file:
  assumes "parse_byte_ranges n field = (PartialContent, rs)" and "0 < n"
  shows "rs \<noteq> [] \<and> list_all (\<lambda>r. 0 \<le> first_byte_pos r \<and> first_byte_pos r \<le> last_byte_pos r \<and> last_byte_pos r < int n) rs"
  using ranges_inside [OF assms] by (simp add: range_ok_def [abs_def])

theorem ranges_inside_file_witness:
  "[\<lparr>first_byte_pos = 0, last_byte_pos = 4\<rparr>, \<lparr>first_byte_pos = 7, last_byte_pos = 9\<rparr>] \<noteq> [] \<and>
   list_all (\<lambda>r. 0 \<le> first_byte_pos r \<and> first_byte_pos r \<le> last_byte_pos r \<and> last_byte_pos r < int 10)
     [\<lparr>first_byte_pos = 0, last_byte_pos = 4\<rparr>, \<lparr>first_byte_pos = 7, last_byte_pos = 9\<rparr>]"
proof -
  have "parse_byte_ranges 10 ''bytes=0-4,-3'' = (PartialContent, [\<lparr>first_byte_pos = 0, last_byte_pos = 4\<rparr>, \<lparr>first_byte_pos = 7, last_byte_pos = 9\<rparr>])"
    by code_simp
  from ranges_inside_file [OF this] show ?thesis by simp
qed

text \<open>
  C18: the answer to a range request announces exactly the bytes that follow its head, whatever the ranges are: for
  one range, for several ranges in a multipart body (whose length is computed before it is built), for an ignored field and for an empty file.
\<close>

theorem range_answer_length:
  assumes "filesize req = length (file_content w (abs_path req))"
    and "hdr_find ''Range'' (req_headers req) = Some field"
    and "hdr_find ''Content-Length'' (res_headers res) = None"
  shows "\<exists>res' w' ops. handle_range_request srv req res w = Inr (res', w') \<and> conn_ops res' = conn_ops res @ ops \<and> framed w ops"
proof (cases "filesize req = 0")
  case True
  then show ?thesis
    using framed_head [of "add_header ''Content-Length'' ''0'' (add_header ''Content-Type''
        (server_mime_type srv (abs_path req)) (set_status_code Ok res))" w "[]"] assms(3)
    by (simp add: handle_range_request_def header_lookup conn_call_def dec_zero)
next
  case False
  obtain c rs where p: "parse_byte_ranges (filesize req) field = (c, rs)" by fastforce
  with parse_byte_ranges_code [of "filesize req" field]
  consider "c = Ok" | "c = RequestedRangeNotSatisfiable" | (part) "c = PartialContent" by auto
  then show ?thesis
  proof cases
    case 1
    then show ?thesis using send_file_framed [OF assms(1,3), of srv] False p assms(2) by (simp add: handle_range_request_def)
  next
    case 2
    obtain ops where "conn_ops (res_send [] (add_header ''Content-Range'' (content_range ''*'' (filesize req))
        (set_status_code RequestedRangeNotSatisfiable res))) = conn_ops res @ ops" "framed w ops"
      using framed_send [of "add_header ''Content-Range'' (content_range ''*'' (filesize req))
        (set_status_code RequestedRangeNotSatisfiable res)" "[]" w] assms(3) by (auto simp: header_lookup)
    moreover from this(2) have "framed w (ops @ [CloseConn])" by (simp add: framed_def)
    ultimately show ?thesis using 2 False p assms(2) by (simp add: handle_range_request_def)
  next
    case part
    have "list_all (range_ok (filesize req)) rs"
      using ranges_inside [OF p [unfolded part]] False by simp
    from send_range_response_framed [OF this assms(1,3)] part False p assms(2)
    show ?thesis by (simp add: handle_range_request_def)
  qed
qed


theorem range_answer_length_witness:
  "\<exists>res' w' ops. handle_range_request \<lparr>router = \<lambda>m. None, file_table = \<lambda>f. None, base_dir = ''.'', generate_file_etag_by_sha1 = False,
       fmt_date = \<lambda>t. ''d'', types = mimetypes_new [[''text/plain'', ''txt'']], tid = ''1'', can_write = \<lambda>f. False\<rparr>
     (request_new\<lparr>abs_path := ''./a.txt'', filesize := 6, msg := message_new\<lparr>headers := [(''Range'', ''bytes=0-1,-2'')]\<rparr>\<rparr>)
     \<lparr>status_code = Ok, res_headers = [], res_buf = [], res_chunked = False, chunked_buf = [], conn_ops = [], date = ''d''\<rparr>
     \<lparr>files = [''./a.txt'' \<mapsto> (''abcdef'', 0)], hasher = sha1_new, part = 1, clock = 0, disk = []\<rparr> = Inr (res', w') \<and>
     conn_ops res' = [] @ ops \<and> framed \<lparr>files = [''./a.txt'' \<mapsto> (''abcdef'', 0)], hasher = sha1_new, part = 1, clock = 0, disk = []\<rparr> ops"
  using range_answer_length [of "request_new\<lparr>abs_path := ''./a.txt'', filesize := 6, msg := message_new\<lparr>headers := [(''Range'', ''bytes=0-1,-2'')]\<rparr>\<rparr>"
      "\<lparr>files = [''./a.txt'' \<mapsto> (''abcdef'', 0)], hasher = sha1_new, part = 1, clock = 0, disk = []\<rparr>" "''bytes=0-1,-2''"
      "\<lparr>status_code = Ok, res_headers = [], res_buf = [], res_chunked = False, chunked_buf = [], conn_ops = [], date = ''d''\<rparr>"]
  by (simp add: file_content_def request_new_def req_headers_def)

text \<open>
  C20: a response that a handler sends in chunks and ends with \<^verbatim>\<open>send_done\<close>. However the chunks are buffered
  or passed on, the connection gets the head with \<^verbatim>\<open>Transfer-Encoding: chunked\<close> and then bytes which the body parser
  decodes to the concatenation of the chunks, with nothing left.
\<close>

theorem chunked_response_decodes:
  assumes "cs \<noteq> []" and "\<forall>c \<in> set cs. c \<noteq> [] \<and> length c < 2 ^ 52"
    and "\<not> res_chunked res" and "chunked_buf res = []" and "chunk_size m = -1"
  shows "\<exists>bytes. wire w (conn_ops (send_done (fold send_chunk cs res))) = wire w (conn_ops res) @ status_line (status_code res) @
      format_fields (all_headers (add_header ''Transfer-Encoding'' ''chunked'' res)) @ bytes \<and>
    (\<forall>buf. buffer_wf buf \<and> peek buf = bytes @ rest \<longrightarrow>
       (\<exists>buf'. parse_body_by_chunked m buf = Some (Ok, m\<lparr>body := body m @ concat cs, chunked := False\<rparr>, buf') \<and> peek buf' = rest))"
proof -
  obtain c cs' where cs: "cs = c # cs'" using assms(1) by (cases cs) auto
  let ?r = "send_chunk c res" and ?h = "status_line (status_code res) @ format_fields (all_headers (add_header ''Transfer-Encoding'' ''chunked'' res))"
  have "chunk_bytes w ?r = wire w (conn_ops res) @ ?h @ chunk c" "res_chunked ?r"
    using send_chunk_bytes(1) [of c w res] send_chunk_bytes(2) [of c res] chunk_head_bytes [OF assms(4), of w c] assms(2-4)
    by (simp_all add: cs chunk_bytes_def)
  then have "chunk_bytes w (fold send_chunk cs res) = wire w (conn_ops res) @ ?h @ concat (map chunk cs)"
    using send_chunks_bytes [of cs' ?r w] assms(2) by (simp add: cs)
  then have "wire w (conn_ops (send_done (fold send_chunk cs res))) = wire w (conn_ops res) @ ?h @ concat (map chunk cs) @ last_chunk"
    by (simp add: send_done_def chunk_bytes_def last_chunk_def Let_def)
  moreover have "\<forall>c \<in> set cs. c \<noteq> [] \<and> length c < 2 ^ 63" using assms(2) by (auto intro: less_trans)
  then have "\<exists>buf'. parse_body_by_chunked m buf = Some (Ok, m\<lparr>body := body m @ concat cs, chunked := False\<rparr>, buf') \<and> peek buf' = rest"
    if "buffer_wf buf" "peek buf = (concat (map chunk cs) @ last_chunk) @ rest" for buf
    using parse_chunked_chunks [OF that(1) _ assms(5)] that(2) by fastforce
  ultimately show ?thesis by (intro exI [of _ "concat (map chunk cs) @ last_chunk"]) simp
qed

theorem chunked_response_decodes_witness:
  "\<exists>bytes. wire \<lparr>files = \<lambda>f. None, hasher = sha1_new, part = 1, clock = 0, disk = []\<rparr>
      (conn_ops (send_done (fold send_chunk [''abc'', ''d'']
        \<lparr>status_code = Ok, res_headers = [], res_buf = [], res_chunked = False, chunked_buf = [], conn_ops = [], date = ''d''\<rparr>)))
    = status_line Ok @ format_fields [(''Transfer-Encoding'', ''chunked''), (''Server'', ''angel''), (''Date'', ''d'')] @ bytes \<and>
    (\<forall>buf. buffer_wf buf \<and> peek buf = bytes @ ''x'' \<longrightarrow>
       (\<exists>buf'. parse_body_by_chunked message_new buf = Some (Ok, message_new\<lparr>body := ''abcd'', chunked := False\<rparr>, buf') \<and> peek buf' = ''x''))"
  using chunked_response_decodes [of "[''abc'', ''d'']"
      "\<lparr>status_code = Ok, res_headers = [], res_buf = [], res_chunked = False, chunked_buf = [], conn_ops = [], date = ''d''\<rparr>"
      message_new "\<lparr>files = \<lambda>f. None, hasher = sha1_new, part = 1, clock = 0, disk = []\<rparr>" "''x''"]
  by (simp add: message_new_def all_headers_def add_header_def hdr_emplace_def equal_case_def char_eval)

text \<open>
  Validation of cached files. When the tag of a file is weakly equal to an entity tag of \<^verbatim>\<open>If-None-Match\<close>, a \<^verbatim>\<open>GET\<close> or \<^verbatim>\<open>HEAD\<close> is answered by
  status 304 and a head only, whatever the other conditions of the request say; when no tag matches, the date of
  \<^verbatim>\<open>If-Modified-Since\<close> is not looked at, so the answer is never 304.
\<close>

theorem none_match_decides:
  assumes "hdr_find ''If-None-Match'' (req_headers req) = Some v" and "is_get_or_head req"
  shows "(let (c, req', res') = handle_conditional req res
    in if v = ''*'' \<or> list_ex (\<lambda>e. weak_etag_equal e (etag req)) (split v CHR '','')
       then c = Failed \<and> conn_ops res' = conn_ops res @ [Send (status_line NotModified @ format_fields (all_headers res))]
       else c = Successful \<and> res' = res)"
proof -
  let ?req = "snd (if_range req)"
  have "\<not> equal_case ''Range'' ''If-None-Match''" by (simp add: equal_case_def char_eval)
  then have erase: "hdr_find ''If-None-Match'' (hdr_erase ''Range'' hds) = hdr_find ''If-None-Match'' hds" for hds
  proof (induction hds)
    case (Cons fv hds)
    have "equal_case f ''Range'' \<Longrightarrow> \<not> equal_case f ''If-None-Match''" for f
      by (auto simp: equal_case_def)
    with Cons show ?case by (cases fv) (auto simp: hdr_erase_def)
  qed (simp add: hdr_erase_def)
  have "hdr_find ''If-None-Match'' (req_headers ?req) = Some v" "is_get_or_head ?req" "etag ?req = etag req"
    using assms erase by (auto simp: if_range_def req_headers_def is_get_or_head_def split: option.splits)
  then show ?thesis
    by (simp add: handle_conditional_def if_none_match_def Let_def res_send_ops BufferedSize_def all_headers_def)
qed


theorem none_match_decides_witness:
  "let (c, req', res') = handle_conditional
        (request_new\<lparr>req_method := GET, etag := [DQ, CHR ''x'', DQ], last_modified := ''d'',
           msg := message_new\<lparr>headers := [(''If-None-Match'', ''W/'' @ [DQ, CHR ''x'', DQ]), (''If-Match'', ''y'')]\<rparr>\<rparr>)
        \<lparr>status_code = Ok, res_headers = [], res_buf = [], res_chunked = False, chunked_buf = [], conn_ops = [], date = ''d''\<rparr>
   in c = Failed \<and> conn_ops res' = [Send (status_line NotModified @ format_fields [(''Server'', ''angel''), (''Date'', ''d'')])]"
  using none_match_decides [of "request_new\<lparr>req_method := GET, etag := [DQ, CHR ''x'', DQ], last_modified := ''d'',
           msg := message_new\<lparr>headers := [(''If-None-Match'', ''W/'' @ [DQ, CHR ''x'', DQ]), (''If-Match'', ''y'')]\<rparr>\<rparr>" "''W/'' @ [DQ, CHR ''x'', DQ]"
      "\<lparr>status_code = Ok, res_headers = [], res_buf = [], res_chunked = False, chunked_buf = [], conn_ops = [], date = ''d''\<rparr>"]
  by (simp add: request_new_def req_headers_def is_get_or_head_def all_headers_def hdr_emplace_def equal_case_def char_eval
      split_single weak_etag_equal_def is_etag_def is_weak_etag_def is_strong_etag_def drop_weak_def starts_with_def)

section \<open>Requests that are not answered\<close>

text \<open>A \<^verbatim>\<open>POST\<close> to a path without handler is never answered; the connection stays open for the client to wait.\<close>

theorem post_unrouted_silent:
  assumes "req_method req = POST" and "router srv POST = Some table" and "table (abs_path req) = None" and "keepalive req"
  shows "\<exists>req' res'. process_request srv req res w = Inr (req', res', w) \<and> conn_ops res' = conn_ops res"
  using assms by (simp add: process_request_def route_request_def handle_user_router_def)

text \<open>\<^verbatim>\<open>router.at\<close> throws for a method for which no handler was ever registered, so a server of static files fails at its first \<^verbatim>\<open>GET\<close>.\<close>

theorem get_without_handlers_throws:
  assumes "req_method req = GET" and "router srv GET = None"
  shows "process_request srv req res w = Inl NoSuchKey"
  using assms by (simp add: process_request_def route_request_def handle_user_router_def Let_def)

text \<open>Entity tags behind the first one of a list are usually preceded by a blank, which is not removed: they never match.\<close>

theorem etag_after_blank: "\<not> weak_etag_equal (SP # e) t \<and> \<not> strong_etag_equal (SP # e) t"
  by (simp add: weak_etag_equal_def strong_etag_equal_def is_etag_def is_weak_etag_def is_strong_etag_def starts_with_def)

end
