(* ===== verification/HttpClient.thy ===== *)
theory HttpClient
  imports HttpServer "HOL-Library.Multiset"
begin

text \<open>
  The HTTP client of \<^verbatim>\<open>src/httplib/httplib.cc\<close>: the text of a request, the status line, the loop that reads a
  response, and the pool of connections of one route. Shown are the round trips between the client and the server of the theory
  HttpServer in both directions, and the bookkeeping of the pool.
\<close>

section \<open>Requests\<close>

record http_request =
  req_uri :: uri
  invalid_url :: bool
  hr_headers :: headers
  hr_body :: string
  hr_method :: string
  resolve_timeout :: int
  connection_timeout :: int
  request_timeout :: int
  pending_timeout :: int

definition http_request_new :: http_request where
  "http_request_new = \<lparr>req_uri = uri_clear, invalid_url = True, hr_headers = [], hr_body = [], hr_method = [],
     resolve_timeout = 10000, connection_timeout = 10000, request_timeout = 10000, pending_timeout = 10000\<rparr>"

text \<open>\<open>None\<close> stands for the read out of bounds of \<^verbatim>\<open>uri::parse\<close>.\<close>

definition set_url :: "string \<Rightarrow> http_request \<Rightarrow> http_request option" where
  "set_url url r = (case uri_parse url of None \<Rightarrow> None | Some (ok, u) \<Rightarrow> Some (r\<lparr>req_uri := u, invalid_url := \<not> ok\<rparr>))"

definition set_request_timeout :: "int \<Rightarrow> http_request \<Rightarrow> http_request" where
  "set_request_timeout ms r = (if ms > 0 then r\<lparr>request_timeout := ms\<rparr> else r)"

fun hdr_assign :: "string \<Rightarrow> string \<Rightarrow> headers \<Rightarrow> headers" where
  "hdr_assign k v [] = [(k, v)]"
| "hdr_assign k v ((f, u) # hds) = (if equal_case f k then (f, v) # hds else (f, u) # hdr_assign k v hds)"

definition request_headers :: "http_request \<Rightarrow> headers" where
  "request_headers r = hdr_assign ''Host'' (host (req_uri r)) (hr_headers r)"

definition http_request_str :: "http_request \<Rightarrow> string" where
  "http_request_str r =
     (let ps = params (req_uri r);
          buf = hr_method r @ [SP] @ path (req_uri r) @ (if ps \<noteq> [] then ''?'' else []) @
                concat (map (\<lambda>(k, v). uri_encode k @ ''='' @ uri_encode v @ ''&'') ps);
          line = (if ps \<noteq> [] then butlast buf @ [SP] else buf @ [SP])
      in line @ ''HTTP/1.1'' @ CRLF @ format_fields (request_headers r))"

section \<open>Responses\<close>

datatype ErrorCode = ErrNone | InvalidRequest | InvalidResponse | ResolveTimeoutOrNoAvailableAddr | ConnectionTimeout
  | ErrRequestTimeout | PendingTimeout | ConnectionResetByPeer

record http_response =
  err_code :: ErrorCode
  rs_version :: Version
  rs_status :: int
  status_message :: string
  rs_state :: ParseState
  rs_msg :: message

definition http_response_new :: http_response where
  "http_response_new = \<lparr>err_code = ErrNone, rs_version = HTTP_VERSION_1_0, rs_status = 0, status_message = [],
     rs_state = ParseLine, rs_msg = message_new\<rparr>"

text \<open>
  The status line. Without a blank behind the version or the code the pointers pass the end of the line: \<open>None\<close>.
\<close>

definition response_parse_line :: "http_response \<Rightarrow> buffer \<Rightarrow> (StatusCode \<times> http_response \<times> buffer) option" where
  "response_parse_line r buf =
     (case find_crlf buf of
        None \<Rightarrow> Some (Continue, r, buf)
      | Some crlf \<Rightarrow>
          let line = take crlf (peek buf); version = takeWhile (\<lambda>c. c \<noteq> SP) line;
              p1 = drop (length version + 1) line; num = takeWhile (\<lambda>c. c \<noteq> SP) p1;
              r1 = r\<lparr>rs_version := (if version = ''HTTP/1.1'' then HTTP_VERSION_1_1 else HTTP_VERSION_1_0)\<rparr>;
              r2 = r1\<lparr>rs_status := value_or (svtoi num) 0\<rparr>
          in if version \<noteq> ''HTTP/1.1'' \<and> version \<noteq> ''HTTP/1.0'' then Some (BadRequest, r, buf)
             else if length version = crlf then None
             else if rs_status r2 \<le> 0 then Some (BadRequest, r2, buf)
             else if length num = length p1 then None
             else Some (Ok, r2\<lparr>status_message := drop (length num + 1) p1\<rparr>, retrieve buf (crlf + 2)))"

datatype recv_step = RWait http_response buffer | REnd http_response buffer | RErr http_response buffer
  | RAgain http_response buffer | RFault

definition receive_step :: "http_response \<Rightarrow> buffer \<Rightarrow> recv_step" where
  "receive_step r buf =
     (case rs_state r of
        ParseLine \<Rightarrow>
          (case response_parse_line r buf of
             None \<Rightarrow> RFault
           | Some (c, r1, b1) \<Rightarrow>
               if c = Ok then RAgain (r1\<lparr>rs_state := ParseHeader\<rparr>) b1
               else if c = Continue then RWait r1 b1 else RErr r1 b1)
      | ParseHeader \<Rightarrow>
          (case parse_header (headers (rs_msg r)) buf of
             None \<Rightarrow> RFault
           | Some (c, hds, b1) \<Rightarrow>
               let r1 = r\<lparr>rs_msg := (rs_msg r)\<lparr>headers := hds\<rparr>\<rparr>
               in if c = Ok then
                    let (c2, m) = parse_body_length (rs_msg r1); r2 = r1\<lparr>rs_msg := m\<rparr>
                    in if c2 = Ok then RAgain (r2\<lparr>rs_state := ParseBody\<rparr>) b1
                       else if c2 = Continue then REnd r2 b1 else RErr r2 b1
                  else if c = Continue then RWait r1 b1 else RErr r1 b1)
      | ParseBody \<Rightarrow>
          (case parse_body (rs_msg r) buf of
             None \<Rightarrow> RFault
           | Some (c, m, b1) \<Rightarrow>
               let r1 = r\<lparr>rs_msg := m\<rparr>
               in if c = Ok then REnd r1 b1 else if c = Continue then RWait r1 b1 else RErr r1 b1))"

lemma response_parse_line_readable:
  "response_parse_line r buf = Some (Ok, r', b) \<Longrightarrow> readable buf \<noteq> 0 \<Longrightarrow> readable b < readable buf"
  by (auto simp: response_parse_line_def Let_def readable_retrieve_lt split: option.splits if_splits)

lemma receive_step_readable:
  assumes "receive_step r buf = RAgain r' b" and "readable buf \<noteq> 0"
  shows "readable b < readable buf"
  using assms
  by (cases "rs_state r")
     (auto simp: receive_step_def Let_def split: option.splits if_splits prod.splits
        dest: response_parse_line_readable parse_header_readable)

text \<open>
  The loop of \<^verbatim>\<open>http_client::receive\<close> for a leased connection, up to the delivery of the response.
\<close>

function receive_loop :: "http_response \<Rightarrow> buffer \<Rightarrow> recv_step" where
  "receive_loop r buf =
     (if readable buf = 0 then RWait r buf
      else case receive_step r buf of RAgain r' b' \<Rightarrow> receive_loop r' b' | s \<Rightarrow> s)"
  by pat_completeness auto
termination
  by (relation "measure (\<lambda>(r, buf). readable buf)") (auto simp: receive_step_readable)

declare receive_loop.simps [simp del]

text \<open>
  \<^verbatim>\<open>receive\<close>: the delivered response, if any, the response object that stays in the connection (moved-from
  strings and maps are empty, the other members keep their values) and the buffer.
\<close>

definition moved :: "http_response \<Rightarrow> http_response" where
  "moved r = r\<lparr>status_message := [], rs_msg := (rs_msg r)\<lparr>headers := [], body := []\<rparr>, rs_state := ParseLine\<rparr>"

definition receive :: "bool \<Rightarrow> http_response \<Rightarrow> buffer \<Rightarrow> (http_response option \<times> http_response \<times> buffer) option" where
  "receive is_leased r buf =
     (if \<not> is_leased then Some (None, r, retrieve_all buf)
      else case receive_loop r buf of
        RWait r1 b1 \<Rightarrow> Some (None, r1, b1)
      | REnd r1 b1 \<Rightarrow> Some (Some r1, moved r1, b1)
      | RErr r1 b1 \<Rightarrow> let r2 = r1\<lparr>err_code := InvalidResponse\<rparr> in Some (Some r2, moved r2, b1)
      | _ \<Rightarrow> None)"

definition err_str :: "ErrorCode \<Rightarrow> string" where
  "err_str e =
     (case e of
        InvalidRequest \<Rightarrow> ''Invalid Request'' | InvalidResponse \<Rightarrow> ''Invalid Response''
      | ResolveTimeoutOrNoAvailableAddr \<Rightarrow> ''Resolve Timeout Or No Available Addr''
      | ConnectionTimeout \<Rightarrow> ''Connection Timeout'' | ErrRequestTimeout \<Rightarrow> ''Request Timeout''
      | PendingTimeout \<Rightarrow> ''Pending Timeout'' | ConnectionResetByPeer \<Rightarrow> ''Connection Reset By Peer'' | ErrNone \<Rightarrow> ''None'')"

section \<open>The connection pool\<close>

text \<open>
  Connections are named by the order of their creation. A list entry is a \<^verbatim>\<open>unique_ptr\<close>; \<open>flags\<close> gives the members
  \<^verbatim>\<open>leased\<close> and \<^verbatim>\<open>removing\<close> of a connection. A failed \<^verbatim>\<open>assert\<close> is \<open>None\<close>.
\<close>

record conn_flags =
  is_leased :: bool
  removing :: bool
  create :: bool

record pool =
  avail :: "nat list"
  leased :: "nat list"
  flags :: "nat \<Rightarrow> conn_flags"
  created :: nat

definition pool_new :: pool where
  "pool_new = \<lparr>avail = [], leased = [], flags = \<lambda>c. \<lparr>is_leased = False, removing = False, create = False\<rparr>, created = 0\<rparr>"

definition create_connection :: "pool \<Rightarrow> pool" where
  "create_connection p =
     p\<lparr>leased := leased p @ [created p],
       flags := (flags p)(created p := \<lparr>is_leased = True, removing = False, create = True\<rparr>), created := created p + 1\<rparr>"

definition lease_connection :: "pool \<Rightarrow> pool" where
  "lease_connection p =
     (let c = last (avail p)
      in p\<lparr>leased := leased p @ [c], avail := butlast (avail p), flags := (flags p)(c := (flags p c)\<lparr>is_leased := True\<rparr>)\<rparr>)"

text \<open>The loops exchange the entry with the last one and drop the last one.\<close>

fun swap_remove :: "nat \<Rightarrow> nat list \<Rightarrow> nat list" where
  "swap_remove c [] = []"
| "swap_remove c (x # xs) =
     (if x = c then (if xs = [] then [] else last xs # butlast xs) else x # swap_remove c xs)"

definition release_connection :: "nat \<Rightarrow> pool \<Rightarrow> pool option" where
  "release_connection c p =
     (if \<not> is_leased (flags p c) then None
      else if c \<in> set (leased p) then
        Some (p\<lparr>avail := avail p @ [c], leased := swap_remove c (leased p),
                flags := (flags p)(c := (flags p c)\<lparr>is_leased := False\<rparr>)\<rparr>)
      else Some p)"

definition remove_connection :: "nat \<Rightarrow> pool \<Rightarrow> pool option" where
  "remove_connection c p =
     (if removing (flags p c) then None
      else
        let p1 = p\<lparr>flags := (flags p)(c := (flags p c)\<lparr>removing := True\<rparr>)\<rparr>
        in Some (if is_leased (flags p c) then p1\<lparr>leased := swap_remove c (leased p1)\<rparr>
                 else p1\<lparr>avail := swap_remove c (avail p1)\<rparr>))"

definition active_conns :: "pool \<Rightarrow> nat" where
  "active_conns p = length (leased p) + length (avail p)"

text \<open>
  \<^verbatim>\<open>http_client::send\<close> under the lock: the connection that gets the request, or \<open>None\<close> when the request has to wait. A new
  connection is started, an old one sends at once.
\<close>

definition acquire :: "nat \<Rightarrow> pool \<Rightarrow> nat option \<times> pool" where
  "acquire max_conns p =
     (if avail p = [] then
        if active_conns p < max_conns then
          let p1 = create_connection p; c = last (leased p1)
          in (Some c, p1\<lparr>flags := (flags p1)(c := (flags p1 c)\<lparr>create := False\<rparr>)\<rparr>)
        else (None, p)
      else let p1 = lease_connection p in (Some (last (leased p1)), p1))"

text \<open>
  The close handler of a connection: the requester is told when the connection is leased.
\<close>

definition connection_reset_by_peer :: "nat \<Rightarrow> pool \<Rightarrow> (bool \<times> pool) option" where
  "connection_reset_by_peer c p =
     (if removing (flags p c) then Some (False, p)
      else case remove_connection c p of None \<Rightarrow> None | Some p1 \<Rightarrow> Some (is_leased (flags p c), p1))"

datatype pool_op = Acquire | Release nat | Remove nat | ResetByPeer nat

fun pool_step :: "nat \<Rightarrow> pool_op \<Rightarrow> pool \<Rightarrow> pool option" where
  "pool_step n Acquire p = Some (snd (acquire n p))"
| "pool_step n (Release c) p = release_connection c p"
| "pool_step n (Remove c) p = remove_connection c p"
| "pool_step n (ResetByPeer c) p = map_option snd (connection_reset_by_peer c p)"

fun pool_run :: "nat \<Rightarrow> pool_op list \<Rightarrow> pool \<Rightarrow> pool option" where
  "pool_run n [] p = Some p"
| "pool_run n (op # ops) p = (case pool_step n op p of None \<Rightarrow> None | Some p' \<Rightarrow> pool_run n ops p')"

section \<open>Invariant of the pool\<close>

definition pool_inv :: "nat \<Rightarrow> pool \<Rightarrow> bool" where
  "pool_inv n p \<longleftrightarrow> distinct (avail p @ leased p) \<and> active_conns p \<le> n \<and>
     (\<forall>c \<in> set (avail p). \<not> is_leased (flags p c) \<and> \<not> removing (flags p c) \<and> c < created p) \<and>
     (\<forall>c \<in> set (leased p). is_leased (flags p c) \<and> \<not> removing (flags p c) \<and> c < created p)"

lemma last_butlast_facts:
  assumes "xs \<noteq> []"
  shows "insert (last xs) (set (butlast xs)) = set xs" "last xs \<notin> set (butlast xs) \<and> distinct (butlast xs) \<longleftrightarrow> distinct xs"
proof -
  have "mset (last xs # butlast xs) = mset xs" using arg_cong [OF append_butlast_last_id [OF assms], of mset] by simp
  from mset_eq_setD [OF this] mset_eq_imp_distinct_iff [OF this]
  show "insert (last xs) (set (butlast xs)) = set xs" "last xs \<notin> set (butlast xs) \<and> distinct (butlast xs) \<longleftrightarrow> distinct xs" by auto
qed

lemma swap_remove_facts:
  "distinct xs \<Longrightarrow> set (swap_remove c xs) = set xs - {c} \<and> distinct (swap_remove c xs) \<and> length (swap_remove c xs) \<le> length xs"
  by (induction c xs rule: swap_remove.induct) (auto simp: last_butlast_facts)

lemma swap_remove_less: "c \<in> set xs \<Longrightarrow> length (swap_remove c xs) < length xs"
  by (induction c xs rule: swap_remove.induct) auto

lemma acquire_inv:
  assumes "pool_inv n p"
  shows "pool_inv n (snd (acquire n p))"
proof (cases "avail p = []")
  case True
  then show ?thesis using assms
    by (auto simp: acquire_def create_connection_def pool_inv_def active_conns_def Let_def)
next
  case False
  let ?c = "last (avail p)"
  have "?c \<in> set (avail p)" using False by simp
  moreover have "insert ?c (set (butlast (avail p))) = set (avail p)" "?c \<notin> set (butlast (avail p))" "distinct (butlast (avail p))"
    using last_butlast_facts [OF False] assms by (auto simp: pool_inv_def)
  moreover have "Suc (length (leased p) + (length (avail p) - Suc 0)) \<le> n"
    using False assms by (cases "avail p") (auto simp: pool_inv_def active_conns_def)
  ultimately show ?thesis using assms False
    by (auto simp: acquire_def lease_connection_def pool_inv_def active_conns_def Let_def)
qed

lemma release_inv:
  assumes "pool_inv n p" and "release_connection c p = Some p'"
  shows "pool_inv n p'"
proof (cases "c \<in> set (leased p)")
  case True
  have "distinct (leased p)" using assms(1) by (simp add: pool_inv_def)
  with swap_remove_facts [of "leased p" c] swap_remove_less [OF True] assms True show ?thesis
    by (auto simp: release_connection_def pool_inv_def active_conns_def split: if_splits)
next
  case False
  then show ?thesis using assms by (auto simp: release_connection_def split: if_splits)
qed

lemma remove_inv:
  assumes "pool_inv n p" and "remove_connection c p = Some p'"
  shows "pool_inv n p'"
proof -
  have d: "distinct (leased p)" "distinct (avail p)" using assms(1) by (simp_all add: pool_inv_def)
  show ?thesis
  proof (cases "is_leased (flags p c)")
    case True
    with swap_remove_facts [OF d(1), of c] assms show ?thesis
      by (auto simp: remove_connection_def pool_inv_def active_conns_def Let_def split: if_splits)
  next
    case False
    with swap_remove_facts [OF d(2), of c] assms show ?thesis
      by (auto simp: remove_connection_def pool_inv_def active_conns_def Let_def split: if_splits)
  qed
qed

lemma pool_step_inv:
  assumes "pool_inv n p" and "pool_step n op p = Some p'"
  shows "pool_inv n p'"
proof (cases op)
  case Acquire
  then show ?thesis using acquire_inv [OF assms(1)] assms(2) by simp
next
  case (Release c)
  then show ?thesis using release_inv [OF assms(1)] assms(2) by simp
next
  case (Remove c)
  then show ?thesis using remove_inv [OF assms(1)] assms(2) by simp
next
  case (ResetByPeer c)
  then consider "p' = p" | "remove_connection c p = Some p'"
    using assms(2) by (auto simp: connection_reset_by_peer_def split: if_splits option.splits)
  then show ?thesis using remove_inv [OF assms(1)] assms(1) by cases simp_all
qed

lemma pool_run_inv: "pool_inv n p \<Longrightarrow> pool_run n ops p = Some p' \<Longrightarrow> pool_inv n p'"
proof (induction ops arbitrary: p)
  case (Cons op ops)
  then obtain p1 where "pool_step n op p = Some p1" "pool_run n ops p1 = Some p'" by (auto split: option.splits)
  then show ?case using Cons(1) pool_step_inv [OF Cons(2)] by blast
qed simp

lemma pool_new_inv: "pool_inv n pool_new"
  by (simp add: pool_inv_def pool_new_def active_conns_def)

text \<open>
  The pool of a route. After any sequence of requests, releases, removals and resets by the peer no connection
  is in the pool twice, at most the configured number of connections exists, and a request never gets a connection that another request holds.
\<close>

theorem pool_exclusive:
  assumes "pool_run n ops pool_new = Some p"
  shows "distinct (avail p @ leased p) \<and> active_conns p \<le> n \<and>
    (\<forall>c p'. acquire n p = (Some c, p') \<longrightarrow> c \<notin> set (leased p) \<and> c \<in> set (leased p') \<and> is_leased (flags p' c))"
proof -
  have inv: "pool_inv n p" using pool_run_inv [OF pool_new_inv assms] .
  have "c \<notin> set (leased p) \<and> c \<in> set (leased p') \<and> is_leased (flags p' c)" if "acquire n p = (Some c, p')" for c p'
  proof (cases "avail p = []")
    case True
    then show ?thesis using that inv
      by (auto simp: acquire_def create_connection_def pool_inv_def Let_def split: if_splits)
  next
    case False
    then have "last (avail p) \<in> set (avail p)" by simp
    with False show ?thesis using that inv by (auto simp: acquire_def lease_connection_def pool_inv_def Let_def)
  qed
  with inv show ?thesis by (simp add: pool_inv_def)
qed

theorem pool_exclusive_witness:
  "\<exists>p. pool_run 2 [Acquire, Acquire, Release 0, Acquire, ResetByPeer 1] pool_new = Some p \<and> distinct (avail p @ leased p) \<and> active_conns p \<le> 2 \<and>
    (\<forall>c p'. acquire 2 p = (Some c, p') \<longrightarrow> c \<notin> set (leased p) \<and> c \<in> set (leased p') \<and> is_leased (flags p' c))"
proof -
  obtain p where p: "pool_run 2 [Acquire, Acquire, Release 0, Acquire, ResetByPeer 1] pool_new = Some p"
    by (simp add: acquire_def create_connection_def pool_new_def active_conns_def release_connection_def lease_connection_def
        connection_reset_by_peer_def remove_connection_def Let_def)
  from pool_exclusive [OF p] p show ?thesis by blast
qed

section \<open>From the client to the server\<close>

definition request_target :: "uri \<Rightarrow> string" where
  "request_target u = path u @ (if params u \<noteq> [] then CHR ''?'' # format_params (params u) else [])"

lemma params_text:
  "ps \<noteq> [] \<Longrightarrow> butlast (concat (map (\<lambda>(k, v). uri_encode k @ ''='' @ uri_encode v @ ''&'') ps)) = format_params ps"
proof (induction ps)
  case (Cons kv ps)
  have "concat (map (\<lambda>(k, v). uri_encode k @ ''='' @ uri_encode v @ ''&'') qs) \<noteq> []" if "qs \<noteq> []" for qs
    using that by (cases qs) auto
  with Cons show ?case
    by (cases kv; cases "ps = []") (simp_all add: format_params_def format_param_def butlast_append join_Cons)
qed simp

lemma http_request_str_eq:
  "http_request_str r = hr_method r @ SP # request_target (req_uri r) @ SP # ''HTTP/1.1'' @ CRLF @ format_fields (request_headers r)"
proof (cases "params (req_uri r) = []")
  case False
  then have "concat (map (\<lambda>(k, v). uri_encode k @ ''='' @ uri_encode v @ ''&'') (params (req_uri r))) \<noteq> []"
    by (cases "params (req_uri r)") auto
  with False show ?thesis
    using params_text [OF False] by (simp add: http_request_str_def request_target_def Let_def butlast_append)
qed (simp add: http_request_str_def request_target_def)

lemma parse_request_uri_target:
  assumes "CHR ''?'' \<notin> set (path u)" "CHR ''#'' \<notin> set (path u)" "CHR ''%'' \<notin> set (path u)" and "distinct (map fst (params u))"
    and "abs_path req = []" "query_params req = []"
  shows "parse_request_uri req (request_target u) = Some (True, req\<lparr>abs_path := path u, query_params := params u\<rparr>)"
proof (cases "params u = []")
  case True
  have tw: "takeWhile (\<lambda>c. c \<noteq> CHR ''?'') (path u) = path u"
    using assms(1) by (auto simp: takeWhile_eq_all_conv)
  have "req\<lparr>abs_path := path u, query_params := []\<rparr> = req\<lparr>abs_path := path u\<rparr>" using assms(6) by (cases req) simp
  then show ?thesis using assms True by (simp add: parse_request_uri_def request_target_def uri_decode_plain tw)
next
  case False
  have no_hash: "takeWhile (\<lambda>c. c \<noteq> CHR ''#'') (format_params (params u)) = format_params (params u)"
    using format_params_chars [of "CHR ''#''" "params u"] by (auto simp: takeWhile_eq_all_conv)
  have "CHR ''#'' \<notin> set (request_target u)"
    using assms(2) format_params_chars [of "CHR ''#''" "params u"] by (auto simp: request_target_def)
  then have "takeWhile (\<lambda>c. c \<noteq> CHR ''#'') (request_target u) = request_target u" by (auto simp: takeWhile_eq_all_conv)
  moreover have "takeWhile (\<lambda>c. c \<noteq> CHR ''?'') (request_target u) = path u"
    using False assms(1) by (simp add: request_target_def takeWhile_until)
  ultimately show ?thesis
    using False assms parse_format_params [OF False] by (simp add: parse_request_uri_def request_target_def uri_decode_plain no_hash)
qed

lemma target_plain:
  assumes "\<not> uri_char c" "c \<notin> set (path u)" "c \<noteq> CHR ''?''" "c \<noteq> CHR ''=''" "c \<noteq> CHR ''&''"
  shows "c \<notin> set (request_target u)"
  using assms format_params_chars [of c "params u"] by (auto simp: request_target_def)

lemma methods_plain: "map_of methods s = Some m \<Longrightarrow> SP \<notin> set s \<and> CR \<notin> set s"
  by (auto simp: methods_def split: if_splits)

lemma request_line_parsed:
  assumes wf: "buffer_wf buf" and pk: "peek buf = s @ SP # request_target u @ SP # ''HTTP/1.1'' @ CRLF @ rest"
    and m: "map_of methods s = Some m"
    and p: "CHR ''?'' \<notin> set (path u)" "CHR ''#'' \<notin> set (path u)" "CHR ''%'' \<notin> set (path u)" "SP \<notin> set (path u)" "CR \<notin> set (path u)"
    and ps: "distinct (map fst (params u))" and len: "length s + length (request_target u) + 10 \<le> UriMaxLength"
    and req: "abs_path req = []" "query_params req = []"
  shows "\<exists>buf'. request_parse_line req buf = Some (Ok, req\<lparr>req_method := m, abs_path := path u, query_params := params u,
      http_version := HTTP_VERSION_1_1\<rparr>, buf') \<and> buffer_wf buf' \<and> peek buf' = rest"
proof -
  let ?line = "s @ SP # request_target u @ SP # ''HTTP/1.1''"
  have t: "SP \<notin> set (request_target u)" "CR \<notin> set (request_target u)" using target_plain p(4,5) by simp_all
  have pk': "peek buf = ?line @ CR # LF # rest" using pk by simp
  have crlf: "find_crlf buf = Some (length ?line)"
    unfolding find_crlf_search pk' by (rule search_CRLF_line) (use t methods_plain [OF m] in simp)
  have "split ?line SP = [s, request_target u, ''HTTP/1.1'']"
    using t methods_plain [OF m] by (simp add: split_append split_single)
  moreover have "take (length ?line) (peek buf) = ?line" unfolding pk' by (rule take_append_self)
  moreover have "parse_request_uri (req\<lparr>req_method := m\<rparr>) (request_target u)
      = Some (True, req\<lparr>req_method := m, abs_path := path u, query_params := params u\<rparr>)"
    using parse_request_uri_target [OF p(1-3) ps, of "req\<lparr>req_method := m\<rparr>"] req by simp
  ultimately have "request_parse_line req buf = Some (Ok, req\<lparr>req_method := m, abs_path := path u, query_params := params u,
      http_version := HTTP_VERSION_1_1\<rparr>, retrieve buf (length ?line + 2))"
    using len m unfolding request_parse_line_def crlf by (simp add: parse_version_def)
  moreover have "peek (retrieve buf (length ?line + 2)) = rest" unfolding retrieve_peek pk' by (rule drop_line)
  ultimately show ?thesis using retrieve_wf [OF wf] by blast
qed



definition sample_request :: http_request where
  "sample_request = http_request_new\<lparr>hr_method := ''GET'', hr_headers := [(''Accept'', ''*/*'')],
     req_uri := uri_clear\<lparr>host := ''a.org'', path := ''/x'', params := [(''k'', ''v w'')]\<rparr>\<rparr>"


section \<open>From the server to the client\<close>

lemma to_str_plain: "CR \<notin> set (to_str c)"
  by (cases c) simp_all

lemma status_value_pos: "0 < status_value c \<and> status_value c < 2 ^ 31"
  by (cases c) simp_all

lemma response_line_parsed:
  assumes wf: "buffer_wf buf" and pk: "peek buf = status_line c @ rest"
  shows "\<exists>buf'. response_parse_line r buf = Some (Ok, r\<lparr>rs_version := HTTP_VERSION_1_1, rs_status := int (status_value c),
      status_message := to_str c\<rparr>, buf') \<and> buffer_wf buf' \<and> peek buf' = rest"
proof -
  let ?n = "dec (status_value c)"
  let ?line = "''HTTP/1.1'' @ SP # ?n @ SP # to_str c"
  have pk': "peek buf = ?line @ CR # LF # rest" using pk by (simp add: status_line_def)
  have no: "SP \<notin> set ?n" "CR \<notin> set ?n" using dec_no by (simp_all add: isdigit_def)
  have crlf: "find_crlf buf = Some (length ?line)"
    unfolding find_crlf_search pk' by (rule search_CRLF_line) (use no to_str_plain in simp)
  have t: "take (length ?line) (peek buf) = ?line" unfolding pk' by (rule take_append_self)
  have v: "takeWhile (\<lambda>c. c \<noteq> SP) ?line = ''HTTP/1.1''" by (rule takeWhile_until) simp
  have d: "drop (length ''HTTP/1.1'' + 1) ?line = ?n @ SP # to_str c" by simp
  have n: "takeWhile (\<lambda>c. c \<noteq> SP) (?n @ SP # to_str c) = ?n" using no(1) by (rule takeWhile_until)
  have "response_parse_line r buf = Some (Ok, r\<lparr>rs_version := HTTP_VERSION_1_1, rs_status := int (status_value c),
      status_message := to_str c\<rparr>, retrieve buf (length ?line + 2))"
    using status_value_pos [of c] unfolding response_parse_line_def crlf option.case t v d n Let_def by (simp add: svtoi_dec)
  moreover have "peek (retrieve buf (length ?line + 2)) = rest" unfolding retrieve_peek pk' by (rule drop_line)
  ultimately show ?thesis using retrieve_wf [OF wf] by blast
qed

lemma receive_loop_again:
  "peek buf \<noteq> [] \<Longrightarrow> buffer_wf buf \<Longrightarrow> receive_step r buf = RAgain r' b' \<Longrightarrow> receive_loop r buf = receive_loop r' b'"
  using length_peek [of buf] by (subst receive_loop.simps) (metis (no_types) length_0_conv recv_step.case(4))

lemma receive_loop_end:
  "peek buf \<noteq> [] \<Longrightarrow> buffer_wf buf \<Longrightarrow> receive_step r buf = REnd r' b' \<Longrightarrow> receive_loop r buf = REnd r' b'"
  using length_peek [of buf] by (subst receive_loop.simps) (metis (no_types) length_0_conv recv_step.case(2))

text \<open>
  What the server sends is what the client delivers. A response with a body, as \<^verbatim>\<open>response::send\<close> writes it, is
  delivered with its status, reason, header fields and body, and the bytes behind it are left in the buffer.
\<close>

theorem response_roundtrip:
  assumes "buffer_wf buf" and "peek buf = status_line c @ format_fields fs @ b @ rest"
    and "list_all field_ok fs" and "keys_distinct fs"
    and "hdr_find ''Content-Length'' fs = Some (dec (length b))" and "hdr_find ''Transfer-Encoding'' fs = None"
    and "b \<noteq> []" and "length b < 2 ^ 63"
  shows "\<exists>r buf'. receive True http_response_new buf = Some (Some r, moved r, buf') \<and> err_code r = ErrNone \<and>
    rs_status r = int (status_value c) \<and> status_message r = to_str c \<and> headers (rs_msg r) = fs \<and> body (rs_msg r) = b \<and> peek buf' = rest"
proof -
  let ?r1 = "http_response_new\<lparr>rs_version := HTTP_VERSION_1_1, rs_status := int (status_value c), status_message := to_str c,
      rs_state := ParseHeader\<rparr>"
  let ?r2 = "?r1\<lparr>rs_msg := message_new\<lparr>headers := fs, body_length := length b\<rparr>, rs_state := ParseBody\<rparr>"
  from response_line_parsed [OF assms(1,2), of http_response_new] obtain b1 where
    b1: "receive_step http_response_new buf = RAgain ?r1 b1" "buffer_wf b1" "peek b1 = format_fields fs @ b @ rest"
    by (auto simp: receive_step_def http_response_new_def)
  obtain b2 where b2: "parse_header [] b1 = Some (Ok, fs, b2)" "buffer_wf b2" "peek b2 = b @ rest"
    using parse_header_refines [OF b1(2), of "[]"] parse_header_bytes_fields [of fs "[]" "b @ rest"] assms(3,4) b1(3)
    by (auto split: option.splits)
  have "parse_body_length (message_new\<lparr>headers := fs\<rparr>) = (Ok, message_new\<lparr>headers := fs, body_length := length b\<rparr>)"
    using assms(5-8) svtoll_dec [OF assms(8)] by (simp add: parse_body_length_def Let_def)
  then have s2: "receive_step ?r1 b1 = RAgain ?r2 b2"
    using b2(1) by (simp add: receive_step_def http_response_new_def message_new_def)
  have "readable b2 \<ge> length b" using length_peek [OF b2(2)] b2(3) by simp
  then have s3: "receive_step ?r2 b2 = REnd (?r2\<lparr>rs_msg := message_new\<lparr>headers := fs, body_length := length b, body := b\<rparr>\<rparr>) (retrieve b2 (length b))"
    using b2(3) by (simp add: receive_step_def parse_body_def parse_body_by_content_length_def message_new_def)
  have ne: "peek buf \<noteq> []" "peek b1 \<noteq> []" "peek b2 \<noteq> []"
    using assms(2,7) b1(3) b2(3) by (simp_all add: status_line_def)
  have "receive_loop http_response_new buf = REnd (?r2\<lparr>rs_msg := message_new\<lparr>headers := fs, body_length := length b, body := b\<rparr>\<rparr>) (retrieve b2 (length b))"
    using receive_loop_again [OF ne(1) assms(1) b1(1)] receive_loop_again [OF ne(2) b1(2) s2] receive_loop_end [OF ne(3) b2(2) s3] by simp
  then show ?thesis using b2(3) by (simp add: receive_def retrieve_peek http_response_new_def)
qed

theorem response_roundtrip_witness:
  "\<exists>r buf'. receive True http_response_new
      (append_buf (buffer_new 0) (status_line NotFound @ format_fields [(''Content-Length'', ''3''), (''Server'', ''angel'')] @ ''abc'' @ ''HTTP''))
      = Some (Some r, moved r, buf') \<and> err_code r = ErrNone \<and>
    rs_status r = 404 \<and> status_message r = ''Not Found'' \<and> headers (rs_msg r) = [(''Content-Length'', ''3''), (''Server'', ''angel'')] \<and>
    body (rs_msg r) = ''abc'' \<and> peek buf' = ''HTTP''"
proof -
  have "dec (length ''abc'') = ''3''" by code_simp
  then show ?thesis
    using response_roundtrip [of "append_buf (buffer_new 0) (status_line NotFound @ format_fields [(''Content-Length'', ''3''), (''Server'', ''angel'')] @ ''abc'' @ ''HTTP'')"
        NotFound "[(''Content-Length'', ''3''), (''Server'', ''angel'')]" "''abc''" "''HTTP''"]
    by (simp add: wf_intros buffer_simps field_ok_def equal_case_def char_eval)
qed

text \<open>The body of a request is never sent, and no \<^verbatim>\<open>Content-Length\<close> announces it.\<close>

theorem request_body_dropped: "http_request_str (r\<lparr>hr_body := b\<rparr>) = http_request_str r"
  by (simp add: http_request_str_def request_headers_def)

end
