(* ===== verification/HttpSession.thy ===== *)
theory HttpSession
  imports HttpClient
begin

text \<open>
  Requests of the HTTP client from \<^verbatim>\<open>http_client::send\<close> to their answer: routes and their pools, the promise of each connection, the timers of the requests,
  connections that time out, are reset or removed (\<^verbatim>\<open>src/httplib/httplib.cc\<close>). User threads send requests, the thread of the loop handles everything else; the steps of both are
  interleaved in \<open>route_reach\<close>.

  Connections are named as in the theory HttpClient. A promise is \<open>Waiting r\<close> for the request \<open>r\<close> or \<open>Answered r\<close>; setting the value of an answered promise throws
  \<^verbatim>\<open>std::future_error\<close>, which is \<open>None\<close>, as a failed \<^verbatim>\<open>assert\<close> is.
\<close>

section \<open>Building a request\<close>

definition req_set_params :: "params \<Rightarrow> http_request \<Rightarrow> http_request" where
  "req_set_params ps r = r\<lparr>req_uri := (req_uri r)\<lparr>params := ps\<rparr>\<rparr>"

definition req_set_headers :: "headers \<Rightarrow> http_request \<Rightarrow> http_request" where
  "req_set_headers hds r = r\<lparr>hr_headers := hds\<rparr>"

definition req_set_body :: "string \<Rightarrow> http_request \<Rightarrow> http_request" where
  "req_set_body b r = r\<lparr>hr_body := b\<rparr>"

definition set_resolve_timeout :: "int \<Rightarrow> http_request \<Rightarrow> http_request" where
  "set_resolve_timeout ms r = (if ms > 0 then r\<lparr>resolve_timeout := ms\<rparr> else r)"

definition set_connection_timeout :: "int \<Rightarrow> http_request \<Rightarrow> http_request" where
  "set_connection_timeout ms r = (if ms > 0 then r\<lparr>connection_timeout := ms\<rparr> else r)"

definition set_pending_timeout :: "int \<Rightarrow> http_request \<Rightarrow> http_request" where
  "set_pending_timeout ms r = (if ms > 0 then r\<lparr>pending_timeout := ms\<rparr> else r)"

definition req_get :: "http_request \<Rightarrow> http_request" where
  "req_get r = r\<lparr>hr_method := ''GET''\<rparr>"

definition req_post :: "http_request \<Rightarrow> http_request" where
  "req_post r = r\<lparr>hr_method := ''POST''\<rparr>"

section \<open>The route of a request\<close>

datatype promise = Waiting nat | Answered nat

datatype answer = Response | Failed ErrorCode

record route =
  rt_addrs :: "string list"
  rt_pool :: pool
  promise_of :: "nat \<Rightarrow> promise"
  connecting :: "nat set"
  timer_id_of :: "nat \<Rightarrow> nat"
  rt_timers :: "(nat \<times> nat) list"
  next_timer :: nat
  rt_sent :: "nat list"
  rt_answers :: "(nat \<times> answer) list"

definition create_connection_pool :: "string list \<Rightarrow> route option" where
  "create_connection_pool addrs =
     (if addrs = [] then None
      else Some \<lparr>rt_addrs = addrs, rt_pool = pool_new, promise_of = (\<lambda>_. Answered 0), connecting = {}, timer_id_of = (\<lambda>_. 0), rt_timers = [],
        next_timer = 1, rt_sent = [], rt_answers = []\<rparr>)"

definition set_value :: "nat \<Rightarrow> answer \<Rightarrow> route \<Rightarrow> route option" where
  "set_value c a t =
     (case promise_of t c of
        Waiting r \<Rightarrow> Some (t\<lparr>promise_of := (promise_of t)(c := Answered r), rt_answers := rt_answers t @ [(r, a)]\<rparr>)
      | Answered r \<Rightarrow> None)"

definition err_notify :: "nat \<Rightarrow> ErrorCode \<Rightarrow> route \<Rightarrow> route option" where
  "err_notify c e t = set_value c (Failed e) t"

definition set_request_timeout_timer :: "nat \<Rightarrow> route \<Rightarrow> route" where
  "set_request_timeout_timer c t =
     t\<lparr>timer_id_of := (timer_id_of t)(c := next_timer t), rt_timers := rt_timers t @ [(next_timer t, c)], next_timer := next_timer t + 1\<rparr>"

definition cancel_request_timeout_timer :: "nat \<Rightarrow> route \<Rightarrow> route" where
  "cancel_request_timeout_timer c t =
     (if timer_id_of t c > 0 then
        t\<lparr>rt_timers := filter (\<lambda>(i, d). i \<noteq> timer_id_of t c) (rt_timers t), timer_id_of := (timer_id_of t)(c := 0)\<rparr>
      else t)"

text \<open>The part of \<^verbatim>\<open>send\<close> under the lock of the router: \<open>None\<close> when the request has to wait for a connection. A new connection sends the request when it is established.\<close>

definition route_send :: "nat \<Rightarrow> nat \<Rightarrow> route \<Rightarrow> route option" where
  "route_send max_conns r t =
     (case acquire max_conns (rt_pool t) of
        (None, p) \<Rightarrow> None
      | (Some c, p) \<Rightarrow>
          let t1 = t\<lparr>rt_pool := p, promise_of := (promise_of t)(c := Waiting r), rt_sent := rt_sent t @ [r]\<rparr>
          in Some (if avail (rt_pool t) = [] then t1\<lparr>connecting := insert c (connecting t1), timer_id_of := (timer_id_of t1)(c := 0)\<rparr>
                   else set_request_timeout_timer c t1))"

text \<open>The handlers that \<^verbatim>\<open>add_connection\<close> installs: established, timed out, response, closed; and the timer of a request.\<close>

definition on_connected :: "nat \<Rightarrow> route \<Rightarrow> route" where
  "on_connected c t = set_request_timeout_timer c (t\<lparr>connecting := connecting t - {c}\<rparr>)"

definition drop_connection :: "nat \<Rightarrow> route \<Rightarrow> route option" where
  "drop_connection c t = map_option (\<lambda>p. t\<lparr>rt_pool := p\<rparr>) (remove_connection c (rt_pool t))"

definition connection_timeout_handler :: "nat \<Rightarrow> route \<Rightarrow> route option" where
  "connection_timeout_handler c t =
     (if \<not> is_leased (flags (rt_pool t) c) then None
      else Option.bind (err_notify c ConnectionTimeout (t\<lparr>connecting := connecting t - {c}\<rparr>)) (drop_connection c))"

definition put_connection :: "nat \<Rightarrow> route \<Rightarrow> route option" where
  "put_connection c t = map_option (\<lambda>p. t\<lparr>rt_pool := p\<rparr>) (release_connection c (rt_pool t))"

definition response_first :: "nat \<Rightarrow> route \<Rightarrow> route option" where
  "response_first c t = Option.bind (set_value c Response t) (put_connection c)"

definition response_complete :: "nat \<Rightarrow> route \<Rightarrow> route option" where
  "response_complete c t = map_option (cancel_request_timeout_timer c) (response_first c t)"

definition on_request_timeout :: "nat \<Rightarrow> nat \<Rightarrow> route \<Rightarrow> route option" where
  "on_request_timeout i c t =
     Option.bind (err_notify c ErrRequestTimeout (t\<lparr>rt_timers := filter (\<lambda>(k, d). k \<noteq> i) (rt_timers t)\<rparr>)) (drop_connection c)"

definition on_reset :: "nat \<Rightarrow> route \<Rightarrow> route option" where
  "on_reset c t =
     (if removing (flags (rt_pool t) c) then Some t
      else if is_leased (flags (rt_pool t) c) then
        Option.bind (map_option (cancel_request_timeout_timer c) (err_notify c ConnectionResetByPeer t)) (drop_connection c)
      else drop_connection c t)"

section \<open>The client\<close>

record http_client =
  router :: "string \<rightharpoonup> route"
  max_conns_per_route :: nat

datatype send_outcome = ErrFuture ErrorCode | SentTo string | MustWait string

definition set_max_conns_per_route :: "int \<Rightarrow> http_client \<Rightarrow> http_client" where
  "set_max_conns_per_route n cl = (if n \<le> 0 then cl else cl\<lparr>max_conns_per_route := nat n\<rparr>)"

text \<open>\<open>resolve\<close> gives the addresses of a host within the time limit of the request; \<open>MustWait\<close>: the pool is made, the request waits and tries again.\<close>

definition http_client_send :: "(string \<Rightarrow> int \<Rightarrow> string list) \<Rightarrow> nat \<Rightarrow> http_request \<Rightarrow> http_client \<Rightarrow> send_outcome \<times> http_client" where
  "http_client_send resolve r req cl =
     (if invalid_url req \<or> hr_method req = [] then (ErrFuture InvalidRequest, cl)
      else
        let name = host (req_uri req) @ '':'' @ dec (nat (port (req_uri req)));
            found = (case router cl name of Some t \<Rightarrow> Some t | None \<Rightarrow> create_connection_pool (resolve (host (req_uri req)) (resolve_timeout req)))
        in case found of
             None \<Rightarrow> (ErrFuture ResolveTimeoutOrNoAvailableAddr, cl)
           | Some t \<Rightarrow>
               let cl1 = cl\<lparr>router := (router cl)(name \<mapsto> t)\<rparr>
               in case route_send (max_conns_per_route cl) r t of
                    None \<Rightarrow> (MustWait name, cl1)
                  | Some t1 \<Rightarrow> (SentTo name, cl1\<lparr>router := (router cl1)(name \<mapsto> t1)\<rparr>))"

section \<open>Waiting for a connection\<close>

text \<open>
  \<^verbatim>\<open>wait_for\<close> and \<^verbatim>\<open>wakeup\<close>. One flag serves all waiting requests; \<open>notified\<close> counts the waiting threads that have been notified and not yet run.
\<close>

record pending_state =
  pending_flag :: bool
  sleeping :: nat
  notified :: nat

definition wait_enter :: "pending_state \<Rightarrow> pending_state" where
  "wait_enter w = w\<lparr>pending_flag := True, sleeping := sleeping w + 1\<rparr>"

definition pool_wakeup :: "pending_state \<Rightarrow> pending_state" where
  "pool_wakeup w =
     (if pending_flag w then
        w\<lparr>pending_flag := False, notified := (if sleeping w > 0 then notified w + 1 else notified w), sleeping := sleeping w - 1\<rparr>
      else w)"

text \<open>After a wakeup: \<open>Some False\<close> when the time is over, \<open>Some True\<close> when the flag is clear, otherwise the thread waits again.\<close>

definition wait_check :: "int \<Rightarrow> int \<Rightarrow> pending_state \<Rightarrow> bool option" where
  "wait_check elapsed timeout w = (if elapsed \<ge> timeout then Some False else if pending_flag w then None else Some True)"

section \<open>Interleavings\<close>

text \<open>
  \<open>route_reach atomic\<close>: the steps of a route. With \<open>atomic\<close> no request takes the connection between \<^verbatim>\<open>put_connection\<close> and the cancellation of the timer in \<^verbatim>\<open>receive\<close>; otherwise
  the two halves are steps of their own. A timer counts as added when \<^verbatim>\<open>run_after\<close> returns; for a request sent by a user thread the loop adds it with its next tasks, behind the one
  that sends the bytes.
\<close>

inductive route_reach :: "bool \<Rightarrow> nat \<Rightarrow> route \<Rightarrow> bool" for atomic :: bool and n :: nat where
  start: "create_connection_pool addrs = Some t \<Longrightarrow> route_reach atomic n t"
| send: "\<lbrakk>route_reach atomic n t; r \<notin> set (rt_sent t); route_send n r t = Some t'\<rbrakk> \<Longrightarrow> route_reach atomic n t'"
| connected: "\<lbrakk>route_reach atomic n t; c \<in> connecting t\<rbrakk> \<Longrightarrow> route_reach atomic n (on_connected c t)"
| connect_timeout: "\<lbrakk>route_reach atomic n t; c \<in> connecting t; connection_timeout_handler c t = Some t'\<rbrakk> \<Longrightarrow> route_reach atomic n t'"
| response: "\<lbrakk>route_reach atomic n t; c \<in> set (leased (rt_pool t)); c \<notin> connecting t; response_complete c t = Some t'\<rbrakk> \<Longrightarrow> route_reach atomic n t'"
| first: "\<lbrakk>route_reach atomic n t; \<not> atomic; c \<in> set (leased (rt_pool t)); c \<notin> connecting t; response_first c t = Some t'\<rbrakk> \<Longrightarrow> route_reach atomic n t'"
| second: "\<lbrakk>route_reach atomic n t; \<not> atomic\<rbrakk> \<Longrightarrow> route_reach atomic n (cancel_request_timeout_timer c t)"
| request_timeout: "\<lbrakk>route_reach atomic n t; (i, c) \<in> set (rt_timers t); on_request_timeout i c t = Some t'\<rbrakk> \<Longrightarrow> route_reach atomic n t'"
| reset: "\<lbrakk>route_reach atomic n t; c \<in> set (leased (rt_pool t)) \<union> set (avail (rt_pool t)); c \<notin> connecting t; on_reset c t = Some t'\<rbrakk> \<Longrightarrow> route_reach atomic n t'"

section \<open>Invariant of a route\<close>

text \<open>Every leased connection carries one unanswered request and is either being established or watched by exactly one timer.\<close>

definition waiting_requests :: "route \<Rightarrow> nat set" where
  "waiting_requests t = {r. \<exists>c \<in> set (leased (rt_pool t)). promise_of t c = Waiting r}"

definition promises_ok :: "route \<Rightarrow> bool" where
  "promises_ok t \<longleftrightarrow>
     (\<forall>c \<in> set (leased (rt_pool t)). \<exists>r. promise_of t c = Waiting r) \<and> inj_on (promise_of t) (set (leased (rt_pool t))) \<and>
     distinct (map fst (rt_answers t)) \<and> waiting_requests t \<inter> fst ` set (rt_answers t) = {} \<and>
     set (rt_sent t) = fst ` set (rt_answers t) \<union> waiting_requests t"

definition timers_ok :: "route \<Rightarrow> bool" where
  "timers_ok t \<longleftrightarrow>
     connecting t \<subseteq> set (leased (rt_pool t)) \<and> (\<forall>c \<in> connecting t. timer_id_of t c = 0) \<and> distinct (map fst (rt_timers t)) \<and> 0 < next_timer t \<and>
     (\<forall>(i, c) \<in> set (rt_timers t). c \<in> set (leased (rt_pool t)) - connecting t \<and> timer_id_of t c = i \<and> 0 < i \<and> i < next_timer t) \<and>
     (\<forall>c \<in> set (leased (rt_pool t)) - connecting t. (timer_id_of t c, c) \<in> set (rt_timers t))"

definition route_inv :: "nat \<Rightarrow> route \<Rightarrow> bool" where
  "route_inv n t \<longleftrightarrow> pool_inv n (rt_pool t) \<and> promises_ok t \<and> timers_ok t"

lemma inj_onD_waiting: "promises_ok t \<Longrightarrow> c \<in> set (leased (rt_pool t)) \<Longrightarrow> d \<in> set (leased (rt_pool t)) \<Longrightarrow> promise_of t c = promise_of t d \<Longrightarrow> c = d"
  by (auto simp: promises_ok_def dest: inj_onD)

text \<open>The common effect of all ways a request ends: the connection is not leased any more, its request is answered, its timer is gone.\<close>

definition finished :: "nat \<Rightarrow> nat \<Rightarrow> answer \<Rightarrow> route \<Rightarrow> route \<Rightarrow> bool" where
  "finished c r a t t' \<longleftrightarrow>
     set (leased (rt_pool t')) = set (leased (rt_pool t)) - {c} \<and> promise_of t' = (promise_of t)(c := Answered r) \<and>
     rt_answers t' = rt_answers t @ [(r, a)] \<and> rt_sent t' = rt_sent t \<and> connecting t' = connecting t - {c} \<and>
     rt_timers t' = filter (\<lambda>(i, d). i \<noteq> timer_id_of t c) (rt_timers t) \<and> next_timer t' = next_timer t \<and>
     (\<forall>d. d \<noteq> c \<longrightarrow> timer_id_of t' d = timer_id_of t d)"

lemma finished_waiting:
  assumes "promises_ok t" and "c \<in> set (leased (rt_pool t))" and "promise_of t c = Waiting r" and "finished c r a t t'"
  shows "waiting_requests t' = waiting_requests t - {r}"
proof -
  have l: "set (leased (rt_pool t')) = set (leased (rt_pool t)) - {c}" and p: "promise_of t' = (promise_of t)(c := Answered r)"
    using assms(4) by (simp_all add: finished_def)
  have "d = c" if "d \<in> set (leased (rt_pool t))" "promise_of t d = Waiting r" for d
    using inj_onD_waiting [OF assms(1) that(1) assms(2)] that(2) assms(3) by simp
  then have "(\<exists>d \<in> set (leased (rt_pool t)) - {c}. promise_of t d = Waiting q) \<longleftrightarrow>
      (\<exists>d \<in> set (leased (rt_pool t)). promise_of t d = Waiting q) \<and> q \<noteq> r" for q
    using assms(3) by (metis Diff_iff promise.inject(1) singletonD singletonI)
  then show ?thesis unfolding waiting_requests_def l p by auto
qed

lemma finished_promises:
  assumes "promises_ok t" and "c \<in> set (leased (rt_pool t))" and "promise_of t c = Waiting r" and "finished c r a t t'"
  shows "promises_ok t'"
proof -
  have "r \<in> waiting_requests t" using assms(2,3) by (auto simp: waiting_requests_def)
  moreover have "inj_on (promise_of t') (set (leased (rt_pool t')))"
    using assms(1,4) by (auto simp: finished_def promises_ok_def inj_on_def)
  ultimately show ?thesis
    using assms finished_waiting [OF assms] by (auto simp: promises_ok_def finished_def)
qed

lemma filter_other_timers:
  assumes "timers_ok t" and "(i, d) \<in> set (rt_timers t)" and "c \<in> set (leased (rt_pool t))"
  shows "i \<noteq> timer_id_of t c \<longleftrightarrow> d \<noteq> c"
proof (cases "c \<in> connecting t")
  case True
  then show ?thesis using assms by (fastforce simp: timers_ok_def)
next
  case False
  then have "(timer_id_of t c, c) \<in> set (rt_timers t)" using assms(1,3) by (simp add: timers_ok_def)
  moreover have "distinct (map fst (rt_timers t))" "timer_id_of t d = i" using assms(1,2) by (auto simp: timers_ok_def)
  ultimately show ?thesis using assms(2) by (metis eq_key_imp_eq_value)
qed

lemma finished_timers:
  assumes "timers_ok t" and "c \<in> set (leased (rt_pool t))" and "finished c r a t t'"
  shows "timers_ok t'"
proof -
  have f: "set (rt_timers t') = {(i, d). (i, d) \<in> set (rt_timers t) \<and> d \<noteq> c}"
    using filter_other_timers [OF assms(1) _ assms(2)] assms(3) by (auto simp: finished_def)
  have "distinct (map fst (rt_timers t'))"
    using assms(1,3) by (simp add: finished_def timers_ok_def distinct_map_filter)
  then show ?thesis using assms unfolding timers_ok_def f by (auto simp: finished_def)
qed

lemma finished_inv:
  "\<lbrakk>route_inv n t; c \<in> set (leased (rt_pool t)); promise_of t c = Waiting r; finished c r a t t'; pool_inv n (rt_pool t')\<rbrakk> \<Longrightarrow> route_inv n t'"
  by (auto simp: route_inv_def intro: finished_promises finished_timers)

section \<open>Every way a request ends\<close>

lemma remove_leased:
  assumes "pool_inv n p" and "c \<in> set (leased p)"
  obtains p' where "remove_connection c p = Some p'" "pool_inv n p'" "set (leased p') = set (leased p) - {c}" "avail p' = avail p"
proof -
  have "distinct (leased p)" "is_leased (flags p c)" "\<not> removing (flags p c)" using assms by (auto simp: pool_inv_def)
  then obtain p' where p': "remove_connection c p = Some p'" "set (leased p') = set (leased p) - {c}" "avail p' = avail p"
    using swap_remove_facts [of "leased p" c] by (auto simp: remove_connection_def Let_def)
  with that remove_inv [OF assms(1) p'(1)] show thesis by blast
qed

lemma release_leased:
  assumes "pool_inv n p" and "c \<in> set (leased p)"
  obtains p' where "release_connection c p = Some p'" "pool_inv n p'" "set (leased p') = set (leased p) - {c}" "avail p' = avail p @ [c]"
proof -
  have "distinct (leased p)" "is_leased (flags p c)" using assms by (auto simp: pool_inv_def)
  then obtain p' where p': "release_connection c p = Some p'" "set (leased p') = set (leased p) - {c}" "avail p' = avail p @ [c]"
    using assms(2) swap_remove_facts [of "leased p" c] by (auto simp: release_connection_def)
  with that release_inv [OF assms(1) p'(1)] show thesis by blast
qed

lemma leased_facts:
  assumes "route_inv n t" and "c \<in> set (leased (rt_pool t))"
  obtains r where "promise_of t c = Waiting r" "pool_inv n (rt_pool t)" "is_leased (flags (rt_pool t) c)" "\<not> removing (flags (rt_pool t) c)"
  using assms by (auto simp: route_inv_def promises_ok_def pool_inv_def)

lemma no_timer_while_connecting:
  assumes "route_inv n t" and "c \<in> connecting t"
  shows "filter (\<lambda>(i, d). i \<noteq> timer_id_of t c) (rt_timers t) = rt_timers t"
  using assms by (fastforce simp: route_inv_def timers_ok_def filter_id_conv)

lemma response_complete_finished:
  assumes "route_inv n t" and "c \<in> set (leased (rt_pool t))" and "c \<notin> connecting t" and "promise_of t c = Waiting r"
  shows "\<exists>t'. response_complete c t = Some t' \<and> finished c r Response t t' \<and> pool_inv n (rt_pool t') \<and> c \<in> set (avail (rt_pool t'))"
proof -
  have pos: "0 < timer_id_of t c" using assms(1-3) by (fastforce simp: route_inv_def timers_ok_def)
  have "pool_inv n (rt_pool t)" using assms(1) by (simp add: route_inv_def)
  from release_leased [OF this assms(2)] obtain p' where "release_connection c (rt_pool t) = Some p'" "pool_inv n p'"
    "set (leased p') = set (leased (rt_pool t)) - {c}" "avail p' = avail (rt_pool t) @ [c]" by blast
  then show ?thesis using pos assms(3,4)
    by (auto simp: response_complete_def response_first_def set_value_def put_connection_def cancel_request_timeout_timer_def finished_def)
qed

lemma connection_timeout_finished:
  assumes "route_inv n t" and "c \<in> set (leased (rt_pool t))" and "c \<in> connecting t" and "promise_of t c = Waiting r"
  shows "\<exists>t'. connection_timeout_handler c t = Some t' \<and> finished c r (Failed ConnectionTimeout) t t' \<and> pool_inv n (rt_pool t')"
proof -
  note facts = leased_facts [OF assms(1,2)]
  obtain p' where "remove_connection c (rt_pool t) = Some p'" "pool_inv n p'" "set (leased p') = set (leased (rt_pool t)) - {c}"
    using remove_leased [OF _ assms(2)] facts by metis
  moreover have "is_leased (flags (rt_pool t) c)" using facts by blast
  ultimately show ?thesis using assms(4) no_timer_while_connecting [OF assms(1,3)]
    by (auto simp: connection_timeout_handler_def err_notify_def set_value_def drop_connection_def finished_def)
qed

lemma request_timeout_finished:
  assumes "route_inv n t" and "(i, c) \<in> set (rt_timers t)" and "promise_of t c = Waiting r"
  shows "\<exists>t'. on_request_timeout i c t = Some t' \<and> finished c r (Failed ErrRequestTimeout) t t' \<and> pool_inv n (rt_pool t')"
proof -
  have c: "c \<in> set (leased (rt_pool t))" "c \<notin> connecting t" "timer_id_of t c = i"
    using assms(1,2) by (auto simp: route_inv_def timers_ok_def)
  note facts = leased_facts [OF assms(1) c(1)]
  obtain p' where "remove_connection c (rt_pool t) = Some p'" "pool_inv n p'" "set (leased p') = set (leased (rt_pool t)) - {c}"
    using remove_leased [OF _ c(1)] facts by metis
  then show ?thesis using assms(3) c
    by (auto simp: on_request_timeout_def err_notify_def set_value_def drop_connection_def finished_def)
qed

lemma reset_finished:
  assumes "route_inv n t" and "c \<in> set (leased (rt_pool t))" and "c \<notin> connecting t" and "promise_of t c = Waiting r"
  shows "\<exists>t'. on_reset c t = Some t' \<and> finished c r (Failed ConnectionResetByPeer) t t' \<and> pool_inv n (rt_pool t')"
proof -
  have pos: "0 < timer_id_of t c" using assms(1-3) by (fastforce simp: route_inv_def timers_ok_def)
  note facts = leased_facts [OF assms(1,2)]
  obtain p' where "remove_connection c (rt_pool t) = Some p'" "pool_inv n p'" "set (leased p') = set (leased (rt_pool t)) - {c}"
    using remove_leased [OF _ assms(2)] facts by metis
  moreover have "is_leased (flags (rt_pool t) c)" "\<not> removing (flags (rt_pool t) c)" using facts by blast+
  ultimately show ?thesis using assms(3,4) pos
    by (auto simp: on_reset_def err_notify_def set_value_def drop_connection_def cancel_request_timeout_timer_def finished_def)
qed

section \<open>The other steps\<close>

lemma acquire_leased:
  assumes "pool_inv n p" and "acquire n p = (Some c, p')"
  shows "set (leased p') = insert c (set (leased p))" and "c \<notin> set (leased p)" and "pool_inv n p'"
proof -
  show "pool_inv n p'" using acquire_inv [OF assms(1)] assms(2) by simp
  have "set (leased p') = insert c (set (leased p)) \<and> c \<notin> set (leased p)"
  proof (cases "avail p = []")
    case True
    then show ?thesis using assms by (auto simp: acquire_def create_connection_def pool_inv_def Let_def split: if_splits)
  next
    case False
    then have "last (avail p) \<in> set (avail p)" by simp
    with False show ?thesis using assms by (auto simp: acquire_def lease_connection_def pool_inv_def Let_def)
  qed
  then show "set (leased p') = insert c (set (leased p))" and "c \<notin> set (leased p)" by simp_all
qed

lemma route_send_promises:
  assumes "promises_ok t" and "r \<notin> set (rt_sent t)" and "c \<notin> set (leased (rt_pool t))"
    and "set (leased (rt_pool t')) = insert c (set (leased (rt_pool t)))" and "promise_of t' = (promise_of t)(c := Waiting r)"
    and "rt_sent t' = rt_sent t @ [r]" and "rt_answers t' = rt_answers t"
  shows "promises_ok t'"
proof -
  have new: "r \<notin> waiting_requests t" "r \<notin> fst ` set (rt_answers t)" using assms(1,2) by (auto simp: promises_ok_def)
  have w: "waiting_requests t' = insert r (waiting_requests t)"
    using assms(3) unfolding waiting_requests_def assms(4,5) by auto
  have "promise_of t d \<noteq> Waiting r" if "d \<in> set (leased (rt_pool t))" for d
    using new(1) that by (auto simp: waiting_requests_def)
  then have "inj_on (promise_of t') (set (leased (rt_pool t')))"
    using assms(1,3) unfolding assms(4,5) promises_ok_def inj_on_def by auto
  then show ?thesis using assms(1) new unfolding promises_ok_def w assms(4-7) by auto
qed

lemma route_send_inv:
  assumes "route_inv n t" and "r \<notin> set (rt_sent t)" and "route_send n r t = Some t'"
  shows "route_inv n t'"
proof -
  obtain c p where a: "acquire n (rt_pool t) = (Some c, p)"
    using assms(3) by (auto simp: route_send_def split: prod.splits option.splits)
  have inv: "pool_inv n (rt_pool t)" "promises_ok t" "timers_ok t" using assms(1) by (simp_all add: route_inv_def)
  note al = acquire_leased [OF inv(1) a]
  have e: "rt_pool t' = p" "promise_of t' = (promise_of t)(c := Waiting r)" "rt_sent t' = rt_sent t @ [r]" "rt_answers t' = rt_answers t"
    using assms(3) a by (auto simp: route_send_def Let_def set_request_timeout_timer_def split: if_splits)
  have "promises_ok t'" using route_send_promises [OF inv(2) assms(2) al(2)] al(1) e by simp
  moreover have "timers_ok t'"
  proof (cases "avail (rt_pool t) = []")
    case True
    then have "t' = t\<lparr>rt_pool := p, promise_of := (promise_of t)(c := Waiting r), rt_sent := rt_sent t @ [r], connecting := insert c (connecting t),
        timer_id_of := (timer_id_of t)(c := 0)\<rparr>"
      using assms(3) a by (simp add: route_send_def Let_def)
    then show ?thesis using inv(3) al(1,2) by (auto simp: timers_ok_def)
  next
    case False
    then have "t' = set_request_timeout_timer c (t\<lparr>rt_pool := p, promise_of := (promise_of t)(c := Waiting r), rt_sent := rt_sent t @ [r]\<rparr>)"
      using assms(3) a by (simp add: route_send_def Let_def)
    then show ?thesis using inv(3) al(1,2) by (fastforce simp: timers_ok_def set_request_timeout_timer_def)
  qed
  ultimately show ?thesis using al(3) e(1) by (simp add: route_inv_def)
qed

lemma on_connected_timers:
  assumes tk: "timers_ok t" and c: "c \<in> connecting t"
  shows "timers_ok (on_connected c t)"
  unfolding timers_ok_def
proof (intro conjI)
  let ?t = "on_connected c t"
  have e: "connecting ?t = connecting t - {c}" "rt_pool ?t = rt_pool t" "timer_id_of ?t = (timer_id_of t)(c := next_timer t)"
    "rt_timers ?t = rt_timers t @ [(next_timer t, c)]" "next_timer ?t = Suc (next_timer t)"
    by (simp_all add: on_connected_def set_request_timeout_timer_def)
  have old: "d \<in> set (leased (rt_pool t)) \<and> d \<notin> connecting t \<and> timer_id_of t d = i \<and> 0 < i \<and> i < next_timer t" if "(i, d) \<in> set (rt_timers t)" for i d
    using tk that unfolding timers_ok_def by blast
  have cl: "c \<in> set (leased (rt_pool t))" using tk c unfolding timers_ok_def by blast
  show "connecting ?t \<subseteq> set (leased (rt_pool ?t))" using tk unfolding timers_ok_def e by blast
  show "\<forall>d \<in> connecting ?t. timer_id_of ?t d = 0" using tk unfolding timers_ok_def e by simp
  have "next_timer t \<notin> fst ` set (rt_timers t)" using old by fastforce
  then show "distinct (map fst (rt_timers ?t))" using tk unfolding timers_ok_def e by simp
  show "0 < next_timer ?t" unfolding e by simp
  have "d \<in> set (leased (rt_pool t)) - (connecting t - {c}) \<and> ((timer_id_of t)(c := next_timer t)) d = i \<and> 0 < i \<and> i < Suc (next_timer t)"
    if "(i, d) \<in> set (rt_timers t @ [(next_timer t, c)])" for i d
  proof (cases "(i, d) \<in> set (rt_timers t)")
    case True
    then show ?thesis using old [OF True] c by auto
  next
    case False
    then have "i = next_timer t" "d = c" using that by simp_all
    then show ?thesis using cl tk unfolding timers_ok_def by simp
  qed
  then show "\<forall>(i, d) \<in> set (rt_timers ?t). d \<in> set (leased (rt_pool ?t)) - connecting ?t \<and> timer_id_of ?t d = i \<and> 0 < i \<and> i < next_timer ?t"
    unfolding e by blast
  show "\<forall>d \<in> set (leased (rt_pool ?t)) - connecting ?t. (timer_id_of ?t d, d) \<in> set (rt_timers ?t)"
    using tk unfolding timers_ok_def e by simp blast
qed

lemma on_connected_inv:
  assumes "route_inv n t" and "c \<in> connecting t"
  shows "route_inv n (on_connected c t)"
proof -
  have "promises_ok (on_connected c t)"
    using assms(1) by (simp add: route_inv_def promises_ok_def waiting_requests_def on_connected_def set_request_timeout_timer_def)
  moreover have "timers_ok (on_connected c t)"
    using on_connected_timers assms by (auto simp: route_inv_def)
  ultimately show ?thesis using assms(1) by (simp add: route_inv_def on_connected_def set_request_timeout_timer_def)
qed

lemma reset_avail:
  assumes "route_inv n t" and "c \<in> set (avail (rt_pool t))"
  shows "\<exists>p. on_reset c t = Some (t\<lparr>rt_pool := p\<rparr>) \<and> pool_inv n p \<and> leased p = leased (rt_pool t)"
proof -
  have "\<not> is_leased (flags (rt_pool t) c)" "\<not> removing (flags (rt_pool t) c)" and inv: "pool_inv n (rt_pool t)"
    using assms by (auto simp: route_inv_def pool_inv_def)
  then obtain p where "on_reset c t = Some (t\<lparr>rt_pool := p\<rparr>)" "remove_connection c (rt_pool t) = Some p" "leased p = leased (rt_pool t)"
    by (auto simp: on_reset_def drop_connection_def remove_connection_def Let_def)
  with remove_inv [OF inv] show ?thesis by blast
qed

lemma pool_change_inv: "route_inv n t \<Longrightarrow> pool_inv n p \<Longrightarrow> leased p = leased (rt_pool t) \<Longrightarrow> route_inv n (t\<lparr>rt_pool := p\<rparr>)"
  by (simp add: route_inv_def promises_ok_def timers_ok_def waiting_requests_def)

lemma route_start_inv: "create_connection_pool addrs = Some t \<Longrightarrow> route_inv n t"
  by (auto simp: create_connection_pool_def route_inv_def promises_ok_def timers_ok_def waiting_requests_def pool_inv_def active_conns_def pool_new_def split: if_splits)

lemma route_reach_inv: "route_reach True n t \<Longrightarrow> route_inv n t"
proof (induction rule: route_reach.induct)
  case (connect_timeout t c t')
  then have "c \<in> set (leased (rt_pool t))" by (auto simp: route_inv_def timers_ok_def)
  moreover from leased_facts [OF connect_timeout.IH this] obtain r where "promise_of t c = Waiting r" by blast
  ultimately show ?case using connection_timeout_finished [OF connect_timeout.IH] connect_timeout finished_inv by fastforce
next
  case (response t c t')
  from leased_facts [OF response.IH response.hyps(2)] obtain r where "promise_of t c = Waiting r" by blast
  then show ?case using response_complete_finished [OF response.IH] response finished_inv by fastforce
next
  case (request_timeout t i c t')
  then have "c \<in> set (leased (rt_pool t))" by (auto simp: route_inv_def timers_ok_def)
  moreover from leased_facts [OF request_timeout.IH this] obtain r where "promise_of t c = Waiting r" by blast
  ultimately show ?case using request_timeout_finished [OF request_timeout.IH] request_timeout finished_inv by fastforce
next
  case (reset t c t')
  show ?case
  proof (cases "c \<in> set (leased (rt_pool t))")
    case True
    from leased_facts [OF reset.IH this] obtain r where "promise_of t c = Waiting r" by blast
    then show ?thesis using reset_finished [OF reset.IH True] reset True finished_inv by fastforce
  next
    case False
    then show ?thesis using reset reset_avail [OF reset.IH] pool_change_inv [OF reset.IH] by fastforce
  qed
qed (auto intro: route_start_inv route_send_inv on_connected_inv)


text \<open>A route to one server with room for one connection: requests 1 and 2 are answered over the same connection, request 3 waits for its response.\<close>

definition sample_route :: "bool \<Rightarrow> route" where
  "sample_route early = (let t0 = the (create_connection_pool [''10.0.0.1'']); t1 = on_connected 0 (the (route_send 1 1 t0))
     in if early then the (route_send 1 2 (the (response_complete 0 t1)))
        else the (response_first 0 (cancel_request_timeout_timer 0 (the (route_send 1 2 (the (response_first 0 t1)))))))"

lemma step_to_the:
  assumes "route_reach a n t"
  shows "r \<notin> set (rt_sent t) \<Longrightarrow> \<not> Option.is_none (route_send n r t) \<Longrightarrow> route_reach a n (the (route_send n r t))"
    and "c \<in> set (leased (rt_pool t)) \<Longrightarrow> c \<notin> connecting t \<Longrightarrow> \<not> Option.is_none (response_complete c t) \<Longrightarrow> route_reach a n (the (response_complete c t))"
    and "\<not> a \<Longrightarrow> c \<in> set (leased (rt_pool t)) \<Longrightarrow> c \<notin> connecting t \<Longrightarrow> \<not> Option.is_none (response_first c t) \<Longrightarrow> route_reach a n (the (response_first c t))"
  using assms by (auto simp: Option.is_none_def intro: send response first)

lemma sample_route_first: "route_reach a 1 (on_connected 0 (the (route_send 1 1 (the (create_connection_pool [''10.0.0.1''])))))"
proof -
  have "route_reach a 1 (the (create_connection_pool [''10.0.0.1'']))" by (rule start [of "[''10.0.0.1'']"]) (simp add: create_connection_pool_def)
  then have "route_reach a 1 (the (route_send 1 1 (the (create_connection_pool [''10.0.0.1'']))))" by (rule step_to_the) code_simp+
  then show ?thesis by (rule connected) code_simp
qed

lemma sample_route_reach: "route_reach True 1 (sample_route True)"
proof -
  let ?t = "on_connected 0 (the (route_send 1 1 (the (create_connection_pool [''10.0.0.1'']))))"
  have "route_reach True 1 (the (response_complete 0 ?t))" by (rule step_to_the [OF sample_route_first]) code_simp+
  then have "route_reach True 1 (the (route_send 1 2 (the (response_complete 0 ?t))))" by (rule step_to_the) code_simp+
  then show ?thesis unfolding sample_route_def Let_def if_True .
qed


text \<open>
  When the two halves of \<^verbatim>\<open>receive\<close> are not atomic, a request may take the connection between them: its timer is cancelled in place of the old one, and the old timer fires when the
  connection is idle, on a promise that already has its value.
\<close>

lemma timer_race:
  "route_reach False 1 (sample_route False)" (is ?A)
  "rt_timers (sample_route False) = [(1, 0)] \<and> leased (rt_pool (sample_route False)) = [] \<and> on_request_timeout 1 0 (sample_route False) = None" (is ?B)
proof -
  let ?t = "on_connected 0 (the (route_send 1 1 (the (create_connection_pool [''10.0.0.1'']))))" and ?r = "route_reach False 1"
  have "?r (the (response_first 0 ?t))" by (rule step_to_the [OF sample_route_first]) code_simp+
  then have "?r (the (route_send 1 2 (the (response_first 0 ?t))))" by (rule step_to_the) code_simp+
  then have "?r (cancel_request_timeout_timer 0 (the (route_send 1 2 (the (response_first 0 ?t)))))" by (rule second) simp
  then have "?r (the (response_first 0 (cancel_request_timeout_timer 0 (the (route_send 1 2 (the (response_first 0 ?t)))))))" by (rule step_to_the) code_simp+
  then show ?A unfolding sample_route_def Let_def if_False .
  have "Option.is_none (on_request_timeout 1 0 (sample_route False))" by code_simp
  moreover have "rt_timers (sample_route False) = [(1, 0)]" "leased (rt_pool (sample_route False)) = []" by code_simp+
  ultimately show ?B by (simp add: Option.is_none_def)
qed

section \<open>Waiting requests\<close>

text \<open>Two requests wait and two connections are put back: only one waiting thread is notified, the other one sleeps until its time is over.\<close>

lemma wakeup_lost:
  "pool_wakeup (pool_wakeup (wait_enter (wait_enter \<lparr>pending_flag = False, sleeping = 0, notified = 0\<rparr>))) = \<lparr>pending_flag = False, sleeping = 1, notified = 1\<rparr>"
  by (simp add: pool_wakeup_def wait_enter_def)

lemma wait_check_returns: "elapsed \<ge> timeout \<or> \<not> pending_flag w \<Longrightarrow> wait_check elapsed timeout w \<noteq> None"
  by (auto simp: wait_check_def)

section \<open>The client as a whole\<close>

text \<open>A request touches only its own route; without an address nothing changes.\<close>

lemma http_client_send_frame:
  assumes "http_client_send resolve r req cl = (out, cl')" and "name \<noteq> host (req_uri req) @ '':'' @ dec (nat (port (req_uri req)))"
  shows "router cl' name = router cl name \<and> max_conns_per_route cl' = max_conns_per_route cl"
  using assms by (auto simp: http_client_send_def Let_def split: if_splits option.splits)

lemma http_client_send_error:
  "http_client_send resolve r req cl = (ErrFuture e, cl') \<Longrightarrow>
     cl' = cl \<and> (e = InvalidRequest \<longleftrightarrow> invalid_url req \<or> hr_method req = []) \<and> (e \<noteq> InvalidRequest \<longrightarrow> e = ResolveTimeoutOrNoAvailableAddr \<and> resolve (host (req_uri req)) (resolve_timeout req) = [])"
  by (auto simp: http_client_send_def create_connection_pool_def Let_def split: if_splits option.splits)

text \<open>A request is refused by the pool only when every connection allowed for the route is leased.\<close>

lemma must_wait_iff_full:
  "route_send n r t = None \<longleftrightarrow> avail (rt_pool t) = [] \<and> n \<le> length (leased (rt_pool t))"
  by (auto simp: route_send_def acquire_def active_conns_def Let_def split: prod.splits)

end
