(* ===== verification/HttpStream.thy ===== *)
theory HttpStream
  imports HttpClient
begin

text \<open>
  Responses in portions: the client calls \<^verbatim>\<open>receive\<close> for whatever bytes the socket delivers. The states in which it may stop are described by \<open>on_track\<close>, and a response whose body has
  a known length is delivered when its last byte is there, however it is cut.
\<close>

section \<open>Portions\<close>

text \<open>The answers delivered for the portions; a portion is what one call of \<^verbatim>\<open>read_fd\<close> gets and is not empty.\<close>

fun recv_portions :: "http_response \<Rightarrow> buffer \<Rightarrow> string list \<Rightarrow> (http_response list \<times> http_response \<times> buffer) option" where
  "recv_portions r buf [] = Some ([], r, buf)"
| "recv_portions r buf (p # ps) =
     (case receive True r (fst (read_fd buf (Some p))) of
        None \<Rightarrow> None
      | Some (ans, r1, buf1) \<Rightarrow>
          map_option (\<lambda>(as, r2, buf2). ((case ans of None \<Rightarrow> as | Some a \<Rightarrow> a # as), r2, buf2)) (recv_portions r1 buf1 ps))"

lemma search_single_prefix: "search [c] (s @ t) = Some i \<Longrightarrow> i < length s \<Longrightarrow> search [c] s = Some i"
proof -
  assume a: "search [c] (s @ t) = Some i" "i < length s"
  show "search [c] s = Some i"
  proof (cases "search [c] s")
    case None
    then have "takeWhile (\<lambda>x. x \<noteq> c) (s @ t) = s @ takeWhile (\<lambda>x. x \<noteq> c) t" by (intro takeWhile_append2) (auto simp: search_single_None)
    then show ?thesis using a by (simp add: search_single)
  next
    case (Some j)
    then show ?thesis using search_append_Some [OF Some, of t] a(1) by simp
  qed
qed

lemma parse_header_bytes_prefix:
  "parse_header_bytes hd0 (s @ t) = Some (Ok, fs, u) \<Longrightarrow>
   (\<exists>hd1 s1. parse_header_bytes hd0 s = Some (Continue, hd1, s1)) \<or> (\<exists>s'. parse_header_bytes hd0 s = Some (Ok, fs, s') \<and> s' @ t = u)"
proof (induction hd0 s rule: parse_header_bytes.induct)
  case (1 hd0 s)
  show ?case
  proof (cases "s = [] \<or> search CRLF s = None")
    case True
    then show ?thesis using parse_header_bytes_wait [of s hd0] by simp
  next
    case False
    then obtain crlf where c: "search CRLF s = Some crlf" "s \<noteq> []" by auto
    note ca = search_append_Some [OF c(1), of t]
    have le: "crlf + 2 \<le> length s" using search_Some_le [OF c(1)] by simp
    show ?thesis
    proof (cases "crlf = 0")
      case True
      then show ?thesis using 1(2) c(1) ca le parse_header_bytes_end [of s hd0] parse_header_bytes_end [of "s @ t" hd0] by simp
    next
      case nz: False
      obtain pos where p: "search '':'' (s @ t) = Some pos" "\<not> pos > crlf"
        using 1(2) parse_header_bytes_bad [OF ca nz, of hd0] parse_header_bytes_out [OF ca nz, of _ hd0]
        by (cases "search '':'' (s @ t)") force+
      have "pos < length s" using p(2) le by simp
      then have ps: "search '':'' s = Some pos" using search_single_prefix [OF p(1)] by blast
      have fa: "field_added hd0 (s @ t) pos crlf = field_added hd0 s pos crlf" using le p(2) by (simp add: field_added_def Let_def)
      have e1: "parse_header_bytes hd0 (s @ t) = parse_header_bytes (field_added hd0 s pos crlf) (drop (crlf + 2) s @ t)"
        using parse_header_bytes_field [OF ca nz p, of hd0] le by (simp add: fa)
      have e2: "parse_header_bytes hd0 s = parse_header_bytes (field_added hd0 s pos crlf) (drop (crlf + 2) s)"
        using parse_header_bytes_field [OF c(1) nz ps p(2)] .
      have "parse_header_bytes (field_added hd0 s pos crlf) (drop (crlf + 2) s @ t) = Some (Ok, fs, u) \<Longrightarrow>
          (\<exists>hd1 s1. parse_header_bytes (field_added hd0 s pos crlf) (drop (crlf + 2) s) = Some (Continue, hd1, s1)) \<or>
          (\<exists>s'. parse_header_bytes (field_added hd0 s pos crlf) (drop (crlf + 2) s) = Some (Ok, fs, s') \<and> s' @ t = u)"
        unfolding field_added_def Let_def by (rule 1(1) [OF c(2,1) nz ps p(2) refl refl])
      then show ?thesis using 1(2) unfolding e1 e2 by simp
    qed
  qed
qed

section \<open>Where the client may stop\<close>

definition head_done :: "StatusCode \<Rightarrow> headers \<Rightarrow> http_response" where
  "head_done c fs =
     http_response_new\<lparr>rs_version := HTTP_VERSION_1_1, rs_status := int (status_value c), status_message := to_str c, rs_state := ParseHeader,
       rs_msg := message_new\<lparr>headers := fs\<rparr>\<rparr>"

definition body_done :: "StatusCode \<Rightarrow> headers \<Rightarrow> nat \<Rightarrow> string \<Rightarrow> http_response" where
  "body_done c fs n d = (head_done c fs)\<lparr>rs_state := ParseBody, rs_msg := message_new\<lparr>headers := fs, body_length := n, body := d\<rparr>\<rparr>"

text \<open>\<open>s\<close> is in the buffer and \<open>rest\<close> still to come: in the status line, in the header fields, or in the body.\<close>

definition on_track :: "StatusCode \<Rightarrow> headers \<Rightarrow> string \<Rightarrow> http_response \<Rightarrow> string \<Rightarrow> string \<Rightarrow> bool" where
  "on_track c fs b r s rest \<longleftrightarrow>
     (r = http_response_new \<and> s @ rest = status_line c @ format_fields fs @ b) \<or>
     (\<exists>hd0. r = head_done c hd0 \<and> parse_header_bytes hd0 (s @ rest) = Some (Ok, fs, b)) \<or>
     (\<exists>d. r = body_done c fs (length (s @ rest)) d \<and> d @ s @ rest = b \<and> s @ rest \<noteq> [])"

text \<open>What a call of the loop must give.\<close>

definition tracked :: "StatusCode \<Rightarrow> headers \<Rightarrow> string \<Rightarrow> string \<Rightarrow> recv_step \<Rightarrow> bool" where
  "tracked c fs b rest x \<longleftrightarrow>
     (if rest = [] then \<exists>n b'. x = REnd (body_done c fs n b) b' \<and> buffer_wf b' \<and> peek b' = []
      else \<exists>r' b'. x = RWait r' b' \<and> buffer_wf b' \<and> on_track c fs b r' (peek b') rest)"

lemma receive_loop_empty: "peek buf = [] \<Longrightarrow> buffer_wf buf \<Longrightarrow> receive_loop r buf = RWait r buf"
  using length_peek [of buf] by (subst receive_loop.simps) simp

lemma receive_loop_wait:
  "peek buf \<noteq> [] \<Longrightarrow> buffer_wf buf \<Longrightarrow> receive_step r buf = RWait r' b' \<Longrightarrow> receive_loop r buf = RWait r' b'"
  using length_peek [of buf] by (subst receive_loop.simps) (metis (no_types) length_0_conv recv_step.case(1))

lemma body_tracked:
  assumes wf: "buffer_wf buf" and r: "r = body_done c fs (length (peek buf @ rest)) d" "d @ peek buf @ rest = b" "peek buf @ rest \<noteq> []"
  shows "tracked c fs b rest (receive_loop r buf)"
proof (cases "peek buf = []")
  case True
  then show ?thesis using r wf receive_loop_empty [OF True wf, of r] unfolding tracked_def on_track_def by (cases "rest = []") auto
next
  case False
  have len: "readable buf = length (peek buf)" using length_peek [OF wf] by simp
  show ?thesis
  proof (cases "rest = []")
    case True
    have "receive_step r buf = REnd (body_done c fs (length (peek buf)) b) (retrieve buf (length (peek buf)))"
      using r True len by (simp add: receive_step_def body_done_def head_done_def http_response_new_def parse_body_def parse_body_by_content_length_def message_new_def)
    then have "receive_loop r buf = REnd (body_done c fs (length (peek buf)) b) (retrieve buf (length (peek buf)))" using receive_loop_end [OF False wf] by blast
    then show ?thesis using True retrieve_wf [OF wf] by (auto simp: tracked_def retrieve_peek)
  next
    case rest: False
    then have lt: "\<not> length (peek buf @ rest) \<le> readable buf" using len by simp
    let ?r = "body_done c fs (length rest) (d @ peek buf)"
    have "receive_step r buf = RWait ?r (retrieve_all buf)"
      using r(1) lt len by (simp add: receive_step_def body_done_def head_done_def http_response_new_def parse_body_def parse_body_by_content_length_def message_new_def)
    then have "receive_loop r buf = RWait ?r (retrieve_all buf)" using receive_loop_wait [OF False wf] by blast
    moreover have "on_track c fs b ?r (peek (retrieve_all buf)) rest"
      unfolding on_track_def using rest r(2) by (intro disjI2 exI [of _ "d @ peek buf"]) (simp add: retrieve_all_peek)
    ultimately show ?thesis using rest retrieve_all_wf [OF wf] by (simp add: tracked_def)
  qed
qed

lemma head_tracked:
  assumes wf: "buffer_wf buf" and r: "r = head_done c hd0" and p: "parse_header_bytes hd0 (peek buf @ rest) = Some (Ok, fs, b)"
    and l: "hdr_find ''Content-Length'' fs = Some (dec (length b))" "hdr_find ''Transfer-Encoding'' fs = None" "b \<noteq> []" "length b < 2 ^ 63"
  shows "tracked c fs b rest (receive_loop r buf)"
proof (cases "peek buf = []")
  case True
  then have "rest \<noteq> []" using p parse_header_bytes_wait [of "[]"] by auto
  then show ?thesis using True r p wf receive_loop_empty [OF True wf, of r] unfolding tracked_def on_track_def by auto
next
  case ne: False
  note ref = parse_header_refines [OF wf, of hd0]
  have hd: "headers (rs_msg r) = hd0" "rs_state r = ParseHeader" by (simp_all add: r head_done_def http_response_new_def message_new_def)
  from parse_header_bytes_prefix [OF p] show ?thesis
  proof (elim disjE exE conjE)
    fix hd1 s1 assume c: "parse_header_bytes hd0 (peek buf) = Some (Continue, hd1, s1)"
    then obtain b1 where b1: "parse_header hd0 buf = Some (Continue, hd1, b1)" "buffer_wf b1" "peek b1 = s1"
      using ref by (auto split: option.splits)
    have "rest \<noteq> []" using c p by auto
    have "receive_step r buf = RWait (head_done c hd1) b1"
      using b1(1) hd by (simp add: receive_step_def) (simp add: r head_done_def http_response_new_def message_new_def)
    then have "receive_loop r buf = RWait (head_done c hd1) b1" using receive_loop_wait [OF ne wf] by blast
    moreover have "parse_header_bytes hd1 (peek b1 @ rest) = Some (Ok, fs, b)" using parse_header_bytes_stream [OF c] p b1(3) by simp
    ultimately show ?thesis using \<open>rest \<noteq> []\<close> b1(2) unfolding tracked_def on_track_def by auto
  next
    fix s' assume ok: "parse_header_bytes hd0 (peek buf) = Some (Ok, fs, s')" and s': "s' @ rest = b"
    then obtain b1 where b1: "parse_header hd0 buf = Some (Ok, fs, b1)" "buffer_wf b1" "peek b1 = s'"
      using ref by (auto split: option.splits)
    have "parse_body_length (message_new\<lparr>headers := fs\<rparr>) = (Ok, message_new\<lparr>headers := fs, body_length := length b\<rparr>)"
      using l svtoll_dec [OF l(4)] by (simp add: parse_body_length_def Let_def)
    then have "receive_step r buf = RAgain (body_done c fs (length b) []) b1"
      using b1(1) hd by (simp add: receive_step_def) (simp add: r head_done_def body_done_def http_response_new_def message_new_def)
    then have "receive_loop r buf = receive_loop (body_done c fs (length b) []) b1" using receive_loop_again [OF ne wf] by blast
    moreover have "tracked c fs b rest (receive_loop (body_done c fs (length b) []) b1)"
      by (rule body_tracked [OF b1(2), where d = "[]"]) (use s' b1(3) l(3) in auto)
    ultimately show ?thesis by simp
  qed
qed

lemma line_tracked:
  assumes wf: "buffer_wf buf" and s: "peek buf @ rest = status_line c @ format_fields fs @ b"
    and f: "list_all field_ok fs" "keys_distinct fs"
    and l: "hdr_find ''Content-Length'' fs = Some (dec (length b))" "hdr_find ''Transfer-Encoding'' fs = None" "b \<noteq> []" "length b < 2 ^ 63"
  shows "tracked c fs b rest (receive_loop http_response_new buf)"
proof (cases "search CRLF (peek buf)")
  case None
  obtain line where line: "status_line c = line @ CRLF" "CR \<notin> set line"
    using to_str_plain [of c] dec_no [of CR "status_value c"] by (auto simp: status_line_def isdigit_def intro!: that [of "''HTTP/1.1'' @ SP # dec (status_value c) @ SP # to_str c"])
  have "rest \<noteq> []"
  proof
    assume "rest = []"
    then have "search CRLF (peek buf) = Some (length line)" using s line search_CRLF_line [of line] by simp
    then show False using None by simp
  qed
  moreover have "receive_loop http_response_new buf = RWait http_response_new buf"
  proof (cases "peek buf = []")
    case False
    have "receive_step http_response_new buf = RWait http_response_new buf"
      using None by (simp add: receive_step_def response_parse_line_def find_crlf_search http_response_new_def)
    then show ?thesis using receive_loop_wait [OF False wf] by blast
  qed (rule receive_loop_empty [OF _ wf])
  ultimately show ?thesis using wf s unfolding tracked_def on_track_def by auto
next
  case (Some i)
  then have ne: "peek buf \<noteq> []" by auto
  obtain line where line: "status_line c = line @ CRLF" "CR \<notin> set line"
    using to_str_plain [of c] dec_no [of CR "status_value c"] by (auto simp: status_line_def isdigit_def intro!: that [of "''HTTP/1.1'' @ SP # dec (status_value c) @ SP # to_str c"])
  have "search CRLF (peek buf @ rest) = Some (length line)" unfolding s line using search_CRLF_line [OF line(2)] by simp
  then have "i = length line" using search_append_Some [OF Some, of rest] by simp
  then have "length (status_line c) \<le> length (peek buf)" using search_Some_le [OF Some] line(1) by simp
  then obtain s2 where s2: "peek buf = status_line c @ s2" "s2 @ rest = format_fields fs @ b"
    using s by (metis append_eq_append_conv_if append_eq_conv_conj append_take_drop_id)
  from response_line_parsed [OF wf s2(1), of http_response_new] obtain b1 where
    b1: "receive_step http_response_new buf = RAgain (head_done c []) b1" "buffer_wf b1" "peek b1 = s2"
    by (auto simp: receive_step_def http_response_new_def head_done_def message_new_def)
  have "parse_header_bytes [] (peek b1 @ rest) = Some (Ok, fs, b)" using parse_header_bytes_fields [of fs "[]" b] f b1(3) s2(2) by simp
  from head_tracked [OF b1(2) refl this l] show ?thesis using receive_loop_again [OF ne wf b1(1)] by simp
qed

lemma loop_tracked:
  assumes wf: "buffer_wf buf" and t: "on_track c fs b r (peek buf) rest"
    and f: "list_all field_ok fs" "keys_distinct fs"
    and l: "hdr_find ''Content-Length'' fs = Some (dec (length b))" "hdr_find ''Transfer-Encoding'' fs = None" "b \<noteq> []" "length b < 2 ^ 63"
  shows "tracked c fs b rest (receive_loop r buf)"
proof -
  from t consider "r = http_response_new" "peek buf @ rest = status_line c @ format_fields fs @ b"
    | hd0 where "r = head_done c hd0" "parse_header_bytes hd0 (peek buf @ rest) = Some (Ok, fs, b)"
    | d where "r = body_done c fs (length (peek buf @ rest)) d" "d @ peek buf @ rest = b" "peek buf @ rest \<noteq> []"
    unfolding on_track_def by blast
  then show ?thesis
  proof cases
    case 1
    then show ?thesis using line_tracked [OF wf 1(2) f l] by simp
  next
    case 2
    then show ?thesis using head_tracked [OF wf 2 l] by simp
  next
    case 3
    then show ?thesis using body_tracked [OF wf 3] by simp
  qed
qed

text \<open>A response with a body of known length is delivered once, with its last byte, in whatever portions it arrives.\<close>

lemma recv_portions_delivers:
  assumes "on_track c fs b r (peek buf) (concat ps)" and "buffer_wf buf" and "ps \<noteq> []" and "[] \<notin> set ps"
    and f: "list_all field_ok fs" "keys_distinct fs"
    and l: "hdr_find ''Content-Length'' fs = Some (dec (length b))" "hdr_find ''Transfer-Encoding'' fs = None" "b \<noteq> []" "length b < 2 ^ 63"
  shows "\<exists>n buf'. recv_portions r buf ps = Some ([body_done c fs n b], moved (body_done c fs n b), buf') \<and> peek buf' = []"
  using assms(1-4)
proof (induction ps arbitrary: r buf)
  case (Cons p ps)
  let ?buf = "fst (read_fd buf (Some p))"
  have pk: "peek ?buf = peek buf @ p" "buffer_wf ?buf" using Cons.prems(2) by (simp_all add: read_fd_peek read_fd_wf)
  have "on_track c fs b r (peek ?buf) (concat ps)" using Cons.prems(1) by (simp add: pk on_track_def)
  from loop_tracked [OF pk(2) this f l] have t: "tracked c fs b (concat ps) (receive_loop r ?buf)" .
  show ?case
  proof (cases "ps = []")
    case True
    then show ?thesis using t by (auto simp: tracked_def receive_def)
  next
    case False
    then have "concat ps \<noteq> []" using Cons.prems(4) by (cases ps) auto
    then obtain r' b' where w: "receive_loop r ?buf = RWait r' b'" "buffer_wf b'" "on_track c fs b r' (peek b') (concat ps)"
      using t unfolding tracked_def by (metis (no_types))
    from Cons.IH [OF w(3,2) False] Cons.prems(4) obtain n buf' where
      "recv_portions r' b' ps = Some ([body_done c fs n b], moved (body_done c fs n b), buf')" "peek buf' = []" by auto
    then show ?thesis using w(1) by (auto simp: receive_def)
  qed
qed simp

end
