(* ===== verification/WebSocket.thy ===== *)
theory WebSocket
  imports Base64 Sha1 Buffer
begin

unbundle bit_operations_syntax

text \<open>
  \<^verbatim>\<open>src/websocket/ws-server.cc\<close>: the opening handshake, decoding of frames, sending of messages and fragments, and the
  message handler. \<^verbatim>\<open>uint64_t\<close> lengths are 64 bit words, so the sum in \<^verbatim>\<open>decode_payload_len\<close> wraps as in the code. A
  \<^verbatim>\<open>uint16_t\<close> that is sent by its address appears in the byte order of the host, which is the argument
  \<open>host16\<close>. The user callbacks are events in the log of a context, in order with what is sent.
\<close>

section \<open>The context\<close>

datatype ws_state = Handshake | HandshakeOK | HandshakeError | Establish
datatype ws_code = WsOk | WsError | NotEnough | Ping | Pong | Close
datatype fragment_state = FirstFragment | MiddleFragment | FinalFragment

datatype ws_event = WsSend string | WsSendFile string nat | WsOnComplete | WsClose | OnOpen | OnMessage string bool | OnClose | OnError

record ws_context =
  ws_st :: ws_state
  is_binary_type :: bool
  decoded_buffer :: string
  origin :: string
  ws_host :: string
  SecWebSocketAccept :: string
  encoded_buffer :: string
  read_request_line :: bool
  required_request_headers :: int
  rcvfragment :: bool
  sndfragment :: fragment_state
  ws_log :: "ws_event list"

definition ws_new :: ws_context where
  "ws_new = \<lparr>ws_st = Handshake, is_binary_type = False, decoded_buffer = [], origin = [], ws_host = [], SecWebSocketAccept = [],
     encoded_buffer = [], read_request_line = True, required_request_headers = 6, rcvfragment = False,
     sndfragment = FirstFragment, ws_log = []\<rparr>"

definition emit :: "ws_event list \<Rightarrow> ws_context \<Rightarrow> ws_context" where
  "emit es cx = cx\<lparr>ws_log := ws_log cx @ es\<rparr>"

section \<open>Handshake\<close>

definition guid :: string where
  "guid = ''258EAFA5-E914-47DA-95CA-C5AB0DC85B11''"

text \<open>The static hash object is in its initial state between two calls. \<open>None\<close> is the exception of the hash.\<close>

definition sec_websocket_accept :: "string \<Rightarrow> ws_context \<Rightarrow> ws_context option" where
  "sec_websocket_accept key cx =
     (case digest (update (key @ guid) sha1_new) of
        None \<Rightarrow> None
      | Some (d, s) \<Rightarrow> Some (cx\<lparr>SecWebSocketAccept := base64_encode Standard d\<rparr>))"

text \<open>
  One line. The search for the blank behind the URI runs over an invalid range when the request line is
  shorter than eight characters, result \<open>None\<close>.
\<close>

definition handshake_request_line :: "string \<Rightarrow> ws_context \<Rightarrow> (ws_state \<times> ws_context) option" where
  "handshake_request_line line cx0 =
     (let cx = cx0\<lparr>read_request_line := False\<rparr>
      in if \<not> starts_with line ''GET '' then Some (HandshakeError, cx)
         else if length line < 8 then None
         else
           let p = 4 + length (takeWhile (\<lambda>c. c \<noteq> SP) (take (length line - 8) (drop 4 line)))
           in if drop (p + 1) line \<noteq> ''HTTP/1.1'' then Some (HandshakeError, cx) else Some (Handshake, cx))"

definition field_value :: "string \<Rightarrow> nat \<Rightarrow> string" where
  "field_value line n = trim (drop n line)"

definition handshake_header :: "string \<Rightarrow> ws_context \<Rightarrow> (ws_state \<times> ws_context) option" where
  "handshake_header line cx =
     (let less = cx\<lparr>required_request_headers := required_request_headers cx - 1\<rparr>
      in if starts_with_case line ''Host:'' then Some (Handshake, less\<lparr>ws_host := field_value line 5\<rparr>)
         else if starts_with_case line ''Connection:'' then
           Some (if equal_case (field_value line 11) ''Upgrade'' then Handshake else HandshakeError, less)
         else if starts_with_case line ''Upgrade:'' then
           Some (if equal_case (field_value line 8) ''websocket'' then Handshake else HandshakeError, less)
         else if starts_with_case line ''Sec-WebSocket-Key:'' then
           map_option (\<lambda>c. (Handshake, c)) (sec_websocket_accept (field_value line 18) less)
         else if starts_with_case line ''Sec-WebSocket-Version:'' then
           Some (if value_or (svtoi (field_value line 22)) 0 = 13 then Handshake else HandshakeError, less)
         else if starts_with_case line ''Origin:'' then Some (Handshake, less\<lparr>origin := field_value line 7\<rparr>)
         else Some (Handshake, cx))"

definition handshake_line :: "buffer \<Rightarrow> nat \<Rightarrow> ws_context \<Rightarrow> (ws_state \<times> ws_context \<times> buffer) option" where
  "handshake_line buf crlf cx =
     (let line = take crlf (peek buf)
      in if read_request_line cx then
           (case handshake_request_line line cx of
              None \<Rightarrow> None
            | Some (s, cx') \<Rightarrow> Some (s, cx', if s = HandshakeError then buf else retrieve buf (crlf + 2)))
         else if crlf = 0 then
           Some (if required_request_headers cx = 0 then HandshakeOK else HandshakeError, cx, retrieve buf 2)
         else
           (case handshake_header line cx of
              None \<Rightarrow> None
            | Some (s, cx') \<Rightarrow> Some (s, cx', if s = HandshakeError then buf else retrieve buf (crlf + 2))))"

definition handshake_ok :: "ws_context \<Rightarrow> ws_context" where
  "handshake_ok cx =
     emit [WsSend (''HTTP/1.1 101 Switching Protocols'' @ CRLF @ ''Connection: Upgrade'' @ CRLF @ ''Upgrade: websocket'' @ CRLF @
       ''Sec-WebSocket-Accept: '' @ SecWebSocketAccept cx @ CRLF @ CRLF)] cx"

definition handshake_error :: "ws_context \<Rightarrow> ws_context" where
  "handshake_error cx = emit [WsSend (''HTTP/1.1 400 Bad Request'' @ CRLF @ CRLF)] cx"

lemma handshake_line_less:
  assumes "handshake_line buf crlf cx = Some (s, cx1, b1)" and "s \<noteq> HandshakeError" and "readable buf \<noteq> 0"
  shows "readable b1 < readable buf"
proof -
  obtain n where "b1 = retrieve buf n" "0 < n"
    using assms(1,2) by (auto simp: handshake_line_def Let_def split: if_splits option.splits)
  then show ?thesis using assms(3) readable_retrieve_lt by simp
qed

function handshake :: "ws_context \<Rightarrow> buffer \<Rightarrow> (ws_state \<times> ws_context \<times> buffer) option" where
  "handshake cx buf =
     (if readable buf = 0 then Some (Handshake, cx, buf)
      else case find_crlf buf of
        None \<Rightarrow> Some (Handshake, cx, buf)
      | Some crlf \<Rightarrow>
          (case handshake_line buf crlf cx of
             None \<Rightarrow> None
           | Some (s, cx1, b1) \<Rightarrow>
               let cx2 = cx1\<lparr>ws_st := s\<rparr>
               in if s = HandshakeOK then Some (HandshakeOK, handshake_ok (cx2\<lparr>ws_st := Establish\<rparr>), b1)
                  else if s = HandshakeError then Some (HandshakeError, handshake_error cx2, b1)
                  else handshake cx2 b1))"
  by pat_completeness auto
termination
  by (relation "measure (\<lambda>(cx, buf). readable buf)") (auto simp: handshake_line_less)

declare handshake.simps [simp del]

section \<open>Frames\<close>

definition b2w :: "string \<Rightarrow> nat \<Rightarrow> u8" where
  "b2w b i = u8 (b ! i)"

text \<open>\<^verbatim>\<open>decode_payload_len\<close>: the length, the masking key and the offset of the data, or \<open>None\<close> for false.\<close>

definition decode_payload_len :: "u64 \<Rightarrow> string \<Rightarrow> bool \<Rightarrow> (u64 \<times> string \<times> nat) option" where
  "decode_payload_len len7 b masked =
     (let readable = (of_nat (length b) :: u64);
          finish = (\<lambda>len (i :: nat). let key_len = (if masked then 4 else 0 :: nat)
             in if readable < of_nat i + of_nat key_len + len then None else Some (len, take key_len (drop i b), i + key_len))
      in if len7 = 127 then if readable < 10 then None else finish (rd64 (drop 2 b)) 10
         else if len7 = 126 then if readable < 4 then None else finish (ucast (rd16 (drop 2 b))) 4
         else finish len7 2)"

definition check_fragmentation :: "bool \<Rightarrow> bool \<Rightarrow> u8 \<Rightarrow> bool" where
  "check_fragmentation fragment fin opcode =
     (if \<not> fin then (if \<not> fragment then opcode \<noteq> 0 else opcode = 0)
      else if fragment then opcode = 0 else True)"

definition unmask :: "string \<Rightarrow> string \<Rightarrow> string" where
  "unmask key data = map (\<lambda>i. chr8 (u8 (data ! i) XOR u8 (key ! (i mod 4)))) [0..<length data]"

text \<open>
  \<^verbatim>\<open>decode\<close>. The sum that is compared with \<^verbatim>\<open>readable\<close> may wrap; a data that is longer than the buffer makes \<^verbatim>\<open>reserve\<close> throw, result \<open>None\<close>.
\<close>

definition opcode_result :: "u8 \<Rightarrow> ws_context \<Rightarrow> ws_code \<times> ws_context" where
  "opcode_result opcode cx =
     (if opcode = 1 then (WsOk, cx\<lparr>is_binary_type := False\<rparr>)
      else if opcode = 2 then (WsOk, cx\<lparr>is_binary_type := True\<rparr>)
      else if opcode = 8 then (Close, cx)
      else if opcode = 9 then (Ping, cx)
      else if opcode = 10 then (Pong, cx)
      else (WsOk, cx))"

definition decode :: "ws_context \<Rightarrow> buffer \<Rightarrow> (ws_code \<times> ws_context \<times> buffer) option" where
  "decode cx raw_buf =
     (let b = peek raw_buf
      in if readable raw_buf < 2 then Some (NotEnough, cx, raw_buf)
         else
           let fin = bit (b2w b 0) 7; opcode = b2w b 0 AND 0x0f; masked = bit (b2w b 1) 7; len7 = (ucast (b2w b 1 AND 0x7f) :: u64)
           in if \<not> check_fragmentation (rcvfragment cx) fin opcode then Some (WsError, cx, raw_buf)
              else if 8 \<le> opcode \<and> 125 < len7 then Some (WsError, cx, raw_buf)
              else case decode_payload_len len7 b masked of
                None \<Rightarrow> Some (NotEnough, cx, raw_buf)
              | Some (len, key, off) \<Rightarrow>
                  if length b < off + unat len then None
                  else
                    let data = take (unat len) (drop off b);
                        text = (if masked then unmask key data else data);
                        cx1 = cx\<lparr>decoded_buffer := (if rcvfragment cx then decoded_buffer cx else []) @ text, rcvfragment := \<not> fin\<rparr>;
                        (rc, cx2) = opcode_result opcode cx1
                    in Some (rc, cx2, retrieve raw_buf (off + unat len)))"

definition encode :: "nat \<Rightarrow> u8 \<Rightarrow> ws_context \<Rightarrow> ws_context" where
  "encode raw_size first_byte cx =
     cx\<lparr>encoded_buffer := encoded_buffer cx @ chr8 first_byte #
       (if raw_size \<le> 125 then [chr8 (of_nat raw_size)]
        else if raw_size \<le> 65535 then chr8 126 # be16 (of_nat raw_size)
        else chr8 127 # be64 (of_nat raw_size))\<rparr>"

definition ws_BufferedSize :: nat where
  "ws_BufferedSize = 4096"

definition data_opcode :: "ws_context \<Rightarrow> u8" where
  "data_opcode cx = (if is_binary_type cx then 2 else 1)"

definition ws_send :: "string \<Rightarrow> ws_context \<Rightarrow> ws_context" where
  "ws_send message cx =
     (let c1 = encode (length message) (0x80 OR data_opcode cx) cx;
          c2 = (if length message \<ge> ws_BufferedSize then emit [WsSend (encoded_buffer c1), WsSend message] c1
                else emit [WsSend (encoded_buffer c1 @ message)] c1)
      in c2\<lparr>encoded_buffer := []\<rparr>)"

definition fragment_byte :: "fragment_state \<Rightarrow> ws_context \<Rightarrow> u8 \<times> fragment_state" where
  "fragment_byte s cx =
     (case s of
        FirstFragment \<Rightarrow> (data_opcode cx, MiddleFragment)
      | MiddleFragment \<Rightarrow> (0, MiddleFragment)
      | FinalFragment \<Rightarrow> (0x80, FirstFragment))"

definition send_fragment :: "string \<Rightarrow> bool \<Rightarrow> ws_context \<Rightarrow> ws_context" where
  "send_fragment fragment final_fragment cx =
     (let (first_byte, s) = fragment_byte (if final_fragment then FinalFragment else sndfragment cx) cx;
          c1 = encode (length fragment) first_byte (cx\<lparr>sndfragment := s\<rparr>)
      in if length fragment \<ge> ws_BufferedSize then
           (emit [WsSend (encoded_buffer c1), WsSend fragment] c1)\<lparr>encoded_buffer := []\<rparr>
         else
           let c2 = c1\<lparr>encoded_buffer := encoded_buffer c1 @ fragment\<rparr>
           in if final_fragment \<or> length (encoded_buffer c2) \<ge> ws_BufferedSize
              then (emit [WsSend (encoded_buffer c2)] c2)\<lparr>encoded_buffer := []\<rparr> else c2)"

definition ws_send_file :: "string \<Rightarrow> nat option \<Rightarrow> ws_context \<Rightarrow> bool \<times> ws_context" where
  "ws_send_file fpath filesize cx =
     (case filesize of
        None \<Rightarrow> (False, cx)
      | Some n \<Rightarrow>
          let c1 = encode n (0x80 OR data_opcode cx) cx
          in (True, (emit [WsSend (encoded_buffer c1), WsSendFile fpath n, WsOnComplete] c1)\<lparr>encoded_buffer := []\<rparr>))"

section \<open>The message handler\<close>

datatype ws_fault = Undefined | Diverges

record ws_server =
  onopen :: "(ws_context \<Rightarrow> ws_context) option"
  onmessage :: "(ws_context \<Rightarrow> ws_context) option"
  onclose :: "(ws_context \<Rightarrow> ws_context) option"
  onerror :: "(ws_context \<Rightarrow> ws_context) option"

definition call :: "(ws_context \<Rightarrow> ws_context) option \<Rightarrow> ws_context \<Rightarrow> ws_context" where
  "call h cx = (case h of None \<Rightarrow> cx | Some f \<Rightarrow> f cx)"

datatype ws_step = WsReturn "ws_fault + (ws_context \<times> buffer)" | WsAgain ws_context buffer

text \<open>In a state other than \<open>Handshake\<close> and \<open>Establish\<close> the switch does nothing and the loop never ends.\<close>

definition ws_handle :: "(u16 \<Rightarrow> string) \<Rightarrow> ws_server \<Rightarrow> ws_context \<Rightarrow> buffer \<Rightarrow> ws_step" where
  "ws_handle host16 ws cx buf =
     (case ws_st cx of
        Handshake \<Rightarrow>
          (case handshake cx buf of
             None \<Rightarrow> WsReturn (Inl Undefined)
           | Some (s, cx1, b1) \<Rightarrow>
               if s = HandshakeOK then WsAgain (call (onopen ws) cx1) b1
               else if s = HandshakeError then WsReturn (Inr (emit [WsClose] (call (onerror ws) cx1), b1))
               else WsReturn (Inr (cx1, b1)))
      | Establish \<Rightarrow>
          (case decode cx buf of
             None \<Rightarrow> WsReturn (Inl Undefined)
           | Some (c, cx1, b1) \<Rightarrow>
               (case c of
                  WsOk \<Rightarrow> WsAgain (if \<not> rcvfragment cx1 then call (onmessage ws) cx1 else cx1) b1
                | Close \<Rightarrow> WsReturn (Inr (emit [WsSend (host16 0x8800), WsClose] (call (onclose ws) cx1), b1))
                | Ping \<Rightarrow> WsAgain (emit [WsSend (host16 0x8A00)] cx1) b1
                | Pong \<Rightarrow> WsAgain cx1 b1
                | WsError \<Rightarrow> WsReturn (Inr (emit [WsClose] (call (onerror ws) cx1), b1))
                | NotEnough \<Rightarrow> WsReturn (Inr (cx1, b1))))
      | s \<Rightarrow> WsReturn (Inl Diverges))"

lemma decode_less:
  assumes "decode cx buf = Some (c, cx', b)" and "c \<noteq> WsError" "c \<noteq> NotEnough"
  shows "readable b < readable buf"
proof -
  obtain n where "b = retrieve buf n" "0 < n" and "2 \<le> readable buf"
    using assms by (auto simp: decode_def decode_payload_len_def Let_def split: if_splits option.splits prod.splits)
  then show ?thesis using readable_retrieve_lt [of buf n] by simp
qed

lemma handshake_less: "handshake cx buf = Some (HandshakeOK, cx', b) \<Longrightarrow> readable b < readable buf"
proof (induction cx buf rule: handshake.induct)
  case (1 cx buf)
  from 1(2) obtain crlf s cx1 b1 where h: "readable buf \<noteq> 0" "find_crlf buf = Some crlf" "handshake_line buf crlf cx = Some (s, cx1, b1)"
    by (subst (asm) handshake.simps) (auto split: if_splits option.splits)
  then have ne: "s \<noteq> HandshakeError" using 1(2) by (auto simp: handshake.simps [of cx buf])
  have less: "readable b1 < readable buf" by (rule handshake_line_less [OF h(3) ne h(1)])
  show ?case
  proof (cases "s = HandshakeOK")
    case True
    then show ?thesis using 1(2) h less by (simp add: handshake.simps [of cx buf])
  next
    case False
    then have "handshake (cx1\<lparr>ws_st := s\<rparr>) b1 = Some (HandshakeOK, cx', b)" using 1(2) h ne by (simp add: handshake.simps [of cx buf])
    from 1(1) [OF h refl refl refl False ne this] less show ?thesis by simp
  qed
qed

lemma ws_handle_less:
  assumes "ws_handle host16 ws cx buf = WsAgain cx' b"
  shows "readable b < readable buf"
proof (cases "ws_st cx")
  case Handshake
  then obtain cx1 where "handshake cx buf = Some (HandshakeOK, cx1, b)"
    using assms by (auto simp: ws_handle_def split: option.splits if_splits)
  then show ?thesis by (rule handshake_less)
next
  case Establish
  then obtain c cx1 where "decode cx buf = Some (c, cx1, b)" "c \<noteq> WsError" "c \<noteq> NotEnough"
    using assms by (auto simp: ws_handle_def split: option.splits ws_code.splits)
  then show ?thesis by (rule decode_less)
qed (use assms in \<open>simp_all add: ws_handle_def\<close>)

function ws_message_handler :: "(u16 \<Rightarrow> string) \<Rightarrow> ws_server \<Rightarrow> ws_context \<Rightarrow> buffer \<Rightarrow> ws_fault + (ws_context \<times> buffer)" where
  "ws_message_handler host16 ws cx buf =
     (if readable buf = 0 then Inr (cx, buf)
      else case ws_handle host16 ws cx buf of WsReturn r \<Rightarrow> r | WsAgain cx' b' \<Rightarrow> ws_message_handler host16 ws cx' b')"
  by pat_completeness auto
termination
  by (relation "measure (\<lambda>(h, ws, cx, buf). readable buf)") (auto simp: ws_handle_less)

declare ws_message_handler.simps [simp del]

section \<open>Frames of RFC 6455\<close>

text \<open>
  The reference: a frame with final bit, opcode, optional masking key and payload. The server never masks.
\<close>

definition length_bytes :: "bool \<Rightarrow> nat \<Rightarrow> string" where
  "length_bytes masked n =
     (let m = (if masked then 0x80 else 0 :: u8)
      in if n \<le> 125 then [chr8 (m OR of_nat n)]
         else if n \<le> 65535 then chr8 (m OR 126) # be16 (of_nat n)
         else chr8 (m OR 127) # be64 (of_nat n))"

text \<open>RFC 6455, 5.3: the octets of the key are used in turn.\<close>

fun mask_octets :: "string \<Rightarrow> string \<Rightarrow> string" where
  "mask_octets key [] = []"
| "mask_octets [] data = data"
| "mask_octets (k # ks) (d # ds) = chr8 (u8 d XOR u8 k) # mask_octets (ks @ [k]) ds"

definition masked_data :: "string option \<Rightarrow> string \<Rightarrow> string" where
  "masked_data key data = (case key of None \<Rightarrow> data | Some k \<Rightarrow> k @ mask_octets k data)"

definition frame :: "bool \<Rightarrow> u8 \<Rightarrow> string option \<Rightarrow> string \<Rightarrow> string" where
  "frame fin opcode key data =
     chr8 ((if fin then 0x80 else 0) OR opcode) # length_bytes (key \<noteq> None) (length data) @ masked_data key data"

definition frame_ok :: "u8 \<Rightarrow> string option \<Rightarrow> string \<Rightarrow> bool" where
  "frame_ok opcode key data \<longleftrightarrow> opcode < 16 \<and> (8 \<le> opcode \<longrightarrow> length data \<le> 125) \<and> length data < 2 ^ 63 \<and>
     (case key of None \<Rightarrow> True | Some k \<Rightarrow> length k = 4)"

lemma encode_frame: "encoded_buffer (encode n fb cx) = encoded_buffer cx @ chr8 fb # length_bytes False n"
  by (simp add: encode_def length_bytes_def)

lemma length_unmask [simp]: "length (unmask k d) = length d"
  by (simp add: unmask_def)

lemma unmask_unmask [simp]: "unmask k (unmask k d) = d"
  by (rule nth_equalityI) (simp_all add: unmask_def xor.assoc)

lemma mask_octets_nth:
  "key \<noteq> [] \<Longrightarrow> mask_octets key data = map (\<lambda>i. chr8 (u8 (data ! i) XOR u8 (key ! (i mod length key)))) [0..<length data]"
proof (induction key data rule: mask_octets.induct)
  case (3 k ks d ds)
  have "(ks @ [k]) ! (i mod length (ks @ [k])) = (k # ks) ! (Suc i mod length (k # ks))" for i
    using nth_rotate1 [of "i mod length (k # ks)" "k # ks"] by (simp add: mod_Suc_eq)
  with 3 show ?case by (simp add: upt_conv_Cons map_Suc_upt [symmetric] del: upt_Suc)
qed simp_all

lemma mask_octets_unmask: "length k = 4 \<Longrightarrow> mask_octets k data = unmask k data"
  using mask_octets_nth [of k data] by (cases k) (simp_all add: unmask_def)

lemma byte0:
  assumes "opcode < 16"
  shows "bit ((if fin then 0x80 else 0) OR opcode :: u8) 7 = fin" "((if fin then 0x80 else 0) OR opcode :: u8) AND 0x0f = opcode"
proof -
  have all: "\<forall>n \<in> set [0..<16]. \<forall>f \<in> set [False, True]. bit ((if f then 0x80 else 0) OR of_nat n :: u8) 7 = f \<and>
      ((if f then 0x80 else 0) OR of_nat n :: u8) AND 0x0f = of_nat n" by code_simp
  have "unat opcode < 16" using assms by (simp add: word_less_nat_alt)
  then have "unat opcode \<in> set [0..<16]" by simp
  from all [rule_format, OF this, of fin]
  show "bit ((if fin then 0x80 else 0) OR opcode :: u8) 7 = fin" "((if fin then 0x80 else 0) OR opcode :: u8) AND 0x0f = opcode"
    by (cases fin; simp)+
qed

lemma byte1:
  assumes "n < 128"
  shows "bit ((if masked then 0x80 else 0) OR of_nat n :: u8) 7 = masked" "((if masked then 0x80 else 0) OR of_nat n :: u8) AND 0x7f = of_nat n"
proof -
  have all: "\<forall>n \<in> set [0..<128]. \<forall>f \<in> set [False, True]. bit ((if f then 0x80 else 0) OR of_nat n :: u8) 7 = f \<and>
      ((if f then 0x80 else 0) OR of_nat n :: u8) AND 0x7f = of_nat n" by code_simp
  have "n \<in> set [0..<128]" using assms by simp
  from all [rule_format, OF this, of masked]
  show "bit ((if masked then 0x80 else 0) OR of_nat n :: u8) 7 = masked" "((if masked then 0x80 else 0) OR of_nat n :: u8) AND 0x7f = of_nat n"
    by (cases masked; simp)+
qed

lemma of_nat_less_u64: "x < 2 ^ 64 \<Longrightarrow> y < 2 ^ 64 \<Longrightarrow> (of_nat x :: u64) < of_nat y \<longleftrightarrow> x < y"
  by (simp add: word_less_nat_alt unsigned_of_nat take_bit_nat_eq_self)


lemma ucast_of_nat_u8: "n < 256 \<Longrightarrow> (ucast (of_nat n :: u8) :: u64) = of_nat n"
  by (simp add: unsigned_of_nat take_bit_nat_eq_self)

lemma ucast_of_nat_u16: "n < 65536 \<Longrightarrow> (ucast (of_nat n :: u16) :: u64) = of_nat n"
  by (simp add: unsigned_of_nat take_bit_nat_eq_self)

lemma length_length_bytes: "length (length_bytes m n) = (if n \<le> 125 then 1 else if n \<le> 65535 then 3 else 9)"
  by (simp add: length_bytes_def Let_def)

definition len7 :: "nat \<Rightarrow> nat" where
  "len7 n = (if n \<le> 125 then n else if n \<le> 65535 then 126 else 127)"

lemma length_bytes_hd: "length_bytes m n = chr8 ((if m then 0x80 else 0) OR of_nat (len7 n)) # tl (length_bytes m n)"
  by (simp add: length_bytes_def len7_def Let_def)

lemma second_byte:
  assumes "b = b0 # length_bytes m n @ t \<or> (\<exists>j \<ge> 2. b = take j (b0 # length_bytes m n @ t))"
  shows "bit (b2w b 1) 7 = m" "(ucast (b2w b 1 AND 0x7f) :: u64) = of_nat (len7 n)"
proof -
  have "b ! 1 = chr8 ((if m then 0x80 else 0) OR of_nat (len7 n))"
    using assms length_bytes_hd [of m n] by (auto simp: nth_append) (metis nth_Cons_0 append_Cons)+
  then have "b2w b 1 = (if m then 0x80 else 0) OR of_nat (len7 n)" by (simp only: b2w_def u8_chr8)
  moreover have "len7 n < 128" by (simp add: len7_def)
  ultimately show "bit (b2w b 1) 7 = m" "(ucast (b2w b 1 AND 0x7f) :: u64) = of_nat (len7 n)"
    using byte1 [of "len7 n" m] by (simp_all add: ucast_of_nat_u8)
qed

lemma payload_len_finish:
  assumes "length b < 2 ^ 64" "i + k + n < 2 ^ 64"
  shows "(of_nat (length b) :: u64) < of_nat i + of_nat k + of_nat n \<longleftrightarrow> length b < i + k + n"
  using of_nat_less_u64 [OF assms] by simp

lemma small_len: "n \<le> 125 \<Longrightarrow> (of_nat n :: u64) \<noteq> 126 \<and> (of_nat n :: u64) \<noteq> 127"
  using of_nat_less_u64 [of n 126] of_nat_less_u64 [of n 127] by auto

lemma length_readable: "length b < 2 ^ 64 \<Longrightarrow> (of_nat (length b) :: u64) < 10 \<longleftrightarrow> length b < 10"
  "length b < 2 ^ 64 \<Longrightarrow> (of_nat (length b) :: u64) < 4 \<longleftrightarrow> length b < 4"
  using of_nat_less_u64 [of "length b" 10] of_nat_less_u64 [of "length b" 4] by simp_all

text \<open>The three formats of the length, once the extended length is there.\<close>

lemma payload_len_eq:
  assumes b: "b = b0 # length_bytes m n @ s" and len: "length b < 2 ^ 64" and n: "n < 2 ^ 63"
  shows "decode_payload_len (of_nat (len7 n)) b m =
    (let k = (if m then 4 else 0); i = 1 + length (length_bytes m n)
     in if length b < i + k + n then None else Some (of_nat n, take k s, i + k))"
proof -
  let ?k = "if m then 4 else 0 :: nat"
  have fin: "(of_nat (length b) :: u64) < of_nat i + of_nat ?k + of_nat n \<longleftrightarrow> length b < i + ?k + n" if "i \<le> 10" for i
    using that n by (intro payload_len_finish [OF len]) simp
  consider "n \<le> 125" | (mid) "125 < n" "n \<le> 65535" | (big) "65535 < n" by linarith
  then show ?thesis
  proof cases
    case 1
    then obtain c where c: "length_bytes m n = [c]" by (simp add: length_bytes_def Let_def)
    have "drop 2 b = s" by (simp add: b c)
    then show ?thesis using 1 fin [of 2] small_len [OF 1] c
      by (simp add: decode_payload_len_def len7_def Let_def)
  next
    case mid
    then obtain c where c: "length_bytes m n = c # be16 (of_nat n)" by (simp add: length_bytes_def Let_def)
    have d: "drop 2 b = be16 (of_nat n) @ s" by (simp add: b c)
    then have d4: "drop 4 b = s" using drop_drop [of 2 2 b] by simp
    have "\<not> length b < 4" by (simp add: b c)
    then show ?thesis using mid fin [of 4] length_readable(2) [OF len] c
      by (simp add: decode_payload_len_def len7_def Let_def d d4 ucast_of_nat_u16)
  next
    case big
    then obtain c where c: "length_bytes m n = c # be64 (of_nat n)" by (simp add: length_bytes_def Let_def)
    have d: "drop 2 b = be64 (of_nat n) @ s" by (simp add: b c)
    then have d10: "drop 10 b = s" using drop_drop [of 8 2 b] by simp
    have "\<not> length b < 10" by (simp add: b c)
    then show ?thesis using big fin [of 10] length_readable(1) [OF len] c
      by (simp add: decode_payload_len_def len7_def Let_def d d10)
  qed
qed

lemma payload_len_short:
  assumes b: "b = take j (b0 # length_bytes m n @ s)" "2 \<le> j" "j < 1 + length (length_bytes m n)" and n: "n < 2 ^ 63"
  shows "decode_payload_len (of_nat (len7 n)) b m = None"
proof -
  have "length b < 1 + length (length_bytes m n)" "length b = j" using b by simp_all
  then show ?thesis using b(2) length_readable [of b]
    by (auto simp: decode_payload_len_def len7_def length_length_bytes Let_def split: if_splits)
qed

lemma first_byte:
  assumes "opcode < 16" and "b = frame fin opcode key data @ t \<or> (\<exists>j \<ge> 2. b = take j (frame fin opcode key data))"
  shows "bit (b2w b 0) 7 = fin" "b2w b 0 AND 0x0f = opcode"
proof -
  have "b2w b 0 = (if fin then 0x80 else 0) OR opcode" using assms(2) by (auto simp: frame_def b2w_def take_Cons')
  then show "bit (b2w b 0) 7 = fin" "b2w b 0 AND 0x0f = opcode" using byte0 [OF assms(1), of fin] by simp_all
qed

lemma control_len:
  assumes "frame_ok opcode key data"
  shows "\<not> (8 \<le> opcode \<and> 125 < (of_nat (len7 (length data)) :: u64))"
proof
  assume a: "8 \<le> opcode \<and> 125 < (of_nat (len7 (length data)) :: u64)"
  then have "len7 (length data) \<le> 125" using assms by (simp add: frame_ok_def len7_def)
  then show False using a of_nat_less_u64 [of 125 "len7 (length data)"] by simp
qed

lemma decode_frame:
  assumes wf: "buffer_wf buf" and pk: "peek buf = frame fin opcode key data @ rest" and len: "length (peek buf) < 2 ^ 64"
    and ok: "frame_ok opcode key data" and chk: "check_fragmentation (rcvfragment cx) fin opcode"
  shows "\<exists>buf'. decode cx buf = (let (c, cx') = opcode_result opcode
      (cx\<lparr>decoded_buffer := (if rcvfragment cx then decoded_buffer cx else []) @ data, rcvfragment := \<not> fin\<rparr>) in Some (c, cx', buf')) \<and>
    buffer_wf buf' \<and> peek buf' = rest"
proof -
  let ?n = "length data" and ?m = "key \<noteq> None" and ?md = "masked_data key data"
  let ?k = "if ?m then 4 else 0 :: nat" and ?i = "1 + length (length_bytes (key \<noteq> None) (length data))"
  let ?b0 = "chr8 ((if fin then 0x80 else 0) OR opcode)"
  have b: "peek buf = ?b0 # length_bytes ?m ?n @ (?md @ rest)" using pk by (simp add: frame_def)
  have md: "length ?md = ?k + ?n" "take ?k ?md = (case key of None \<Rightarrow> [] | Some k \<Rightarrow> k)"
      "drop ?k ?md = (case key of None \<Rightarrow> data | Some k \<Rightarrow> unmask k data)"
    using ok by (auto simp: masked_data_def frame_ok_def mask_octets_unmask split: option.splits)
  have n: "?n < 2 ^ 63" using ok by (simp add: frame_ok_def)
  have lenb: "length (peek buf) = ?i + ?k + ?n + length rest" using md(1) by (simp add: b)
  have r2: "\<not> readable buf < 2" using length_peek [OF wf] lenb length_length_bytes [of ?m ?n] by (simp split: if_splits)
  have k: "take ?k (?md @ rest) = (case key of None \<Rightarrow> [] | Some k \<Rightarrow> k)" using md(1,2) by simp
  have p: "decode_payload_len (of_nat (len7 ?n)) (peek buf) ?m = Some (of_nat ?n, case key of None \<Rightarrow> [] | Some k \<Rightarrow> k, ?i + ?k)"
    using payload_len_eq [OF b len n] lenb k by (simp add: Let_def)
  have u: "unat (of_nat ?n :: u64) = ?n" using n by (simp add: unsigned_of_nat take_bit_nat_eq_self)
  have "drop ?i (peek buf) = ?md @ rest" by (simp add: b)
  then have off: "drop (?i + ?k) (peek buf) = (case key of None \<Rightarrow> data | Some k \<Rightarrow> unmask k data) @ rest"
    using md drop_drop [of ?k ?i "peek buf"] by (simp add: add.commute)
  have dat: "(if ?m then unmask (case key of None \<Rightarrow> [] | Some k \<Rightarrow> k) (take ?n (drop (?i + ?k) (peek buf))) else take ?n (drop (?i + ?k) (peek buf))) = data"
    unfolding off by (cases key) simp_all
  have rest: "peek (retrieve buf (?i + ?k + ?n)) = rest"
    unfolding retrieve_peek using off drop_drop [of ?n "?i + ?k" "peek buf"] by (cases key) (simp_all add: add.commute)
  have op: "opcode < 16" using ok by (simp add: frame_ok_def)
  note fb = first_byte [OF op disjI1 [OF pk]] and sb = second_byte [OF disjI1 [OF b]]
  have "decode cx buf = (let (c, cx') = opcode_result opcode
      (cx\<lparr>decoded_buffer := (if rcvfragment cx then decoded_buffer cx else []) @ data, rcvfragment := \<not> fin\<rparr>)
      in Some (c, cx', retrieve buf (?i + ?k + ?n)))"
    using r2 chk control_len [OF ok] lenb dat
    by (simp only: decode_def Let_def fb sb p u option.case prod.case if_False if_True simp_thms) simp
  then show ?thesis using rest retrieve_wf [OF wf] by blast
qed

lemma decode_partial:
  assumes wf: "buffer_wf buf" and pk: "peek buf = take j (frame fin opcode key data)" and j: "j < length (frame fin opcode key data)"
    and ok: "frame_ok opcode key data" and chk: "check_fragmentation (rcvfragment cx) fin opcode"
  shows "decode cx buf = Some (NotEnough, cx, buf)"
proof (cases "j < 2")
  case True
  then show ?thesis using length_peek [OF wf] pk j by (simp add: decode_def)
next
  case False
  let ?n = "length data" and ?m = "key \<noteq> None" and ?md = "masked_data key data" and ?b0 = "chr8 ((if fin then 0x80 else 0) OR opcode)"
  let ?i = "1 + length (length_bytes (key \<noteq> None) (length data))"
  have b: "peek buf = take j (?b0 # length_bytes ?m ?n @ ?md)" using pk by (simp add: frame_def)
  have n: "?n < 2 ^ 63" and op: "opcode < 16" using ok by (simp_all add: frame_ok_def)
  have md: "length ?md = (if ?m then 4 else 0) + ?n"
    using ok by (auto simp: masked_data_def frame_ok_def mask_octets_unmask split: option.splits)
  have "decode_payload_len (of_nat (len7 ?n)) (peek buf) ?m = None"
  proof (cases "j < ?i")
    case True
    then show ?thesis using payload_len_short [OF b _ _ n] False by simp
  next
    case False
    then have b': "peek buf = ?b0 # length_bytes ?m ?n @ take (j - ?i) ?md" by (simp add: b take_Cons')
    have l: "length (peek buf) = j" "j < ?i + (if ?m then 4 else 0) + ?n" using j md pk by (simp_all add: frame_def)
    then have "length (peek buf) < 2 ^ 64" using n length_length_bytes [of ?m ?n] by (auto split: if_splits)
    from payload_len_eq [OF b' this n] l show ?thesis by (simp add: Let_def)
  qed
  moreover have "\<not> readable buf < 2" using length_peek [OF wf] pk j False by simp
  moreover have j2: "\<exists>j \<ge> 2. peek buf = take j (frame fin opcode key data)" using pk False by (auto intro: exI [of _ j])
  note fb = first_byte [OF op disjI2 [OF j2]]
  have "\<exists>j \<ge> 2. peek buf = take j (?b0 # length_bytes ?m ?n @ ?md)" using b False by (auto intro: exI [of _ j])
  note sb = second_byte [OF disjI2 [OF this]]
  ultimately show ?thesis
    using chk control_len [OF ok]
    by (simp only: decode_def Let_def fb sb option.case if_False if_True simp_thms)
qed

section \<open>Messages in fragments\<close>

fun frames :: "u8 \<Rightarrow> (string option \<times> string) list \<Rightarrow> string" where
  "frames opcode [] = []"
| "frames opcode [(k, d)] = frame True opcode k d"
| "frames opcode ((k, d) # kd # kds) = frame False opcode k d @ frames 0 (kd # kds)"

definition msg_opcode :: "bool \<Rightarrow> u8" where
  "msg_opcode bin = (if bin then 2 else 1)"

definition log_message :: "ws_context \<Rightarrow> ws_context" where
  "log_message cx = emit [OnMessage (decoded_buffer cx) (is_binary_type cx)] cx"

lemma handler_ok:
  assumes "buffer_wf buf" "peek buf \<noteq> []" "ws_st cx = Establish" "decode cx buf = Some (WsOk, cx1, b1)"
  shows "ws_message_handler h ws cx buf = ws_message_handler h ws (if rcvfragment cx1 then cx1 else call (onmessage ws) cx1) b1"
proof -
  have "readable buf \<noteq> 0" using length_peek [OF assms(1)] assms(2) by (metis length_0_conv)
  then show ?thesis using assms(3,4) by (simp add: ws_message_handler.simps [of h ws cx buf] ws_handle_def)
qed

definition opcode_type :: "u8 \<Rightarrow> ws_context \<Rightarrow> bool" where
  "opcode_type opcode cx = (if opcode = 0 then is_binary_type cx else opcode = 2)"

lemma decode_data_frame:
  assumes "buffer_wf buf" and "peek buf = frame fin opcode key data @ rest" and "length (peek buf) < 2 ^ 64"
    and "frame_ok opcode key data" and "opcode = 0 \<and> rcvfragment cx \<or> (opcode = 1 \<or> opcode = 2) \<and> \<not> rcvfragment cx"
  shows "\<exists>buf'. decode cx buf = Some (WsOk, cx\<lparr>decoded_buffer := (if rcvfragment cx then decoded_buffer cx else []) @ data,
      rcvfragment := \<not> fin, is_binary_type := opcode_type opcode cx\<rparr>, buf') \<and> buffer_wf buf' \<and> peek buf' = rest"
proof -
  have "check_fragmentation (rcvfragment cx) fin opcode" using assms(5) by (auto simp: check_fragmentation_def)
  from decode_frame [OF assms(1-4) this] assms(5) show ?thesis
    by (auto simp: opcode_result_def opcode_type_def)
qed

lemma frame_ok_data: "frame_ok 0 k d \<Longrightarrow> opcode = 0 \<or> opcode = 1 \<or> opcode = 2 \<Longrightarrow> frame_ok opcode k d"
  by (auto simp: frame_ok_def word_le_nat_alt)

lemma handler_frames:
  assumes "kds \<noteq> []" and "buffer_wf buf" and "peek buf = frames opcode kds @ rest" and "length (peek buf) < 2 ^ 64"
    and "ws_st cx = Establish" and "\<forall>(k, d) \<in> set kds. frame_ok 0 k d"
    and "opcode = 0 \<and> rcvfragment cx \<or> (opcode = 1 \<or> opcode = 2) \<and> \<not> rcvfragment cx"
  shows "\<exists>buf'. ws_message_handler h ws cx buf = ws_message_handler h ws (call (onmessage ws)
      (cx\<lparr>decoded_buffer := (if rcvfragment cx then decoded_buffer cx else []) @ concat (map snd kds), rcvfragment := False,
          is_binary_type := opcode_type opcode cx\<rparr>)) buf' \<and> buffer_wf buf' \<and> peek buf' = rest"
  using assms
proof (induction opcode kds arbitrary: cx buf rule: frames.induct)
  case (2 opcode k d)
  have ok: "frame_ok opcode k d" using 2(6,7) frame_ok_data [of k d opcode] by auto
  from decode_data_frame [OF 2(2) _ 2(4) ok 2(7), of True rest] 2(3) obtain b1 where
    b1: "decode cx buf = Some (WsOk, cx\<lparr>decoded_buffer := (if rcvfragment cx then decoded_buffer cx else []) @ d,
      rcvfragment := False, is_binary_type := opcode_type opcode cx\<rparr>, b1)" "buffer_wf b1" "peek b1 = rest" by auto
  have "peek buf \<noteq> []" using 2(3) by (simp add: frame_def)
  from handler_ok [OF 2(2) this 2(5) b1(1)] b1(2,3) show ?case by auto
next
  case (3 opcode k d kd kds)
  let ?cx = "cx\<lparr>decoded_buffer := (if rcvfragment cx then decoded_buffer cx else []) @ d, rcvfragment := True, is_binary_type := opcode_type opcode cx\<rparr>"
  have ok: "frame_ok opcode k d" using 3(7,8) frame_ok_data [of k d opcode] by auto
  from decode_data_frame [OF 3(3) _ 3(5) ok 3(8), of False "frames 0 (kd # kds) @ rest"] 3(4) obtain b1 where
    b1: "decode cx buf = Some (WsOk, ?cx, b1)" "buffer_wf b1" "peek b1 = frames 0 (kd # kds) @ rest" by auto
  have ne: "peek buf \<noteq> []" using 3(4) by (simp add: frame_def)
  have len: "length (peek b1) < 2 ^ 64" using 3(4,5) b1(3) by simp
  have "ws_message_handler h ws cx buf = ws_message_handler h ws ?cx b1" using handler_ok [OF 3(3) ne 3(6) b1(1)] by simp
  moreover have "\<forall>(k, d) \<in> set (kd # kds). frame_ok 0 k d" using 3(7) by simp
  ultimately show ?case using 3(1) [OF _ b1(2,3) len, of ?cx] 3(6) by (simp add: opcode_type_def)
qed simp

lemma handler_messages:
  assumes "\<forall>(bin, kds) \<in> set ms. kds \<noteq> [] \<and> (\<forall>(k, d) \<in> set kds. frame_ok 0 k d)"
    and "buffer_wf buf" and "peek buf = concat (map (\<lambda>(bin, kds). frames (msg_opcode bin) kds) ms)" and "length (peek buf) < 2 ^ 64"
    and "ws_st cx = Establish" and "\<not> rcvfragment cx" and "onmessage ws = Some log_message"
  shows "\<exists>cx' buf'. ws_message_handler h ws cx buf = Inr (cx', buf') \<and>
    ws_log cx' = ws_log cx @ map (\<lambda>(bin, kds). OnMessage (concat (map snd kds)) bin) ms \<and> peek buf' = []"
  using assms
proof (induction ms arbitrary: cx buf)
  case Nil
  then show ?case using length_peek [of buf] by (simp add: ws_message_handler.simps)
next
  case (Cons m ms)
  obtain bin kds where m: "m = (bin, kds)" by (cases m)
  let ?cx = "cx\<lparr>decoded_buffer := concat (map snd kds), rcvfragment := False, is_binary_type := bin\<rparr>"
  let ?rest = "concat (map (\<lambda>(bin, kds). frames (msg_opcode bin) kds) ms)"
  have ps: "kds \<noteq> []" "\<forall>(k, d) \<in> set kds. frame_ok 0 k d" and pk: "peek buf = frames (msg_opcode bin) kds @ ?rest"
    using Cons(2,4) by (simp_all add: m)
  have op: "msg_opcode bin = 0 \<and> rcvfragment cx \<or> (msg_opcode bin = 1 \<or> msg_opcode bin = 2) \<and> \<not> rcvfragment cx" and
    ty: "opcode_type (msg_opcode bin) cx = bin"
    using Cons(7) by (simp_all add: msg_opcode_def opcode_type_def)
  from handler_frames [OF ps(1) Cons(3) pk Cons(5,6) ps(2) op, of h ws] obtain b1 where
    b1: "ws_message_handler h ws cx buf = ws_message_handler h ws (log_message ?cx) b1" "buffer_wf b1" "peek b1 = ?rest"
    using Cons(7,8) ty by (auto simp: call_def)
  have "length (peek b1) < 2 ^ 64" using Cons(5) pk b1(3) by simp
  from Cons(1) [OF _ b1(2,3) this, of "log_message ?cx"] Cons(2,6,8) b1(1) show ?case
    by (simp add: log_message_def emit_def m)
qed

section \<open>Sending\<close>

definition ws_bytes :: "ws_context \<Rightarrow> string" where
  "ws_bytes cx = concat (map (\<lambda>e. case e of WsSend s \<Rightarrow> s | _ \<Rightarrow> []) (ws_log cx)) @ encoded_buffer cx"

lemma ws_bytes_emit: "ws_bytes ((emit [WsSend (encoded_buffer cx)] cx)\<lparr>encoded_buffer := []\<rparr>) = ws_bytes cx"
  by (simp add: ws_bytes_def emit_def)

lemma send_fragment_bytes:
  "ws_bytes (send_fragment f fin cx) = ws_bytes cx @
     frame False (fst (fragment_byte (if fin then FinalFragment else sndfragment cx) cx)) None f"
  "sndfragment (send_fragment f fin cx) = snd (fragment_byte (if fin then FinalFragment else sndfragment cx) cx)"
  "is_binary_type (send_fragment f fin cx) = is_binary_type cx"
  by (simp_all add: send_fragment_def Let_def frame_def masked_data_def encode_def length_bytes_def ws_bytes_def emit_def
      ws_BufferedSize_def split: prod.splits)

lemma frame_final: "frame False 0x80 k d = frame True 0 k d"
  by (simp add: frame_def)

lemma middle_fragments:
  assumes "sndfragment cx = MiddleFragment"
  shows "ws_bytes (send_fragment l True (fold (\<lambda>f. send_fragment f False) fs cx)) = ws_bytes cx @ frames 0 (map (\<lambda>f. (None, f)) (fs @ [l]))"
  using assms
proof (induction fs arbitrary: cx)
  case Nil
  then show ?case by (simp add: send_fragment_bytes fragment_byte_def frame_final)
next
  case (Cons f fs)
  have "sndfragment (send_fragment f False cx) = MiddleFragment" using Cons(2) by (simp add: send_fragment_bytes fragment_byte_def)
  from Cons(1) [OF this] Cons(2) show ?case
    by (cases fs) (simp_all add: send_fragment_bytes fragment_byte_def)
qed

lemma send_fragments_bytes:
  assumes "sndfragment cx = FirstFragment"
  shows "ws_bytes (send_fragment l True (fold (\<lambda>f. send_fragment f False) (f # fs) cx)) =
    ws_bytes cx @ frames (msg_opcode (is_binary_type cx)) (map (\<lambda>f. (None, f)) (f # fs @ [l]))"
proof -
  have "sndfragment (send_fragment f False cx) = MiddleFragment" using assms by (simp add: send_fragment_bytes fragment_byte_def)
  from middle_fragments [OF this, of l fs] assms show ?thesis
    by (cases fs) (simp_all add: send_fragment_bytes fragment_byte_def data_opcode_def msg_opcode_def)
qed

lemma frame_send: "frame False (0x80 OR data_opcode cx) k d = frame True (data_opcode cx) k d"
  by (simp add: frame_def or.assoc)

lemma ws_send_bytes: "ws_bytes (ws_send m cx) = ws_bytes cx @ frame True (msg_opcode (is_binary_type cx)) None m"
  by (simp add: ws_send_def Let_def frame_def masked_data_def encode_def length_bytes_def ws_bytes_def emit_def ws_BufferedSize_def
      data_opcode_def msg_opcode_def)

section \<open>Properties\<close>

text \<open>
  C17: messages from a client. A stream of messages, each in any number of fragments and each fragment with or without
  masking, is delivered to \<^verbatim>\<open>onmessage\<close> as these messages, in order, with their types, and nothing is left in the buffer.
\<close>

theorem messages_delivered:
  assumes "\<forall>(bin, kds) \<in> set ms. kds \<noteq> [] \<and> (\<forall>(k, d) \<in> set kds. frame_ok 0 k d)"
    and "buffer_wf buf" and "peek buf = concat (map (\<lambda>(bin, kds). frames (msg_opcode bin) kds) ms)" and "length (peek buf) < 2 ^ 64"
    and "ws_st cx = Establish" and "\<not> rcvfragment cx" and "onmessage ws = Some log_message"
  shows "\<exists>cx' buf'. ws_message_handler host16 ws cx buf = Inr (cx', buf') \<and>
    ws_log cx' = ws_log cx @ map (\<lambda>(bin, kds). OnMessage (concat (map snd kds)) bin) ms \<and> peek buf' = []"
  using assms by (rule handler_messages)

theorem messages_delivered_witness:
  "\<exists>cx' buf'. ws_message_handler be16 \<lparr>onopen = None, onmessage = Some log_message, onclose = None, onerror = None\<rparr> (ws_new\<lparr>ws_st := Establish\<rparr>)
      (append_buf (buffer_new 0) (frames 1 [(Some ''wxyz'', ''ab''), (None, ''c'')] @ frames 2 [(Some ''abcd'', ''hello'')])) = Inr (cx', buf') \<and>
    ws_log cx' = [OnMessage ''abc'' False, OnMessage ''hello'' True] \<and> peek buf' = []"
proof -
  let ?b = "append_buf (buffer_new 0) (frames 1 [(Some ''wxyz'', ''ab''), (None, ''c'')] @ frames 2 [(Some ''abcd'', ''hello'')])"
  have "length (peek ?b) < 2 ^ 64"
    by (simp add: wf_intros buffer_simps frame_def length_bytes_def masked_data_def Let_def)
  then show ?thesis
    using messages_delivered [of "[(False, [(Some ''wxyz'', ''ab''), (None, ''c'')]), (True, [(Some ''abcd'', ''hello'')])]" ?b
        "ws_new\<lparr>ws_st := Establish\<rparr>" "\<lparr>onopen = None, onmessage = Some log_message, onclose = None, onerror = None\<rparr>" be16]
    by (simp add: wf_intros buffer_simps frame_ok_def ws_new_def msg_opcode_def)
qed

text \<open>
  Frames may arrive in any portions. As long as a byte of a frame is missing, \<^verbatim>\<open>decode\<close> asks for more and changes
  nothing; when the rest is there, it decodes the frame and consumes exactly its bytes.
\<close>

theorem frame_in_portions:
  assumes "frame fin opcode key data = p @ q" and "q \<noteq> []" and "buffer_wf buf" and "peek buf = p"
    and "frame_ok opcode key data" and "check_fragmentation (rcvfragment cx) fin opcode"
    and "length (frame fin opcode key data @ rest) < 2 ^ 64"
  shows "decode cx buf = Some (NotEnough, cx, buf) \<and>
    (\<exists>c cx' buf'. decode cx (append_buf buf (q @ rest)) = Some (c, cx', buf') \<and> c \<noteq> NotEnough \<and> c \<noteq> WsError \<and>
       decoded_buffer cx' = (if rcvfragment cx then decoded_buffer cx else []) @ data \<and> peek buf' = rest)"
proof
  have "p = take (length p) (frame fin opcode key data)" "length p < length (frame fin opcode key data)" using assms(1,2) by simp_all
  then show "decode cx buf = Some (NotEnough, cx, buf)" using decode_partial [OF assms(3) _ _ assms(5,6)] assms(4) by metis
  have "peek (append_buf buf (q @ rest)) = frame fin opcode key data @ rest"
    using assms(1,3,4) by (simp add: append_buf_peek)
  from decode_frame [OF append_buf_wf [OF assms(3)] this _ assms(5,6)] this assms(7)
  show "\<exists>c cx' buf'. decode cx (append_buf buf (q @ rest)) = Some (c, cx', buf') \<and> c \<noteq> NotEnough \<and> c \<noteq> WsError \<and>
       decoded_buffer cx' = (if rcvfragment cx then decoded_buffer cx else []) @ data \<and> peek buf' = rest"
    by (auto simp: opcode_result_def Let_def split: if_splits)
qed

theorem frame_in_portions_witness:
  "decode ws_new (append_buf (buffer_new 0) (take 4 (frame True 1 (Some ''abcd'') ''xyz'')))
      = Some (NotEnough, ws_new, append_buf (buffer_new 0) (take 4 (frame True 1 (Some ''abcd'') ''xyz''))) \<and>
   (\<exists>c cx' buf'. decode ws_new (append_buf (append_buf (buffer_new 0) (take 4 (frame True 1 (Some ''abcd'') ''xyz'')))
        (drop 4 (frame True 1 (Some ''abcd'') ''xyz'') @ ''r'')) = Some (c, cx', buf') \<and> c \<noteq> NotEnough \<and> c \<noteq> WsError \<and>
      decoded_buffer cx' = (if rcvfragment ws_new then decoded_buffer ws_new else []) @ ''xyz'' \<and> peek buf' = ''r'')"
  by (rule frame_in_portions [where fin = True and opcode = 1 and key = "Some ''abcd''"])
     (simp_all add: frame_def length_bytes_def masked_data_def unmask_def wf_intros buffer_simps frame_ok_def check_fragmentation_def ws_new_def word_le_nat_alt)

text \<open>
  What \<^verbatim>\<open>send\<close> and \<^verbatim>\<open>send_fragment\<close> pass to the connection, however it is buffered: a message sent at once is one
  final frame, and a message sent as two or more fragments is a sequence of frames that a receiver with this
  decoder delivers as one message with the type and the concatenated text.
\<close>

theorem fragments_are_one_message:
  assumes "sndfragment cx = FirstFragment" and "\<forall>d \<in> set (f # fs @ [l]). length d < 2 ^ 63"
    and "ws_st rc = Establish" and "\<not> rcvfragment rc" and "onmessage ws = Some log_message"
  shows "\<exists>bytes. ws_bytes (send_fragment l True (fold (\<lambda>f. send_fragment f False) (f # fs) cx)) = ws_bytes cx @ bytes \<and>
    (\<forall>buf. buffer_wf buf \<and> peek buf = bytes \<and> length bytes < 2 ^ 64 \<longrightarrow>
       (\<exists>rc' buf'. ws_message_handler host16 ws rc buf = Inr (rc', buf') \<and>
          ws_log rc' = ws_log rc @ [OnMessage (concat (f # fs @ [l])) (is_binary_type cx)] \<and> peek buf' = []))"
proof -
  let ?kds = "map (\<lambda>f. (None, f)) (f # fs @ [l])"
  have "\<exists>rc' buf'. ws_message_handler host16 ws rc buf = Inr (rc', buf') \<and>
      ws_log rc' = ws_log rc @ [OnMessage (concat (f # fs @ [l])) (is_binary_type cx)] \<and> peek buf' = []"
    if "buffer_wf buf" "peek buf = frames (msg_opcode (is_binary_type cx)) ?kds" "length (peek buf) < 2 ^ 64" for buf
    using handler_messages [of "[(is_binary_type cx, ?kds)]" buf rc ws host16] assms(2-5) that
    by (auto simp: frame_ok_def comp_def)
  then show ?thesis using send_fragments_bytes [OF assms(1), of l f fs] by metis
qed

theorem fragments_are_one_message_witness:
  "\<exists>bytes. ws_bytes (send_fragment ''c'' True (fold (\<lambda>f. send_fragment f False) [''a'', ''b''] ws_new)) = ws_bytes ws_new @ bytes \<and>
    (\<forall>buf. buffer_wf buf \<and> peek buf = bytes \<and> length bytes < 2 ^ 64 \<longrightarrow>
       (\<exists>rc' buf'. ws_message_handler be16 \<lparr>onopen = None, onmessage = Some log_message, onclose = None, onerror = None\<rparr> (ws_new\<lparr>ws_st := Establish\<rparr>) buf
            = Inr (rc', buf') \<and> ws_log rc' = [OnMessage ''abc'' False] \<and> peek buf' = []))"
  using fragments_are_one_message [of ws_new "''a''" "[''b'']" "''c''" "ws_new\<lparr>ws_st := Establish\<rparr>"
      "\<lparr>onopen = None, onmessage = Some log_message, onclose = None, onerror = None\<rparr>" be16]
  by (simp add: ws_new_def)

text \<open>
  The answer to the opening handshake is the base64 text of the SHA-1 hash (as specified) of the key and the
  fixed identifier, for keys whose length does not hit the failure of the hash.
\<close>

theorem accept_key:
  assumes "length (key @ guid) mod 64 \<noteq> 63"
  shows "sec_websocket_accept key cx = Some (cx\<lparr>SecWebSocketAccept := base64_encode Standard (sha1_spec (key @ guid))\<rparr>)"
proof -
  have "sha1_rel (update (key @ guid) sha1_new) (key @ guid)" using update_aligned [OF sha1_rel_new, of "key @ guid"] by simp
  from digest_spec [OF this assms] show ?thesis by (simp add: sec_websocket_accept_def)
qed

theorem accept_key_witness:
  "length (''dGhlIHNhbXBsZSBub25jZQ=='' @ guid) mod 64 \<noteq> 63 \<and>
   sec_websocket_accept ''dGhlIHNhbXBsZSBub25jZQ=='' ws_new
     = Some (ws_new\<lparr>SecWebSocketAccept := base64_encode Standard (sha1_spec (''dGhlIHNhbXBsZSBub25jZQ=='' @ guid))\<rparr>)"
  using accept_key [of "''dGhlIHNhbXBsZSBub25jZQ==''" ws_new] by (simp add: guid_def)

section \<open>Deviations\<close>

text \<open>
  The check of the length wraps: an unmasked frame that announces \<open>2 ^ 64 - 10\<close> bytes or more passes it, and the attempt
  to reserve that much throws.
\<close>

theorem frame_length_wraps:
  assumes "buffer_wf buf" and "peek buf = [chr8 0x82, chr8 127] @ be64 (of_nat (2 ^ 64 - 10)) @ s" and "length s < 100" and "\<not> rcvfragment cx"
  shows "decode cx buf = None"
proof -
  let ?b = "[chr8 0x82, chr8 127] @ be64 (of_nat (2 ^ 64 - 10)) @ s"
  have l: "length ?b = 10 + length s" by simp
  have z: "(18446744073709551616 :: u64) = 0" by code_simp
  have p: "decode_payload_len 127 ?b False = Some (of_nat (2 ^ 64 - 10), [], 10)"
    using length_readable(1) [of ?b] l assms(3) by (simp add: decode_payload_len_def Let_def z)
  have "unat (of_nat (2 ^ 64 - 10) :: u64) = 2 ^ 64 - 10" by (simp add: unsigned_of_nat take_bit_nat_eq_self)
  then have "length ?b < 10 + unat (of_nat (2 ^ 64 - 10) :: u64)" using l assms(3) by simp
  moreover have "b2w ?b 0 = 0x82" "b2w ?b 1 = 127" by (simp_all add: b2w_def)
  moreover have "bit (0x82 :: u8) 7" "(0x82 :: u8) AND 0x0f = 2" "\<not> bit (127 :: u8) 7" "(ucast ((127 :: u8) AND 0x7f) :: u64) = 127" "\<not> (8 :: u8) \<le> 2"
    by code_simp+
  moreover have "readable buf \<ge> 2" using length_peek [OF assms(1)] assms(2) by simp
  ultimately show ?thesis using assms(4) p
    unfolding decode_def Let_def assms(2) check_fragmentation_def by (simp only: if_False if_True option.case prod.case simp_thms not_less if_cancel) simp
qed

text \<open>A control frame between the fragments of a message, which the protocol allows, is an error.\<close>

theorem ping_between_fragments: "rcvfragment cx \<Longrightarrow> opcode \<noteq> 0 \<Longrightarrow> \<not> check_fragmentation (rcvfragment cx) fin opcode"
  by (simp add: check_fragmentation_def)

text \<open>A message of a single fragment has the opcode of a continuation.\<close>

theorem single_fragment_continuation:
  "ws_bytes (send_fragment f True cx) = ws_bytes cx @ frame True 0 None f"
  by (simp add: send_fragment_bytes fragment_byte_def frame_final)

text \<open>The handshake counts header lines, not distinct fields: six lines of one field are accepted, without any key.\<close>

theorem handshake_six_origins:
  "case handshake ws_new (append_buf (buffer_new 0) (''GET / HTTP/1.1'' @ CRLF @ concat (replicate 6 (''Origin: x'' @ CRLF)) @ CRLF)) of
     Some (s, cx, b) \<Rightarrow> s = HandshakeOK \<and> SecWebSocketAccept cx = [] | None \<Rightarrow> False"
  by code_simp

end
