(* ===== verification/Dns.thy ===== *)
theory Dns
  imports Buffer "HOL-Library.Multiset"
begin

unbundle bit_operations_syntax

text \<open>
  The DNS resolver, \<^verbatim>\<open>src/dns/resolver.cc\<close>, \<^verbatim>\<open>src/dns/cache.h\<close> and \<^verbatim>\<open>include/angel/backoff.h\<close>: domain
  names with compression, queries, resource records and responses, retransmission, and the cache of addresses.

  A pointer into the received message is an offset, the message a byte string. \<^verbatim>\<open>parse_dns_name\<close> follows compression
  pointers by recursion and has no limit on their number: the model takes fuel, \<open>Diverges\<close> is the recursion that does not
  end, and \<open>fuel_enough\<close> shows that the length of the message is enough fuel. A failed \<^verbatim>\<open>Assert\<close> and undefined behaviour are \<open>Undefined\<close>.
\<close>

section \<open>Domain names\<close>

definition max_label_size :: nat where
  "max_label_size = 63"

definition max_name_size :: nat where
  "max_name_size = 255"

definition max_udp_size :: nat where
  "max_udp_size = 512"

definition drop_root :: "string \<Rightarrow> string" where
  "drop_root name = (if last name = CHR ''.'' then butlast name else name)"

definition dns_labels :: "string list \<Rightarrow> string" where
  "dns_labels labels = concat (map (\<lambda>l. chr8 (of_nat (length l)) # l) labels)"

text \<open>\<^verbatim>\<open>to_dns_name\<close>; \<^verbatim>\<open>back()\<close> of an empty view is undefined, result \<open>None\<close>.\<close>

definition to_dns_name :: "string \<Rightarrow> string option" where
  "to_dns_name name0 =
     (if name0 = [] then None
      else
        let name = drop_root name0; labels = split name CHR ''.''; res = dns_labels labels @ [NUL]
        in if name = [] then Some []
           else if list_ex (\<lambda>l. length l = 0 \<or> length l > max_label_size) labels then Some []
           else if length res > max_name_size then Some [] else Some res)"

definition to_arpa_name :: "string \<Rightarrow> string" where
  "to_arpa_name name =
     (let r = split name CHR ''.''
      in if length r \<noteq> 4 then [] else r ! 3 @ ''.'' @ r ! 2 @ ''.'' @ r ! 1 @ ''.'' @ r ! 0 @ ''.in-addr.arpa'')"

datatype label_run = LabelsEnd string nat | LabelsBad | LabelsJump string nat nat | LabelsAssert

function parse_labels :: "string \<Rightarrow> nat \<Rightarrow> string \<Rightarrow> label_run" where
  "parse_labels b cur res =
     (if cur < length b then
        if u8 (b ! cur) AND 0xc0 = 0xc0 then
          if cur + 2 > length b then LabelsBad
          else
            let offset = unat (rd16 (drop cur b) AND 0x3fff)
            in if offset \<ge> length b then LabelsBad else LabelsJump res offset (cur + 2)
        else
          let count = unat (u8 (b ! cur))
          in if count = 0 then if res \<noteq> [] \<and> last res = CHR ''.'' then LabelsEnd res (cur + 1) else LabelsAssert
             else if cur + 1 + count \<ge> length b then LabelsBad
             else parse_labels b (cur + 1 + count) (res @ take count (drop (cur + 1) b) @ ''.'')
      else LabelsBad)"
  by pat_completeness auto
termination
  by (relation "measure (\<lambda>(b, cur, res). length b - cur)") auto

declare parse_labels.simps [simp del]

text \<open>
  \<open>Name s cur\<close>: the returned string, empty for an error, and the position of the caller. An error behind a pointer gives the
  empty string, which is appended to the labels in front of it.
\<close>

datatype dns_name = Name string nat | Undefined | Diverges

fun parse_dns_name :: "nat \<Rightarrow> string \<Rightarrow> nat \<Rightarrow> dns_name" where
  "parse_dns_name 0 b cur = Diverges"
| "parse_dns_name (Suc fuel) b cur =
     (case parse_labels b cur [] of
        LabelsEnd res cur' \<Rightarrow> Name res cur'
      | LabelsBad \<Rightarrow> Name [] cur
      | LabelsAssert \<Rightarrow> Undefined
      | LabelsJump res offset cur' \<Rightarrow>
          (case parse_dns_name fuel b offset of Name s p \<Rightarrow> Name (res @ s) cur' | r \<Rightarrow> r))"

definition name_fuel :: "string \<Rightarrow> nat" where
  "name_fuel b = length b + 2"

section \<open>Queries\<close>

text \<open>\<^verbatim>\<open>multiplier\<close> is a \<^verbatim>\<open>double\<close>; the resolver passes the integer 2.\<close>

record backoff =
  interval :: int
  multiplier :: int
  max_retries :: int

definition next_back_off :: "backoff \<Rightarrow> int \<times> backoff" where
  "next_back_off bo =
     (if max_retries bo = 0 then (0, bo)
      else (interval bo, bo\<lparr>interval := interval bo * multiplier bo, max_retries := max_retries bo - 1\<rparr>))"

record query_context =
  qc_id :: u16
  qc_name :: string
  q_name :: string
  q_type :: u16
  q_class :: u16
  qc_buf :: string
  qc_timer :: nat
  qc_backoff :: backoff

text \<open>\<^verbatim>\<open>pack\<close>; \<open>None\<close> when the \<^verbatim>\<open>Assert\<close> fails.\<close>

definition pack :: "query_context \<Rightarrow> query_context option" where
  "pack qc =
     (let buf = be16 (qc_id qc) @ be16 0x0100 @ be16 1 @ be16 0 @ be16 0 @ be16 0 @ q_name qc @ be16 (q_type qc) @ be16 (q_class qc)
      in if length buf \<le> max_udp_size then Some (qc\<lparr>qc_buf := buf\<rparr>) else None)"

abbreviation TYPE_A :: u16 where "TYPE_A \<equiv> 1"
abbreviation TYPE_NS :: u16 where "TYPE_NS \<equiv> 2"
abbreviation TYPE_CNAME :: u16 where "TYPE_CNAME \<equiv> 5"
abbreviation TYPE_SOA :: u16 where "TYPE_SOA \<equiv> 6"
abbreviation TYPE_PTR :: u16 where "TYPE_PTR \<equiv> 12"
abbreviation TYPE_MX :: u16 where "TYPE_MX \<equiv> 15"
abbreviation TYPE_TXT :: u16 where "TYPE_TXT \<equiv> 16"

definition get_type_str :: "u16 \<Rightarrow> string option" where
  "get_type_str t =
     (if t = TYPE_A then Some ''A'' else if t = TYPE_NS then Some ''NS'' else if t = TYPE_MX then Some ''MX''
      else if t = TYPE_SOA then Some ''SOA'' else if t = TYPE_PTR then Some ''PTR'' else if t = TYPE_TXT then Some ''TXT''
      else if t = TYPE_CNAME then Some ''CNAME'' else None)"

text \<open>\<^verbatim>\<open>query\<close>: the new context, \<open>Inr None\<close> for an invalid argument, \<open>Inl ()\<close> for the undefined \<^verbatim>\<open>back()\<close>.\<close>

definition query :: "string \<Rightarrow> u16 \<Rightarrow> u16 \<Rightarrow> unit + query_context option" where
  "query name type cls =
     (if get_type_str type = None \<or> name = [] then Inr None
      else
        let target = (if type = TYPE_PTR then to_arpa_name name else name)
        in case to_dns_name target of
             None \<Rightarrow> Inl ()
           | Some qn \<Rightarrow>
               if qn = [] then Inr None
               else Inr (Some \<lparr>qc_id = 0, qc_name = target, q_name = qn, q_type = type, q_class = cls, qc_buf = [],
                 qc_timer = 0, qc_backoff = \<lparr>interval = 1000, multiplier = 2, max_retries = 4\<rparr>\<rparr>))"

section \<open>Resource records\<close>

record rr_base =
  rr_name :: string
  rr_type :: u16
  rr_class :: u16
  rr_ttl :: u32
  rr_len :: nat

datatype rdata = A string | NS string | CNAME string | SOA string string u32 u32 u32 u32 u32 | PTR string | MX u16 string
  | TXT string | Err

type_synonym rr = "rr_base \<times> rdata"

text \<open>A parser gives the value and the new position, a rejection, or a fault.\<close>

datatype 'a parse = Parsed 'a nat | Reject | Fault dns_name

definition name_at :: "string \<Rightarrow> nat \<Rightarrow> string parse" where
  "name_at b p =
     (case parse_dns_name (name_fuel b) b p of Name s p' \<Rightarrow> if s = [] then Reject else Parsed s p' | r \<Rightarrow> Fault r)"

definition parse_rr_base :: "string \<Rightarrow> nat \<Rightarrow> rr_base parse" where
  "parse_rr_base b p0 =
     (case name_at b p0 of
        Reject \<Rightarrow> Reject
      | Fault r \<Rightarrow> Fault r
      | Parsed nm p \<Rightarrow>
          if last nm \<noteq> CHR ''.'' then Fault Undefined
          else if p + 10 \<ge> length b then Reject
          else
            let r = \<lparr>rr_name = butlast nm, rr_type = rd16 (drop p b), rr_class = rd16 (drop (p + 2) b),
                     rr_ttl = rd32 (drop (p + 4) b), rr_len = unat (rd16 (drop (p + 8) b))\<rparr>
            in if 0 < rr_len r \<and> p + 10 + rr_len r \<le> length b then Parsed r (p + 10) else Reject)"

definition ip_str :: "string \<Rightarrow> string" where
  "ip_str b = dec (code (b ! 0)) @ ''.'' @ dec (code (b ! 1)) @ ''.'' @ dec (code (b ! 2)) @ ''.'' @ dec (code (b ! 3))"

definition parse_a_rdata :: "rr_base \<Rightarrow> string \<Rightarrow> nat \<Rightarrow> rdata parse" where
  "parse_a_rdata r b p = (if rr_len r \<noteq> 4 then Reject else Parsed (A (ip_str (drop p b))) (p + 4))"

text \<open>The common part of the records that hold a name.\<close>

definition parse_name_rdata :: "(string \<Rightarrow> rdata) \<Rightarrow> string \<Rightarrow> nat \<Rightarrow> rdata parse" where
  "parse_name_rdata c b p =
     (case name_at b p of Reject \<Rightarrow> Reject | Fault r \<Rightarrow> Fault r | Parsed nm p' \<Rightarrow> Parsed (c nm) p')"

definition parse_cname_rdata :: "string \<Rightarrow> nat \<Rightarrow> rdata parse" where
  "parse_cname_rdata b p = parse_name_rdata CNAME b p"

definition parse_ns_rdata :: "string \<Rightarrow> nat \<Rightarrow> rdata parse" where
  "parse_ns_rdata b p = parse_name_rdata NS b p"

definition parse_ptr_rdata :: "string \<Rightarrow> nat \<Rightarrow> rdata parse" where
  "parse_ptr_rdata b p = parse_name_rdata PTR b p"

definition parse_mx_rdata :: "rr_base \<Rightarrow> string \<Rightarrow> nat \<Rightarrow> rdata parse" where
  "parse_mx_rdata r b p =
     (if rr_len r \<le> 2 then Reject else parse_name_rdata (MX (rd16 (drop p b))) b (p + 2))"

definition parse_soa_rdata :: "string \<Rightarrow> nat \<Rightarrow> rdata parse" where
  "parse_soa_rdata b p0 =
     (case name_at b p0 of
        Reject \<Rightarrow> Reject
      | Fault r \<Rightarrow> Fault r
      | Parsed mn p1 \<Rightarrow>
          (case name_at b p1 of
             Reject \<Rightarrow> Reject
           | Fault r \<Rightarrow> Fault r
           | Parsed rn p \<Rightarrow>
               if p + 20 > length b then Reject
               else Parsed (SOA mn rn (rd32 (drop p b)) (rd32 (drop (p + 4) b)) (rd32 (drop (p + 8) b))
                      (rd32 (drop (p + 12) b)) (rd32 (drop (p + 16) b))) (p + 20)))"

definition parse_txt_rdata :: "rr_base \<Rightarrow> string \<Rightarrow> nat \<Rightarrow> rdata parse" where
  "parse_txt_rdata r b p =
     (let len = code (b ! p)
      in if len + 1 \<noteq> rr_len r then Reject else Parsed (TXT (take len (drop (p + 1) b))) (p + 1 + len))"

text \<open>For a type outside the switch the variable \<^verbatim>\<open>record\<close> has no value, or the one of the record before.\<close>

definition parse_rdata :: "rr_base \<Rightarrow> string \<Rightarrow> nat \<Rightarrow> rdata parse" where
  "parse_rdata r b p =
     (if rr_type r = TYPE_A then parse_a_rdata r b p
      else if rr_type r = TYPE_MX then parse_mx_rdata r b p
      else if rr_type r = TYPE_NS then parse_ns_rdata b p
      else if rr_type r = TYPE_SOA then parse_soa_rdata b p
      else if rr_type r = TYPE_PTR then parse_ptr_rdata b p
      else if rr_type r = TYPE_TXT then parse_txt_rdata r b p
      else if rr_type r = TYPE_CNAME then parse_cname_rdata b p
      else Fault Undefined)"

fun parse_answer_rrs :: "nat \<Rightarrow> string \<Rightarrow> nat \<Rightarrow> rr list parse" where
  "parse_answer_rrs 0 b p = Parsed [] p"
| "parse_answer_rrs (Suc n) b p =
     (case parse_rr_base b p of
        Reject \<Rightarrow> Reject
      | Fault r \<Rightarrow> Fault r
      | Parsed r p1 \<Rightarrow>
          (case parse_rdata r b p1 of
             Reject \<Rightarrow> Reject
           | Fault f \<Rightarrow> Fault f
           | Parsed d p2 \<Rightarrow>
               (case parse_answer_rrs n b p2 of
                  Reject \<Rightarrow> Reject | Fault f \<Rightarrow> Fault f | Parsed rs p3 \<Rightarrow> Parsed ((r, d) # rs) p3)))"

section \<open>Responses\<close>

text \<open>
  The resolver: queries in flight by transaction id, and what it has done with the loop and the connection: armed timers
  (timer id, delay, transaction id), messages sent and promises fulfilled. The connection is taken to be established, for which \<^verbatim>\<open>send_query\<close> waits.
\<close>

type_synonym result = "rr list"

datatype resolver_event = Sent string | Answered u16 result

record resolver =
  query_map :: "u16 \<rightharpoonup> query_context"
  armed :: "(nat \<times> int \<times> u16) list"
  next_timer :: nat
  rs_log :: "resolver_event list"

definition resolver_new :: resolver where
  "resolver_new = \<lparr>query_map = Map.empty, armed = [], next_timer = 1, rs_log = []\<rparr>"

definition notify :: "query_context \<Rightarrow> result \<Rightarrow> resolver \<Rightarrow> resolver" where
  "notify qc res rs =
     rs\<lparr>armed := filter (\<lambda>t. fst t \<noteq> qc_timer qc) (armed rs), rs_log := rs_log rs @ [Answered (qc_id qc) res],
        query_map := (query_map rs)(qc_id qc := None)\<rparr>"

text \<open>\<^verbatim>\<open>Error\<close> is the event bit of a channel, with the value 4; the constant of the resolver is \<^verbatim>\<open>ERROR\<close>, 128.\<close>

abbreviation ERROR :: u16 where "ERROR \<equiv> 128"

definition err_record :: "string \<Rightarrow> rr" where
  "err_record err = (\<lparr>rr_name = err, rr_type = 4, rr_class = 0, rr_ttl = 0, rr_len = 0\<rparr>, Err)"

definition err_notify :: "query_context \<Rightarrow> string \<Rightarrow> resolver \<Rightarrow> resolver" where
  "err_notify qc err rs = notify qc [err_record err] rs"

definition send_query :: "query_context \<Rightarrow> resolver \<Rightarrow> resolver" where
  "send_query qc rs = rs\<lparr>rs_log := rs_log rs @ [Sent (qc_buf qc)]\<rparr>"

definition set_retransmit_timer :: "query_context \<Rightarrow> resolver \<Rightarrow> resolver" where
  "set_retransmit_timer qc rs =
     (let (after, bo) = next_back_off (qc_backoff qc); qc' = qc\<lparr>qc_backoff := bo\<rparr>
      in if after = 0 then err_notify qc' ''Query timed out'' rs
         else rs\<lparr>armed := armed rs @ [(next_timer rs, after, qc_id qc)], next_timer := next_timer rs + 1,
                 query_map := (query_map rs)(qc_id qc \<mapsto> qc'\<lparr>qc_timer := next_timer rs\<rparr>)\<rparr>)"

definition retransmit :: "u16 \<Rightarrow> resolver \<Rightarrow> resolver" where
  "retransmit txid rs = (case query_map rs txid of None \<Rightarrow> rs | Some qc \<Rightarrow> set_retransmit_timer qc (send_query qc rs))"

text \<open>The loop runs a timer of \<^verbatim>\<open>run_after\<close> once.\<close>

definition timer_fires :: "nat \<Rightarrow> resolver \<Rightarrow> resolver" where
  "timer_fires tid rs =
     (case find (\<lambda>t. fst t = tid) (armed rs) of
        None \<Rightarrow> rs
      | Some (_, _, txid) \<Rightarrow> retransmit txid (rs\<lparr>armed := filter (\<lambda>t. fst t \<noteq> tid) (armed rs)\<rparr>))"

text \<open>
  \<^verbatim>\<open>do_query\<close> with the transaction id that was drawn. When it is in use, \<^verbatim>\<open>emplace\<close> may build the element, a \<^verbatim>\<open>unique_ptr\<close>, and
  destroy it, which deletes the context that the loop goes on to use: \<open>None\<close>, as for the failed \<^verbatim>\<open>Assert\<close> of \<^verbatim>\<open>pack\<close>.
\<close>

definition do_query :: "u16 \<Rightarrow> query_context \<Rightarrow> resolver \<Rightarrow> resolver option" where
  "do_query txid qc rs =
     (if query_map rs txid \<noteq> None then None
      else case pack (qc\<lparr>qc_id := txid\<rparr>) of
             None \<Rightarrow> None
           | Some qc' \<Rightarrow> Some (set_retransmit_timer qc' (send_query qc' (rs\<lparr>query_map := (query_map rs)(txid \<mapsto> qc')\<rparr>))))"

definition get_rcode_str :: "u8 \<Rightarrow> string" where
  "get_rcode_str rcode =
     (if rcode = 1 then ''Format Error'' else if rcode = 2 then ''Server Failure'' else if rcode = 3 then ''Name Error''
      else if rcode = 4 then ''Not Implemented'' else if rcode = 5 then ''Refused'' else ''Unknown Error'')"

definition match_name :: "string \<Rightarrow> string \<Rightarrow> bool" where
  "match_name name rname = (name = drop_root rname)"

definition unpack_answers :: "query_context \<Rightarrow> string \<Rightarrow> nat \<Rightarrow> nat \<Rightarrow> resolver \<Rightarrow> dns_name + resolver" where
  "unpack_answers qc b p an_count rs =
     (if p + 4 \<ge> length b \<or> q_type qc \<noteq> rd16 (drop p b) \<or> q_class qc \<noteq> rd16 (drop (p + 2) b) then Inr rs
      else case parse_answer_rrs an_count b (p + 4) of
             Reject \<Rightarrow> Inr rs
           | Fault r \<Rightarrow> Inl r
           | Parsed res p' \<Rightarrow> if p' \<noteq> length b then Inr rs else Inr (notify qc res rs))"

definition unpack :: "string \<Rightarrow> resolver \<Rightarrow> dns_name + resolver" where
  "unpack b rs =
     (if length b < 12 then Inr rs
      else
        let txid = rd16 b; qr = drop_bit 7 (u8 (b ! 2)); rcode = u8 (b ! 3) AND 0x0f
        in if qr = 0 then Inr rs
           else case query_map rs txid of
                  None \<Rightarrow> Inr rs
                | Some qc \<Rightarrow>
                    if rcode \<noteq> 0 then Inr (err_notify qc (get_rcode_str rcode) rs)
                    else
                      let qd_count = rd16 (drop 4 b); an_count = rd16 (drop 6 b)
                      in if qd_count \<noteq> 1 then Inr rs
                         else case parse_dns_name (name_fuel b) b 12 of
                                Name name p \<Rightarrow>
                                  if name = [] \<or> \<not> match_name (qc_name qc) name then Inr rs
                                  else unpack_answers qc b p (unat an_count) rs
                              | r \<Rightarrow> Inl r)"

definition resolver_message :: "buffer \<Rightarrow> resolver \<Rightarrow> dns_name + (buffer \<times> resolver)" where
  "resolver_message buf rs = map_sum id (\<lambda>rs'. (retrieve_all buf, rs')) (unpack (peek buf) rs)"

section \<open>Configuration, cache and the lists of addresses\<close>

text \<open>\<^verbatim>\<open>parse_resolv_conf\<close> on the text of the file: \<open>None\<close> when \<^verbatim>\<open>parse_conf\<close> fails or \<^verbatim>\<open>arg[1]\<close> does not exist.\<close>

fun pick_nameserver :: "string list list \<Rightarrow> string option" where
  "pick_nameserver [] = Some []"
| "pick_nameserver (arg # args) =
     (if arg ! 0 = ''nameserver'' then
        if length arg < 2 then None else if check_ip (arg ! 1) then Some (arg ! 1) else pick_nameserver args
      else pick_nameserver args)"

definition parse_resolv_conf :: "string \<Rightarrow> string option" where
  "parse_resolv_conf conf = Option.bind (parse_conf conf) pick_nameserver"

record cache_item =
  addr_list :: "string list"
  expire :: int

type_synonym cache = "string \<rightharpoonup> cache_item"

definition cache_put :: "int \<Rightarrow> string \<Rightarrow> string list \<Rightarrow> u32 \<Rightarrow> cache \<Rightarrow> cache" where
  "cache_put now name addrs ttl c =
     (if c name = None then c(name \<mapsto> \<lparr>addr_list = addrs, expire = now + uint (ttl * 1000)\<rparr>) else c)"

definition cache_evict :: "int \<Rightarrow> cache \<Rightarrow> cache" where
  "cache_evict now c = (\<lambda>name. case c name of Some a \<Rightarrow> if expire a \<le> now then None else Some a | None \<Rightarrow> None)"

fun addr_ttl :: "result \<Rightarrow> u32 \<Rightarrow> string list \<times> u32" where
  "addr_ttl [] min_ttl = ([], min_ttl)"
| "addr_ttl ((r, d) # items) min_ttl =
     (case d of
        A addr \<Rightarrow>
          let (addrs, t) = addr_ttl items (if min_ttl = 0 then rr_ttl r else min min_ttl (rr_ttl r)) in (addr # addrs, t)
      | _ \<Rightarrow> addr_ttl items min_ttl)"

text \<open>\<open>answer\<close> is the value of the future, \<open>None\<close> when it is not ready in time; \<open>Inl ()\<close> is the undefined \<^verbatim>\<open>back()\<close> in \<^verbatim>\<open>query\<close>.\<close>

definition get_addr_list :: "int \<Rightarrow> (query_context \<Rightarrow> result option) \<Rightarrow> string \<Rightarrow> cache \<Rightarrow> unit + (string list \<times> cache)" where
  "get_addr_list now answer name c =
     (case c name of
        Some a \<Rightarrow> Inr (addr_list a, c)
      | None \<Rightarrow>
          (case query name TYPE_A 1 of
             Inl u \<Rightarrow> Inl u
           | Inr None \<Rightarrow> Inr ([], c)
           | Inr (Some qc) \<Rightarrow>
               (case answer qc of
                  None \<Rightarrow> Inr ([], c)
                | Some items \<Rightarrow>
                    let (res, min_ttl) = addr_ttl items 0
                    in Inr (res, if min_ttl > 0 then cache_put now name res min_ttl c else c))))"

text \<open>\<open>sorter\<close> is \<^verbatim>\<open>std::sort\<close> by preference, which may put equal preferences in any order.\<close>

definition is_sorter :: "((u16 \<times> string) list \<Rightarrow> (u16 \<times> string) list) \<Rightarrow> bool" where
  "is_sorter sorter \<longleftrightarrow> (\<forall>l. mset (sorter l) = mset l \<and> sorted (map fst (sorter l)))"

definition mx_list :: "result \<Rightarrow> (u16 \<times> string) list" where
  "mx_list items = concat (map (\<lambda>(r, d). case d of MX pref ex \<Rightarrow> [(pref, ex)] | _ \<Rightarrow> []) items)"

definition get_mx_name_list :: "((u16 \<times> string) list \<Rightarrow> (u16 \<times> string) list) \<Rightarrow> (query_context \<Rightarrow> result option) \<Rightarrow> string
    \<Rightarrow> unit + string list" where
  "get_mx_name_list sorter answer name =
     (case query name TYPE_MX 1 of
        Inl u \<Rightarrow> Inl u
      | Inr None \<Rightarrow> Inr []
      | Inr (Some qc) \<Rightarrow> (case answer qc of None \<Rightarrow> Inr [] | Some items \<Rightarrow> Inr (map snd (sorter (mx_list items)))))"

definition show_item :: "rr \<Rightarrow> string" where
  "show_item item =
     (let r = fst item; nm = rr_name r; u = (\<lambda>w. dec (unat w))
      in case snd item of
           A addr \<Rightarrow> nm @ '' has address '' @ addr @ [LF]
         | NS n \<Rightarrow> nm @ '' name server '' @ n @ [LF]
         | CNAME n \<Rightarrow> nm @ '' is an alias for '' @ n @ [LF]
         | MX pref n \<Rightarrow> nm @ '' mail is handled by '' @ u pref @ '' '' @ n @ [LF]
         | TXT s \<Rightarrow> nm @ '' descriptive text '' @ [CHR 0x22] @ s @ [CHR 0x22, LF]
         | PTR n \<Rightarrow> nm @ '' domain name pointer '' @ n @ [LF]
         | SOA m n a b c d e \<Rightarrow>
             nm @ '' has SOA record '' @ m @ '' '' @ n @ '' '' @ concat (map (\<lambda>w. dec (unat w) @ '' '') [a, b, c, d]) @ dec (unat e) @ [LF]
         | Err \<Rightarrow> if rr_type r = ERROR then nm @ [LF] else [])"

definition show_result :: "result option \<Rightarrow> string" where
  "show_result f = (case f of None \<Rightarrow> ''argument error'' @ [LF] | Some items \<Rightarrow> concat (map show_item items))"

section \<open>Compression pointers\<close>

definition jump :: "string \<Rightarrow> nat \<Rightarrow> nat option" where
  "jump b p = (case parse_labels b p [] of LabelsJump res offset q \<Rightarrow> Some offset | _ \<Rightarrow> None)"

fun hops :: "(nat \<Rightarrow> nat option) \<Rightarrow> nat \<Rightarrow> nat \<Rightarrow> nat option" where
  "hops f 0 p = Some p"
| "hops f (Suc n) p = Option.bind (f p) (hops f n)"

lemma hops_add: "hops f (m + n) p = Option.bind (hops f m p) (hops f n)"
  by (induction m arbitrary: p) (auto split: bind_splits)

lemma hops_one: "hops f (Suc 0) p = f p"
  by (cases "f p") auto

lemma hops_prefix: "hops f n p \<noteq> None \<Longrightarrow> m \<le> n \<Longrightarrow> hops f m p \<noteq> None"
  using hops_add [of f m "n - m" p] by (cases "hops f m p") auto

lemma hops_cycle: "hops f (Suc d) x = Some x \<Longrightarrow> hops f n x \<noteq> None"
proof (induction n rule: less_induct)
  case (less n)
  show ?case
  proof (cases "n \<le> Suc d")
    case True
    with less.prems show ?thesis using hops_prefix [of f "Suc d" x n] by simp
  next
    case False
    then have "hops f n x = hops f (n - Suc d) x"
      using less.prems hops_add [of f "Suc d" "n - Suc d" x] by simp
    with less.IH [of "n - Suc d"] less.prems False show ?thesis by simp
  qed
qed

lemma hops_into_cycle:
  assumes m: "hops f m p = Some q" and cyc: "hops f (Suc d) q = Some q"
  shows "hops f n p \<noteq> None"
proof (cases "n \<le> m")
  case True
  with m show ?thesis using hops_prefix [of f m p n] by simp
next
  case False
  then have "hops f n p = hops f (n - m) q" using hops_add [of f m "n - m" p] m by simp
  with hops_cycle [OF cyc] show ?thesis by metis
qed

text \<open>More jumps than places to jump to: some place is visited twice.\<close>

lemma hops_revisit:
  assumes below: "\<And>x y. f x = Some y \<Longrightarrow> y < L" and def: "hops f (Suc L) p \<noteq> None"
  shows "\<exists>m d q. hops f m p = Some q \<and> hops f (Suc d) q = Some q"
proof -
  define at where "at i = the (hops f (Suc i) p)" for i
  have some: "hops f (Suc i) p = Some (at i)" if "i \<le> L" for i
    using hops_prefix [OF def, of "Suc i"] that by (auto simp: at_def)
  have "at i < L" if "i \<le> L" for i
  proof -
    from some [OF that] have "Option.bind (hops f i p) f = Some (at i)"
      using hops_add [of f i "Suc 0" p] by (cases "hops f i p") (auto simp: hops_one simp del: hops.simps)
    then show ?thesis by (auto simp: bind_eq_Some_conv intro: below)
  qed
  then have "at ` {..L} \<subseteq> {..<L}" by auto
  then have "\<not> inj_on at {..L}"
    using card_inj_on_le [of at "{..L}" "{..<L}"] by auto
  then obtain i j where ij: "i < j" "j \<le> L" "at i = at j"
    by (metis atMost_iff inj_onI linorder_neqE_nat)
  have "hops f (Suc (j - Suc i)) (at i) = Some (at i)"
    using hops_add [of f "Suc i" "j - i" p] some [of i] some [of j] ij by (simp add: Suc_diff_Suc del: hops.simps)
  with some [of i] ij show ?thesis by (meson less_imp_le_nat order_trans)
qed

lemma jump_inside: "jump b p = Some q \<Longrightarrow> q < length b"
proof -
  have "parse_labels b p res = LabelsJump r q c \<Longrightarrow> q < length b" for p res r c
    by (induction b p res rule: parse_labels.induct)
      (subst (asm) (2) parse_labels.simps, auto simp: Let_def split: if_splits)
  then show "jump b p = Some q \<Longrightarrow> q < length b" by (auto simp: jump_def split: label_run.splits)
qed

lemma diverges_hops: "parse_dns_name n b p = Diverges \<longleftrightarrow> hops (jump b) n p \<noteq> None"
proof (induction n arbitrary: p)
  case (Suc n)
  show ?case
  proof (cases "parse_labels b p []")
    case (LabelsJump res offset q)
    then have "hops (jump b) (Suc n) p = hops (jump b) n offset" by (simp add: jump_def)
    with LabelsJump Suc.IH [of offset] show ?thesis by (auto split: dns_name.splits)
  qed (simp_all add: jump_def)
qed simp

lemma parse_dns_name_mono: "parse_dns_name n b p \<noteq> Diverges \<Longrightarrow> parse_dns_name (n + k) b p = parse_dns_name n b p"
  by (induction n arbitrary: p) (auto split: label_run.splits dns_name.splits)

lemma fuel_cycle:
  "parse_dns_name (name_fuel b) b p = Diverges
   \<Longrightarrow> \<exists>m d q. hops (jump b) m p = Some q \<and> hops (jump b) (Suc d) q = Some q"
  unfolding diverges_hops
  using hops_prefix [of "jump b" "name_fuel b" p "Suc (length b)"] hops_revisit [of "jump b" "length b" p]
  by (simp add: name_fuel_def jump_inside)

lemma cycle_diverges:
  "hops (jump b) m p = Some q \<Longrightarrow> hops (jump b) (Suc d) q = Some q \<Longrightarrow> parse_dns_name n b p = Diverges"
  unfolding diverges_hops by (rule hops_into_cycle)

lemma parse_fuel: "parse_dns_name n b p \<noteq> Diverges \<Longrightarrow> parse_dns_name (name_fuel b) b p = parse_dns_name n b p"
  by (metis fuel_cycle cycle_diverges add.commute parse_dns_name_mono)

text \<open>
  C21: the length of the message bounds the work of \<^verbatim>\<open>parse_dns_name\<close>. Fuel \<open>name_fuel b\<close> gives the result that any larger fuel
  gives, and it is used up exactly when the compression pointers reached from \<open>p\<close> run into a cycle, where the recursion never ends.
\<close>

theorem fuel_enough:
  "parse_dns_name (name_fuel b + k) b p = parse_dns_name (name_fuel b) b p
   \<and> (parse_dns_name (name_fuel b) b p = Diverges
      \<longleftrightarrow> (\<exists>m d q. hops (jump b) m p = Some q \<and> hops (jump b) (Suc d) q = Some q))"
  by (metis fuel_cycle cycle_diverges parse_dns_name_mono)

text \<open>Two bytes are enough: a pointer to itself.\<close>

lemma self_pointer_diverges: "parse_dns_name n [CHR 0xC0, CHR 0x00] 0 = Diverges"
proof (rule cycle_diverges [of _ 0 0 0 0])
  show "hops (jump [CHR 0xC0, CHR 0x00]) (Suc 0) 0 = Some 0"
    by code_simp
qed simp

section \<open>Names as the standard writes them\<close>

definition label_ok :: "string \<Rightarrow> bool" where
  "label_ok l \<longleftrightarrow> l \<noteq> [] \<and> length l \<le> max_label_size"

definition dotted :: "string list \<Rightarrow> string" where
  "dotted ls = concat (map (\<lambda>l. l @ ''.'') ls)"

definition ptr_bytes :: "nat \<Rightarrow> string" where
  "ptr_bytes off = be16 (0xc000 OR of_nat off)"

text \<open>RFC 1035, 4.1.4: labels that end in a zero octet, or labels that end in a pointer to the rest of the name; \<open>q\<close> is the position behind them.\<close>

inductive name_in :: "string \<Rightarrow> nat \<Rightarrow> string list \<Rightarrow> nat \<Rightarrow> bool" for b where
  full: "prefix (dns_labels ls @ [NUL]) (drop p b) \<Longrightarrow> ls \<noteq> [] \<Longrightarrow> list_all label_ok ls
    \<Longrightarrow> name_in b p ls (p + length (dns_labels ls) + 1)"
| compressed: "prefix (dns_labels ls @ ptr_bytes off) (drop p b) \<Longrightarrow> list_all label_ok ls \<Longrightarrow> off < 2 ^ 14
    \<Longrightarrow> name_in b off ls' q \<Longrightarrow> name_in b p (ls @ ls') (p + length (dns_labels ls) + 2)"

lemma dns_labels_simps [simp]:
  "dns_labels [] = []" "dns_labels (l # ls) = chr8 (of_nat (length l)) # l @ dns_labels ls"
  by (simp_all add: dns_labels_def)

lemma dotted_simps [simp]: "dotted [] = []" "dotted (l # ls) = l @ ''.'' @ dotted ls" "dotted (ls @ ls') = dotted ls @ dotted ls'"
  by (simp_all add: dotted_def)

lemma prefix_dropD: "prefix (x # xs) (drop p b) \<Longrightarrow> p < length b \<and> b ! p = x \<and> prefix xs (drop (Suc p) b)"
  by (cases "p < length b") (auto simp flip: Cons_nth_drop_Suc)

lemma prefix_drop_append:
  "prefix (xs @ ys) (drop p b) \<Longrightarrow> take (length xs) (drop p b) = xs \<and> prefix ys (drop (p + length xs) b)"
proof -
  assume "prefix (xs @ ys) (drop p b)"
  then obtain r where r: "drop p b = xs @ ys @ r" by (auto simp: prefix_def)
  then have "drop (length xs) (drop p b) = ys @ r" by simp
  then have "drop (p + length xs) b = ys @ r" by (simp add: add.commute)
  with r show ?thesis by simp
qed

lemma label_byte: "n \<le> 63 \<Longrightarrow> (of_nat n :: u8) AND 0xc0 \<noteq> 0xc0"
proof -
  have "\<forall>n \<in> set [0..<64]. (of_nat n :: u8) AND 0xc0 \<noteq> 0xc0" by code_simp
  then show "n \<le> 63 \<Longrightarrow> ?thesis" by auto
qed

lemma parse_label:
  assumes "prefix (chr8 (of_nat (length l)) # l @ s) (drop p b)" and "label_ok l" and "s \<noteq> []"
  shows "parse_labels b p res = parse_labels b (p + 1 + length l) (res @ l @ ''.'')"
proof -
  from assms(1) have p: "p < length b" "b ! p = chr8 (of_nat (length l))" and pl: "prefix (l @ s) (drop (Suc p) b)"
    by (auto dest: prefix_dropD)
  then have l: "take (length l) (drop (Suc p) b) = l" and s: "prefix s (drop (Suc p + length l) b)"
    by (auto dest: prefix_drop_append)
  from s assms(3) have "Suc p + length l < length b" by (cases s) (auto dest: prefix_dropD)
  moreover from assms(2) have "0 < length l" "length l \<le> 63" by (auto simp: label_ok_def max_label_size_def)
  ultimately show ?thesis
    using p l label_byte [of "length l"]
    by (subst parse_labels.simps) (simp add: Let_def unsigned_of_nat take_bit_nat_eq_self)
qed

lemma parse_label_seq:
  "prefix (dns_labels ls @ s) (drop p b) \<Longrightarrow> list_all label_ok ls \<Longrightarrow> s \<noteq> []
   \<Longrightarrow> parse_labels b p res = parse_labels b (p + length (dns_labels ls)) (res @ dotted ls)
       \<and> prefix s (drop (p + length (dns_labels ls)) b)"
proof (induction ls arbitrary: p res)
  case (Cons l ls)
  then have pre: "prefix (chr8 (of_nat (length l)) # l @ dns_labels ls @ s) (drop p b)" by simp
  then have "prefix (dns_labels ls @ s) (drop (p + 1 + length l) b)"
    using prefix_drop_append [of "chr8 (of_nat (length l)) # l" "dns_labels ls @ s" p b] by simp
  from Cons.IH [OF this] Cons.prems parse_label [OF pre] show ?case by (simp add: add.assoc)
qed simp

lemma pointer_mark: "(ucast (drop_bit 8 (0xc000 OR w :: u16)) :: u8) AND 0xc0 = 0xc0"
proof -
  have "drop_bit 8 (0xc000 :: u16) = 0xc0" by code_simp
  then have "(ucast (drop_bit 8 (0xc000 OR w)) :: u8) = 0xc0 OR ucast (drop_bit 8 w)"
    by (simp add: unsigned_or_eq)
  then show ?thesis by (simp add: bit.conj_disj_distrib2 ac_simps)
qed

lemma pointer_offset: "off < 2 ^ 14 \<Longrightarrow> unat ((0xc000 OR of_nat off :: u16) AND 0x3fff) = off"
proof -
  assume off: "off < 2 ^ 14"
  have "(0x3fff :: u16) = mask 14" "(0xc000 :: u16) AND 0x3fff = 0" by code_simp+
  then have "(0xc000 OR of_nat off :: u16) AND 0x3fff = take_bit 14 (of_nat off)"
    by (simp add: bit.conj_disj_distrib2 take_bit_eq_mask)
  with off show ?thesis by (simp add: unsigned_take_bit_eq unsigned_of_nat take_bit_nat_eq_self)
qed

lemma parse_pointer:
  assumes "prefix (ptr_bytes off) (drop p b)" and "off < 2 ^ 14" and "off < length b"
  shows "parse_labels b p res = LabelsJump res off (p + 2)"
proof -
  let ?w = "0xc000 OR of_nat off :: u16"
  from assms(1) obtain r where d: "drop p b = be16 ?w @ r" by (auto simp: ptr_bytes_def prefix_def)
  then have "length (drop p b) \<ge> 2" by simp
  then have p: "p + 2 \<le> length b" by simp
  from d have "b ! p = chr8 (ucast (drop_bit 8 ?w))"
    using p by (simp add: be16_def nth_via_drop)
  moreover have "(ucast (drop_bit 8 ?w) :: u8) AND 0xc0 = 0xc0"
    by (rule pointer_mark)
  moreover have "unat (rd16 (drop p b) AND 0x3fff) = off"
    using d assms(2) by (simp add: pointer_offset)
  ultimately show ?thesis using p assms(3) by (subst parse_labels.simps) (simp add: Let_def)
qed

lemma name_in_first: "name_in b p ls q \<Longrightarrow> p < length b \<and> ls \<noteq> []"
  by (induction rule: name_in.induct) (auto simp: prefix_def ptr_bytes_def be16_def dest!: arg_cong [of _ _ length])

lemma name_in_fuel: "name_in b p ls q \<Longrightarrow> \<exists>n. parse_dns_name n b p = Name (dotted ls) q"
proof (induction rule: name_in.induct)
  case (full ls p)
  then have seq: "parse_labels b p [] = parse_labels b (p + length (dns_labels ls)) (dotted ls)"
    and "prefix [NUL] (drop (p + length (dns_labels ls)) b)"
    using parse_label_seq [of ls "[NUL]" p b "[]"] by auto
  then have nul: "p + length (dns_labels ls) < length b" "b ! (p + length (dns_labels ls)) = NUL"
    by (auto dest: prefix_dropD)
  have "dotted ls \<noteq> []" "last (dotted ls) = CHR ''.''"
    using full(2) by (induction ls rule: rev_induct) auto
  with seq nul have "parse_labels b p [] = LabelsEnd (dotted ls) (p + length (dns_labels ls) + 1)"
    by (subst (asm) parse_labels.simps) (simp add: Let_def u8_def)
  then have "parse_dns_name (Suc 0) b p = Name (dotted ls) (p + length (dns_labels ls) + 1)" by simp
  then show ?case by blast
next
  case (compressed ls off p ls' q)
  then obtain n where n: "parse_dns_name n b off = Name (dotted ls') q" by blast
  from compressed have "parse_labels b p [] = LabelsJump (dotted ls) off (p + length (dns_labels ls) + 2)"
    using parse_label_seq [of ls "ptr_bytes off" p b "[]"] parse_pointer name_in_first [of b off]
    by (auto simp: ptr_bytes_def be16_def)
  with n have "parse_dns_name (Suc n) b p = Name (dotted (ls @ ls')) (p + length (dns_labels ls) + 2)" by simp
  then show ?case by blast
qed


lemma name_in_example: "name_in [CHR 0x03, CHR ''w'', CHR ''w'', CHR ''w'', NUL, CHR 0x01, CHR ''f'', CHR 0xC0, NUL] 5 [''f'', ''www''] 9"
proof -
  let ?b = "[CHR 0x03, CHR ''w'', CHR ''w'', CHR ''w'', NUL, CHR 0x01, CHR ''f'', CHR 0xC0, NUL]"
  have "name_in ?b 0 [''www''] (0 + length (dns_labels [''www'']) + 1)" by (rule name_in.full) code_simp+
  then have "name_in ?b 5 ([''f''] @ [''www'']) (5 + length (dns_labels [''f'']) + 2)"
    by (rule name_in.compressed [of "[''f'']" 0, rotated 3]) code_simp+
  then show ?thesis by simp
qed


section \<open>Responses as the standard writes them\<close>

text \<open>Data of the seven record types at \<open>q\<close>, and a sequence of records whose length fields are right.\<close>

inductive rdata_in :: "string \<Rightarrow> u16 \<Rightarrow> nat \<Rightarrow> rdata \<Rightarrow> nat \<Rightarrow> bool" for b where
  rd_a: "prefix [x, y, z, w] (drop q b) \<Longrightarrow> rdata_in b TYPE_A q (A (ip_str [x, y, z, w])) (q + 4)"
| rd_ns: "name_in b q ls q' \<Longrightarrow> rdata_in b TYPE_NS q (NS (dotted ls)) q'"
| rd_cname: "name_in b q ls q' \<Longrightarrow> rdata_in b TYPE_CNAME q (CNAME (dotted ls)) q'"
| rd_ptr: "name_in b q ls q' \<Longrightarrow> rdata_in b TYPE_PTR q (PTR (dotted ls)) q'"
| rd_mx: "prefix (be16 pref) (drop q b) \<Longrightarrow> name_in b (q + 2) ls q' \<Longrightarrow> rdata_in b TYPE_MX q (MX pref (dotted ls)) q'"
| rd_txt: "prefix (chr8 (of_nat (length s)) # s) (drop q b) \<Longrightarrow> length s < 256 \<Longrightarrow> rdata_in b TYPE_TXT q (TXT s) (q + 1 + length s)"
| rd_soa: "name_in b q m q1 \<Longrightarrow> name_in b q1 n q2
    \<Longrightarrow> prefix (be32 serial @ be32 refresh @ be32 retry @ be32 expiry @ be32 minimum) (drop q2 b)
    \<Longrightarrow> rdata_in b TYPE_SOA q (SOA (dotted m) (dotted n) serial refresh retry expiry minimum) (q2 + 20)"

inductive rrs_in :: "string \<Rightarrow> nat \<Rightarrow> rr list \<Rightarrow> nat \<Rightarrow> bool" for b where
  no_rr: "rrs_in b p [] p"
| more_rr: "name_in b p ls q0 \<Longrightarrow> prefix (be16 t @ be16 c @ be32 ttl @ be16 len) (drop q0 b) \<Longrightarrow> rdata_in b t (q0 + 10) d q1
    \<Longrightarrow> unat len = q1 - (q0 + 10) \<Longrightarrow> rrs_in b q1 rs q
    \<Longrightarrow> rrs_in b p ((\<lparr>rr_name = butlast (dotted ls), rr_type = t, rr_class = c, rr_ttl = ttl, rr_len = unat len\<rparr>, d) # rs) q"

lemma prefix_be16D: "prefix (be16 w @ s) (drop p b) \<Longrightarrow> rd16 (drop p b) = w \<and> prefix s (drop (p + 2) b)"
  using prefix_drop_append [of "be16 w" s p b] by (auto simp: prefix_def)

lemma prefix_be32D: "prefix (be32 w @ s) (drop p b) \<Longrightarrow> rd32 (drop p b) = w \<and> prefix s (drop (p + 4) b)"
  using prefix_drop_append [of "be32 w" s p b] by (auto simp: prefix_def)

lemma be32_not_Nil: "be32 w \<noteq> []"
  by (simp add: be32_def)

lemma prefix_drop_length: "prefix s (drop p b) \<Longrightarrow> s \<noteq> [] \<Longrightarrow> p + length s \<le> length b"
proof -
  assume "prefix s (drop p b)" "s \<noteq> []"
  then have "length s \<le> length b - p" "0 < length s" using prefix_length_le [of s "drop p b"] by simp_all
  then show ?thesis by linarith
qed

lemma name_in_pos: "name_in b p ls q \<Longrightarrow> p < q \<and> q \<le> length b"
  by (induction rule: name_in.induct) (auto dest!: prefix_drop_length simp: ptr_bytes_def be16_def)

lemma rdata_in_pos: "rdata_in b t q d q' \<Longrightarrow> q < q' \<and> q' \<le> length b"
  by (induction rule: rdata_in.induct) (auto dest!: prefix_drop_length name_in_pos simp: be32_def)

lemma name_at_in: "name_in b p ls q \<Longrightarrow> name_at b p = Parsed (dotted ls) q"
proof -
  assume n: "name_in b p ls q"
  then have "dotted ls \<noteq> []" by (auto dest: name_in_first simp: dotted_def)
  moreover from n obtain k where "parse_dns_name k b p = Name (dotted ls) q" by (blast dest: name_in_fuel)
  ultimately show ?thesis using parse_fuel [of k b p] by (simp add: name_at_def)
qed

lemma parse_rdata_in:
  "rdata_in b (rr_type r) q d q' \<Longrightarrow> rr_len r = q' - q \<Longrightarrow> parse_rdata r b q = Parsed d q'"
proof (induction "rr_type r" q d q' rule: rdata_in.induct)
  case (rd_a x y z w q)
  then have "ip_str (drop q b) = ip_str [x, y, z, w]" by (auto simp: ip_str_def prefix_def)
  with rd_a show ?case by (simp add: parse_rdata_def parse_a_rdata_def flip: rd_a(2))
next
  case (rd_mx pref q ls q')
  then have "\<not> rr_len r \<le> 2" using name_in_pos [of b "q + 2" ls q'] by linarith
  with rd_mx show ?case
    using prefix_be16D [of pref "[]" q b]
    by (simp add: parse_rdata_def parse_mx_rdata_def parse_name_rdata_def name_at_in flip: rd_mx(3))
next
  case (rd_txt s q)
  then have "b ! q = chr8 (of_nat (length s))" "take (length s) (drop (Suc q) b) = s"
    using prefix_dropD [OF rd_txt(1)] prefix_drop_append [of s "[]" "Suc q" b] by simp_all
  with rd_txt show ?case
    by (simp add: parse_rdata_def parse_txt_rdata_def chr8_def unsigned_of_nat take_bit_nat_eq_self flip: rd_txt(3))
next
  case (rd_soa q m q1 n q2 serial refresh retry expiry minimum)
  then show ?case
    using prefix_drop_length [OF rd_soa(3)] prefix_be32D [of minimum "[]" "q2 + 16" b]
    by (auto simp: be32_not_Nil parse_rdata_def parse_soa_rdata_def name_at_in add.assoc dest!: prefix_be32D simp flip: rd_soa(4))
qed (simp_all add: parse_rdata_def parse_cname_rdata_def parse_ns_rdata_def parse_ptr_rdata_def parse_name_rdata_def name_at_in)

lemma dotted_last: "ls \<noteq> [] \<Longrightarrow> dotted ls \<noteq> [] \<and> last (dotted ls) = CHR ''.''"
  by (induction ls rule: rev_induct) auto

lemma parse_rr_base_in:
  assumes n: "name_in b p ls q" and pre: "prefix (be16 t @ be16 c @ be32 ttl @ be16 len) (drop q b)"
    and len: "0 < len" "q + 10 + unat len \<le> length b"
  shows "parse_rr_base b p =
    Parsed \<lparr>rr_name = butlast (dotted ls), rr_type = t, rr_class = c, rr_ttl = ttl, rr_len = unat len\<rparr> (q + 10)"
proof -
  from pre have "rd16 (drop q b) = t" "rd16 (drop (q + 2) b) = c" "rd32 (drop (q + 4) b) = ttl" "rd16 (drop (q + 8) b) = len"
    using prefix_be16D [of len "[]" "q + 8" b] by (auto dest!: prefix_be16D prefix_be32D simp: numeral_Bit0)
  moreover from len have "0 < unat len" by (simp add: unat_gt_0)
  ultimately show ?thesis
    using n len name_in_first [OF n] by (simp add: parse_rr_base_def name_at_in dotted_last)
qed

lemma parse_answers_in: "rrs_in b p rs q \<Longrightarrow> parse_answer_rrs (length rs) b p = Parsed rs q"
proof (induction rule: rrs_in.induct)
  case (more_rr p ls q0 t c ttl len d q1 rs q)
  then have pos: "q0 + 10 < q1" "q1 \<le> length b" by (auto dest: rdata_in_pos)
  then have "0 < unat len" using more_rr(4) by simp
  then have "0 < len" by (simp add: word_less_nat_alt)
  with more_rr pos show ?case
    by (simp add: parse_rr_base_in parse_rdata_in)
qed simp

lemma drop_root_dotted: "drop_root (dotted (split name CHR ''.'')) = name"
proof -
  have "dotted ls = join ''.'' ls @ ''.''" if "ls \<noteq> []" for ls
    using that by (induction ls rule: list_nonempty_induct) (auto simp: neq_Nil_conv)
  then show ?thesis by (simp add: drop_root_def join_split)
qed

lemma rrs_in_first: "rrs_in b p rs q \<Longrightarrow> rs \<noteq> [] \<Longrightarrow> p < length b"
  by (induction rule: rrs_in.induct) (auto dest: name_in_first)

lemma header_words:
  assumes "prefix (be16 a @ be16 f @ be16 q @ be16 n @ s) b"
  shows "rd16 b = a \<and> prefix (be16 f) (drop 2 b) \<and> rd16 (drop 4 b) = q \<and> rd16 (drop 6 b) = n"
proof -
  from assms obtain r where "b = be16 a @ be16 f @ be16 q @ be16 n @ r" by (auto simp: prefix_def)
  then show ?thesis by simp
qed

lemma flags_bytes:
  assumes "prefix (be16 flags) (drop 2 b)"
  shows "(drop_bit 7 (u8 (b ! 2)) \<noteq> 0) = bit flags 15" and "u8 (b ! 3) AND 0x0f = ucast (flags AND 0x0f)"
proof -
  from assms have "prefix (chr8 (ucast (drop_bit 8 flags)) # [chr8 (ucast flags)]) (drop 2 b)" by (simp add: be16_def)
  then have b: "b ! 2 = chr8 (ucast (drop_bit 8 flags))" "b ! 3 = chr8 (ucast flags)"
    by (auto dest!: prefix_dropD simp: numeral_eq_Suc)
  show "(drop_bit 7 (u8 (b ! 2)) \<noteq> 0) = bit flags 15"
  proof
    assume "drop_bit 7 (u8 (b ! 2)) \<noteq> 0"
    then obtain n where "bit (drop_bit 7 (u8 (b ! 2))) n" by (metis bit_eq_iff bit_0_eq bot_apply bot_bool_def)
    then have n: "bit (ucast (drop_bit 8 flags) :: u8) (7 + n)" by (simp add: b bit_drop_bit_eq)
    then have "n = 0" using bit_imp_le_length [OF n] by simp
    with n show "bit flags 15" by (simp add: bit_ucast_iff bit_drop_bit_eq)
  next
    assume "bit flags 15"
    then have "bit (drop_bit 7 (u8 (b ! 2))) 0" by (simp add: b bit_drop_bit_eq bit_ucast_iff del: bit_0)
    then show "drop_bit 7 (u8 (b ! 2)) \<noteq> 0" by force
  qed
  show "u8 (b ! 3) AND 0x0f = ucast (flags AND 0x0f)"
    by (simp add: b unsigned_and_eq)
qed


definition a_query :: query_context where
  "a_query = \<lparr>qc_id = 7, qc_name = ''a'', q_name = [CHR 0x01, CHR ''a'', NUL], q_type = TYPE_A, q_class = 1, qc_buf = [], qc_timer = 1,
     qc_backoff = \<lparr>interval = 1000, multiplier = 2, max_retries = 4\<rparr>\<rparr>"

definition a_message :: string where
  "a_message = be16 7 @ be16 0x8180 @ be16 1 @ be16 1 @ be16 0 @ be16 0 @ [CHR 0x01, CHR ''a'', NUL] @ be16 1 @ be16 1
     @ ptr_bytes 12 @ be16 1 @ be16 1 @ be32 60 @ be16 4 @ [CHR 0x0A, CHR 0x00, CHR 0x00, CHR 0x02]"

definition a_answer :: result where
  "a_answer = [(\<lparr>rr_name = ''a'', rr_type = TYPE_A, rr_class = 1, rr_ttl = 60, rr_len = 4\<rparr>, A ''10.0.0.2'')]"

lemma a_message_answer: "name_in a_message 12 [''a''] 15" "rrs_in a_message 19 a_answer 35"
proof -
  have q: "name_in a_message 12 [''a''] (12 + length (dns_labels [''a'']) + 1)" by (rule name_in.full) code_simp+
  then show "name_in a_message 12 [''a''] 15" by simp
  from q have n: "name_in a_message 19 ([] @ [''a'']) (19 + length (dns_labels []) + 2)"
    by (rule name_in.compressed [of "[]" 12, rotated 3]) code_simp+
  have ip: "ip_str [CHR 0x0A, CHR 0x00, CHR 0x00, CHR 0x02] = ''10.0.0.2''" by code_simp
  have d: "rdata_in a_message TYPE_A 31 (A (ip_str [CHR 0x0A, CHR 0x00, CHR 0x00, CHR 0x02])) (31 + 4)" by (rule rdata_in.rd_a) code_simp
  have "rrs_in a_message 19 ((\<lparr>rr_name = butlast (dotted [''a'']), rr_type = TYPE_A, rr_class = 1, rr_ttl = 60, rr_len = unat (4 :: u16)\<rparr>,
    A (ip_str [CHR 0x0A, CHR 0x00, CHR 0x00, CHR 0x02])) # []) 35"
  proof (rule rrs_in.more_rr [where ?q0.0 = 21 and ?q1.0 = 35])
    show "prefix (be16 TYPE_A @ be16 1 @ be32 60 @ be16 4) (drop 21 a_message)" by code_simp
  qed (use n d in \<open>simp_all add: no_rr\<close>)
  then show "rrs_in a_message 19 a_answer 35" by (simp add: a_answer_def ip)
qed


section \<open>Queries, retransmission, cache\<close>

text \<open>The name of a query, and what \<^verbatim>\<open>pack\<close> writes of it, is read back by \<^verbatim>\<open>parse_dns_name\<close>.\<close>

lemma to_dns_name_in:
  assumes "to_dns_name name = Some s" and "s \<noteq> []"
  shows "name_in (pre @ s @ post) (length pre) (split (drop_root name) CHR ''.'') (length pre + length s)"
proof -
  let ?ls = "split (drop_root name) CHR ''.''"
  from assms have s: "s = dns_labels ?ls @ [NUL]" and ok: "list_all label_ok ?ls"
    by (auto simp: to_dns_name_def Let_def list_all_iff list_ex_iff label_ok_def split: if_splits)
  have "name_in (pre @ s @ post) (length pre) ?ls (length pre + length (dns_labels ?ls) + 1)"
    using ok by (intro name_in.full) (simp_all add: s)
  then show ?thesis by (simp add: s)
qed

text \<open>A name written with the final dot of the root is sent without it, but no response has a name that matches it.\<close>

lemma root_name_ignored:
  assumes "query_map rs (rd16 b) = Some qc" and "qc_name qc \<noteq> []" "last (qc_name qc) = CHR ''.''" and "u8 (b ! 3) AND 0x0f = 0"
    and "parse_dns_name (name_fuel b) b 12 = Name (dotted ls) p" and ls: "list_all (\<lambda>l. l \<noteq> [] \<and> CHR ''.'' \<notin> set l) ls"
  shows "unpack b rs = Inr rs"
proof -
  have "last (drop_root (dotted ls)) \<noteq> CHR ''.'' \<or> drop_root (dotted ls) = []"
    using ls by (cases ls rule: rev_cases) (auto simp: drop_root_def butlast_append dest: last_in_set)
  then have "\<not> match_name (qc_name qc) (dotted ls)" using assms(2,3) by (auto simp: match_name_def)
  with assms show ?thesis by (simp add: unpack_def Let_def)
qed

text \<open>
  A query that is never answered is sent five times, after 1, 2, 4 and 8 seconds, and fails right behind the fifth message; nothing of it
  remains in the resolver.
\<close>

lemma newest_timer:
  assumes "\<forall>t \<in> set ts. fst t < (n :: nat)"
  shows "find (\<lambda>t. fst t = n) (ts @ [(n, d, i)]) = Some (n, d, i)" and "filter (\<lambda>t. fst t \<noteq> n) (ts @ [(n, d, i)]) = ts"
  using assms by (induction ts) auto

lemma timer_fires_newest:
  assumes "\<forall>t \<in> set ts. fst t < n" and "armed rs = ts @ [(n, d, i)]" and "query_map rs i = Some qc"
  shows "timer_fires n rs = set_retransmit_timer qc (send_query qc (rs\<lparr>armed := ts\<rparr>))"
  using assms newest_timer [of ts n d i] by (simp add: timer_fires_def retransmit_def)

definition query_pending :: "nat \<Rightarrow> nat \<Rightarrow> u16 \<Rightarrow> query_context \<Rightarrow> resolver \<Rightarrow> resolver \<Rightarrow> bool" where
  "query_pending k n txid qc rs0 rs \<longleftrightarrow>
     armed rs = armed rs0 @ [(n, 1000 * 2 ^ k, txid)] \<and> next_timer rs = n + 1 \<and> rs_log rs = rs_log rs0 @ replicate (k + 1) (Sent (qc_buf qc))
     \<and> query_map rs = (query_map rs0)(txid \<mapsto>
         qc\<lparr>qc_backoff := \<lparr>interval = 1000 * 2 ^ (k + 1), multiplier = 2, max_retries = 3 - int k\<rparr>, qc_timer := n\<rparr>)"

lemma query_pending_fires:
  assumes "query_pending k n txid qc rs0 rs" and "k < 3" and "\<forall>t \<in> set (armed rs0). fst t < n" and "qc_id qc = txid"
  shows "query_pending (k + 1) (n + 1) txid qc rs0 (timer_fires n rs)"
proof -
  let ?qc = "qc\<lparr>qc_backoff := \<lparr>interval = 1000 * 2 ^ (k + 1), multiplier = 2, max_retries = 3 - int k\<rparr>, qc_timer := n\<rparr>"
  have "timer_fires n rs = set_retransmit_timer ?qc (send_query ?qc (rs\<lparr>armed := armed rs0\<rparr>))"
    using assms by (intro timer_fires_newest) (auto simp: query_pending_def)
  with assms show ?thesis
    by (simp add: query_pending_def set_retransmit_timer_def send_query_def next_back_off_def Let_def replicate_append_same)
qed

lemma query_pending_gives_up:
  assumes "query_pending 3 n txid qc rs0 rs" and "\<forall>t \<in> set (armed rs0). fst t < n" and "qc_id qc = txid"
  shows "armed (timer_fires n rs) = armed rs0" "query_map (timer_fires n rs) = (query_map rs0)(txid := None)"
    "rs_log (timer_fires n rs) = rs_log rs0 @ replicate 5 (Sent (qc_buf qc)) @ [Answered txid [err_record ''Query timed out'']]"
proof -
  let ?qc = "qc\<lparr>qc_backoff := \<lparr>interval = 1000 * 2 ^ (3 + 1), multiplier = 2, max_retries = 3 - int 3\<rparr>, qc_timer := n\<rparr>"
  have "timer_fires n rs = set_retransmit_timer ?qc (send_query ?qc (rs\<lparr>armed := armed rs0\<rparr>))"
    using assms by (intro timer_fires_newest) (auto simp: query_pending_def)
  moreover have "filter (\<lambda>t. fst t \<noteq> n) (armed rs0) = armed rs0"
    using assms(2) by (auto simp: filter_id_conv)
  ultimately show "armed (timer_fires n rs) = armed rs0" "query_map (timer_fires n rs) = (query_map rs0)(txid := None)"
    "rs_log (timer_fires n rs) = rs_log rs0 @ replicate 5 (Sent (qc_buf qc)) @ [Answered txid [err_record ''Query timed out'']]"
    using assms
    by (simp_all add: query_pending_def set_retransmit_timer_def send_query_def next_back_off_def Let_def err_notify_def notify_def
        numeral_eq_Suc)
qed

lemma do_query_pending:
  assumes "query_map rs txid = None" and "pack (qc\<lparr>qc_id := txid\<rparr>) = Some qc'"
    and "qc_backoff qc = \<lparr>interval = 1000, multiplier = 2, max_retries = 4\<rparr>"
  shows "\<exists>r. do_query txid qc rs = Some r \<and> query_pending 0 (next_timer rs) txid qc' rs r"
proof -
  from assms(2) have "qc_id qc' = txid" "qc_backoff qc' = qc_backoff qc" by (auto simp: pack_def Let_def split: if_splits)
  with assms show ?thesis
    by (simp add: do_query_def query_pending_def set_retransmit_timer_def send_query_def next_back_off_def Let_def)
qed

theorem query_times_out:
  assumes "query_map rs txid = None" and "pack (qc\<lparr>qc_id := txid\<rparr>) = Some qc'"
    and "qc_backoff qc = \<lparr>interval = 1000, multiplier = 2, max_retries = 4\<rparr>"
    and "\<forall>t \<in> set (armed rs). fst t < next_timer rs"
  shows "\<exists>r. do_query txid qc rs = Some r
    \<and> (let r' = fold timer_fires [next_timer rs ..< next_timer rs + 4] r
       in rs_log r' = rs_log rs @ replicate 5 (Sent (qc_buf qc')) @ [Answered txid [err_record ''Query timed out'']]
        \<and> armed r' = armed rs \<and> query_map r' = query_map rs)"
proof -
  let ?n = "next_timer rs"
  obtain r where r: "do_query txid qc rs = Some r" "query_pending 0 ?n txid qc' rs r"
    using do_query_pending assms by blast
  have i: "qc_id qc' = txid" using assms(2) by (auto simp: pack_def Let_def split: if_splits)
  have below: "\<forall>t \<in> set (armed rs). fst t < ?n + k" for k using assms(4) by auto
  have "query_pending k (?n + k) txid qc' rs (fold timer_fires [?n ..< ?n + k] r)" if "k \<le> 3" for k
    using that
  proof (induction k)
    case (Suc k)
    then show ?case using query_pending_fires [OF _ _ below i, of k] by simp
  qed (use r in simp)
  from query_pending_gives_up [OF this [of 3] below i] assms(1) r(1) show ?thesis
    by (simp add: numeral_eq_Suc fun_upd_idem)
qed

text \<open>An entry of the cache stays until \<^verbatim>\<open>evict\<close> finds it expired: a fresh answer does not replace it.\<close>

lemma cache_put_keeps: "c name = Some a \<Longrightarrow> cache_put now name addrs ttl c = c"
  by (simp add: cache_put_def)

lemma cache_put_get: "c name = None \<Longrightarrow> map_option addr_list (cache_put now name addrs ttl c name) = Some addrs"
  by (simp add: cache_put_def)

lemma cache_evict_get: "cache_evict now c name = Some a \<longleftrightarrow> c name = Some a \<and> now < expire a"
  by (auto simp: cache_evict_def split: option.splits)

text \<open>The time to live in milliseconds is computed with 32 bits: 4294968 seconds, about 50 days, become 704 milliseconds.\<close>

lemma cache_put_wraps: "expire (the (cache_put 0 name addrs 4294968 Map.empty name)) = 704"
  by (simp add: cache_put_def)

text \<open>The mail exchanges come in the order of preference.\<close>

lemma mx_sorted:
  assumes "is_sorter sorter" and "query name TYPE_MX 1 = Inr (Some qc)" and "answer qc = Some items"
  shows "\<exists>l. get_mx_name_list sorter answer name = Inr (map snd l) \<and> mset l = mset (mx_list items) \<and> sorted (map fst l)"
  using assms by (auto simp: get_mx_name_list_def is_sorter_def)

lemma is_sorter_sort_key: "is_sorter (sort_key fst)"
  by (simp add: is_sorter_def)

text \<open>The error record does not have the type that \<^verbatim>\<open>show\<close> and the callers of \<^verbatim>\<open>query\<close> look for.\<close>

lemma error_not_shown: "show_result (Some [err_record err]) = []"
  by (simp add: show_result_def show_item_def err_record_def)

end
