(* ===== verification/Smtp.thy ===== *)
theory Smtp
  imports Buffer Base64
begin

text \<open>
  The SMTP client, \<^verbatim>\<open>src/smtplib/smtplib.cc\<close>: a mail is a task with the state of its dialogue, the replies of the server drive it.

  \<open>sent\<close> is what the task has passed to its connection, \<open>connects\<close> of the table of tasks the addresses it has tried, \<open>results\<close> the promises that were fulfilled.
  An index outside of \<^verbatim>\<open>receivers\<close> is \<open>Crash\<close>. \<open>success_means_sent\<close> and \<open>accepted_mail_succeeds\<close> relate the result to the dialogue of RFC 5321.
\<close>

section \<open>Tasks and commands\<close>

datatype smtp_state = INIT | EHLO | AUTH | MAIL | RCPT | DATA | QUIT | CLOSE

record send_task =
  task_id :: nat
  st_host :: string
  st_port :: int
  try_addrs :: "string list"
  st_state :: smtp_state
  rcpt_index :: nat
  need_auth :: bool
  st_username :: string
  st_password :: string
  st_sender :: string
  st_receivers :: "string list"
  mail_data :: string
  sent :: "string list"

definition cstr :: "string \<Rightarrow> string" where
  "cstr s = takeWhile (\<lambda>c. c \<noteq> NUL) s"

definition conn_send :: "string \<Rightarrow> send_task \<Rightarrow> send_task" where
  "conn_send s t = t\<lparr>sent := sent t @ [s]\<rparr>"

definition ehlo :: "string \<Rightarrow> send_task \<Rightarrow> send_task" where
  "ehlo hostname t = (conn_send (''EHLO '' @ hostname @ CRLF) t)\<lparr>st_state := EHLO\<rparr>"

definition auth :: "send_task \<Rightarrow> send_task" where
  "auth t = (conn_send (''AUTH LOGIN'' @ CRLF) t)\<lparr>st_state := AUTH\<rparr>"

definition do_auth :: "string \<Rightarrow> send_task \<Rightarrow> send_task" where
  "do_auth arg t =
     (let res = cstr (base64_decode Standard arg)
      in if equal_case res ''username:'' then conn_send (base64_encode Standard (st_username t) @ CRLF) t
         else if equal_case res ''password:'' then conn_send (base64_encode Standard (st_password t) @ CRLF) t
         else t)"

definition mail :: "send_task \<Rightarrow> send_task" where
  "mail t = (conn_send (''MAIL FROM:<'' @ cstr (st_sender t) @ ''>'' @ CRLF) t)\<lparr>st_state := MAIL\<rparr>"

text \<open>\<open>None\<close> when the index is out of range.\<close>

definition rcpt :: "send_task \<Rightarrow> send_task option" where
  "rcpt t =
     (if rcpt_index t \<ge> length (st_receivers t) then None
      else
        let t1 = (conn_send (''RCPT TO:<'' @ cstr (st_receivers t ! rcpt_index t) @ ''>'' @ CRLF) t)\<lparr>rcpt_index := rcpt_index t + 1\<rparr>
        in Some (if rcpt_index t1 \<ge> length (st_receivers t) then t1\<lparr>rcpt_index := 0, st_state := RCPT\<rparr> else t1))"

definition smtp_data :: "send_task \<Rightarrow> send_task" where
  "smtp_data t = (conn_send (''DATA'' @ CRLF) t)\<lparr>st_state := DATA\<rparr>"

definition do_data :: "send_task \<Rightarrow> send_task" where
  "do_data t =
     (let t1 = t\<lparr>mail_data := mail_data t @ CRLF @ ''.'' @ CRLF\<rparr> in (conn_send (mail_data t1) t1)\<lparr>st_state := QUIT\<rparr>)"

definition smtp_quit :: "send_task \<Rightarrow> send_task" where
  "smtp_quit t = (conn_send (''QUIT'' @ CRLF) t)\<lparr>st_state := CLOSE\<rparr>"

section \<open>Replies\<close>

datatype smtp_step = Go send_task | Finish | Fail | Crash

definition reply_step :: "string \<Rightarrow> send_task \<Rightarrow> buffer \<Rightarrow> nat \<Rightarrow> smtp_step" where
  "reply_step hostname t buf crlf =
     (case st_state t of
        INIT \<Rightarrow> if buf_starts_with buf ''220 '' then Go (ehlo hostname t) else Fail
      | EHLO \<Rightarrow>
          if buf_starts_with buf ''250-'' then
            Go (if buf_starts_with_case buf ''250-AUTH'' then t\<lparr>need_auth := True\<rparr> else t)
          else if buf_starts_with buf ''250 '' then Go (if need_auth t then auth t else mail t)
          else Fail
      | AUTH \<Rightarrow>
          if buf_starts_with buf ''334 '' then Go (do_auth (take (crlf - 4) (drop 4 (peek buf))) t)
          else if buf_starts_with buf ''235 '' then Go (mail t)
          else Fail
      | MAIL \<Rightarrow>
          if buf_starts_with buf ''250 '' then (case rcpt t of None \<Rightarrow> Crash | Some t' \<Rightarrow> Go t') else Fail
      | RCPT \<Rightarrow> if buf_starts_with buf ''250 '' then Go (smtp_data t) else Fail
      | DATA \<Rightarrow> if buf_starts_with buf ''354 '' then Go (do_data t) else Fail
      | QUIT \<Rightarrow> if buf_starts_with buf ''250 '' then Go (smtp_quit t) else Fail
      | CLOSE \<Rightarrow> if buf_starts_with buf ''221 '' then Finish else Fail)"

record smtp_result =
  is_ok :: bool
  err :: string

datatype smtp_outcome = Waiting send_task buffer | Done send_task smtp_result | Crashed

function task_send_mail :: "string \<Rightarrow> send_task \<Rightarrow> buffer \<Rightarrow> smtp_outcome" where
  "task_send_mail hostname t buf =
     (if readable buf = 0 then Waiting t buf
      else case find_crlf buf of
             None \<Rightarrow> Waiting t buf
           | Some crlf \<Rightarrow>
               (case reply_step hostname t buf crlf of
                  Go t' \<Rightarrow> task_send_mail hostname t' (retrieve buf (crlf + 2))
                | Finish \<Rightarrow> Done t \<lparr>is_ok = True, err = []\<rparr>
                | Fail \<Rightarrow> Done t \<lparr>is_ok = False, err = snd (c_str buf)\<rparr>
                | Crash \<Rightarrow> Crashed))"
  by pat_completeness auto
termination
  by (relation "measure (\<lambda>(hostname, t, buf). readable buf)") (auto simp: readable_retrieve_lt)

declare task_send_mail.simps [simp del]

section \<open>The table of tasks\<close>

record smtp =
  next_task :: nat
  task_map :: "nat \<rightharpoonup> send_task"
  connects :: "(nat \<times> string \<times> int) list"
  results :: "(nat \<times> smtp_result) list"

definition smtp_new :: smtp where
  "smtp_new = \<lparr>next_task = 1, task_map = Map.empty, connects = [], results = []\<rparr>"

definition set_result :: "nat \<Rightarrow> smtp_result \<Rightarrow> smtp \<Rightarrow> smtp" where
  "set_result i r s = s\<lparr>results := results s @ [(i, r)], task_map := (task_map s)(i := None)\<rparr>"

definition task_start :: "send_task \<Rightarrow> smtp \<Rightarrow> smtp" where
  "task_start t s =
     (case try_addrs t of
        [] \<Rightarrow> set_result (task_id t) \<lparr>is_ok = False, err = ''No '' @ st_host t @ '' address available''\<rparr> s
      | a # as \<Rightarrow>
          s\<lparr>task_map := (task_map s)(task_id t \<mapsto> t\<lparr>try_addrs := as\<rparr>), connects := connects s @ [(task_id t, a, st_port t)]\<rparr>)"

text \<open>\<open>addrs\<close> is what the resolver found for the host within ten seconds.\<close>

definition send_mail :: "string list \<Rightarrow> string \<Rightarrow> int \<Rightarrow> string \<Rightarrow> string \<Rightarrow> string \<Rightarrow> string list \<Rightarrow> string \<Rightarrow> smtp \<Rightarrow> smtp" where
  "send_mail addrs hst port username password sender receivers data s =
     (let t = \<lparr>task_id = next_task s, st_host = hst, st_port = port, try_addrs = addrs, st_state = INIT, rcpt_index = 0,
               need_auth = False, st_username = username, st_password = password, st_sender = sender, st_receivers = receivers,
               mail_data = data, sent = []\<rparr>;
          s1 = s\<lparr>next_task := next_task s + 1, task_map := (task_map s)(task_id t \<mapsto> t)\<rparr>
      in if addrs = [] then set_result (task_id t) \<lparr>is_ok = False, err = ''dns resolve timeout for '' @ hst\<rparr> s1
         else task_start t s1)"

text \<open>The timer of a connection that is not established after ten seconds, and a message of the server.\<close>

definition connection_timeout :: "bool \<Rightarrow> nat \<Rightarrow> smtp \<Rightarrow> smtp" where
  "connection_timeout is_connected i s = (if is_connected then s else case task_map s i of None \<Rightarrow> s | Some t \<Rightarrow> task_start t s)"

definition smtp_message :: "string \<Rightarrow> nat \<Rightarrow> buffer \<Rightarrow> smtp \<Rightarrow> (buffer \<times> smtp) option" where
  "smtp_message hostname i buf s =
     (case task_map s i of
        None \<Rightarrow> None
      | Some t \<Rightarrow>
          (case task_send_mail hostname t buf of
             Waiting t' buf' \<Rightarrow> Some (buf', s\<lparr>task_map := (task_map s)(i \<mapsto> t')\<rparr>)
           | Done t' r \<Rightarrow> Some (buf, set_result i r s)
           | Crashed \<Rightarrow> None))"

section \<open>What was sent when a mail succeeds\<close>

text \<open>The replies arrive in portions.\<close>

fun smtp_feed :: "string \<Rightarrow> send_task \<Rightarrow> buffer \<Rightarrow> string list \<Rightarrow> smtp_outcome" where
  "smtp_feed hostname t buf [] = Waiting t buf"
| "smtp_feed hostname t buf (p # ps) =
     (case task_send_mail hostname t (append_buf buf p) of
        Waiting t' buf' \<Rightarrow> smtp_feed hostname t' buf' ps
      | r \<Rightarrow> r)"

definition fresh_task :: "send_task \<Rightarrow> bool" where
  "fresh_task t \<longleftrightarrow> st_state t = INIT \<and> rcpt_index t = 0 \<and> \<not> need_auth t \<and> sent t = []"

definition rcpt_cmd :: "string \<Rightarrow> string" where
  "rcpt_cmd r = ''RCPT TO:<'' @ cstr r @ ''>'' @ CRLF"

definition user_cmd :: "send_task \<Rightarrow> string" where
  "user_cmd t = base64_encode Standard (st_username t) @ CRLF"

definition pass_cmd :: "send_task \<Rightarrow> string" where
  "pass_cmd t = base64_encode Standard (st_password t) @ CRLF"

text \<open>The dialogue up to the recipients, and up to the end. \<open>au\<close> is the authentication: none, or \<^verbatim>\<open>AUTH LOGIN\<close> and the credentials the server asks for.\<close>

definition preamble :: "string \<Rightarrow> send_task \<Rightarrow> string list \<Rightarrow> string list" where
  "preamble hostname t au = (''EHLO '' @ hostname @ CRLF) # au @ [''MAIL FROM:<'' @ cstr (st_sender t) @ ''>'' @ CRLF]"

definition transcript :: "string \<Rightarrow> send_task \<Rightarrow> string list \<Rightarrow> string list" where
  "transcript hostname t au =
     preamble hostname t au @ map rcpt_cmd (st_receivers t) @ [''DATA'' @ CRLF, mail_data t @ CRLF @ ''.'' @ CRLF, ''QUIT'' @ CRLF]"

definition login :: "send_task \<Rightarrow> string list \<Rightarrow> bool" where
  "login t cs \<longleftrightarrow> (\<exists>creds. cs = (''AUTH LOGIN'' @ CRLF) # creds \<and> set creds \<subseteq> {user_cmd t, pass_cmd t})"

definition logged_in :: "send_task \<Rightarrow> send_task \<Rightarrow> string list \<Rightarrow> bool" where
  "logged_in t t0 au \<longleftrightarrow> (if need_auth t then login t0 au else au = [])"

definition same_mail :: "send_task \<Rightarrow> send_task \<Rightarrow> bool" where
  "same_mail t0 t \<longleftrightarrow> st_username t = st_username t0 \<and> st_password t = st_password t0 \<and> st_sender t = st_sender t0
     \<and> st_receivers t = st_receivers t0 \<and> (st_state t \<notin> {QUIT, CLOSE} \<longrightarrow> mail_data t = mail_data t0)"

definition dialogue :: "string \<Rightarrow> send_task \<Rightarrow> send_task \<Rightarrow> bool" where
  "dialogue hostname t0 t \<longleftrightarrow> same_mail t0 t \<and> (st_state t \<noteq> MAIL \<longrightarrow> rcpt_index t = 0) \<and>
     (case st_state t of
        INIT \<Rightarrow> sent t = [] \<and> \<not> need_auth t
      | EHLO \<Rightarrow> sent t = [''EHLO '' @ hostname @ CRLF]
      | AUTH \<Rightarrow> need_auth t \<and> (\<exists>au. login t0 au \<and> sent t = (''EHLO '' @ hostname @ CRLF) # au)
      | MAIL \<Rightarrow> rcpt_index t \<le> length (st_receivers t0) \<and> (\<exists>au. logged_in t t0 au \<and>
          sent t = preamble hostname t0 au @ map rcpt_cmd (take (rcpt_index t) (st_receivers t0)))
      | st \<Rightarrow> (\<exists>au. logged_in t t0 au \<and>
          sent t @ drop (case st of RCPT \<Rightarrow> 0 | DATA \<Rightarrow> 1 | QUIT \<Rightarrow> 2 | _ \<Rightarrow> 3)
            [''DATA'' @ CRLF, mail_data t0 @ CRLF @ ''.'' @ CRLF, ''QUIT'' @ CRLF] = transcript hostname t0 au))"

lemma dialogue_do_auth:
  assumes "dialogue hostname t0 t" and "st_state t = AUTH"
  shows "dialogue hostname t0 (do_auth arg t)"
proof -
  from assms obtain au where au: "login t0 au" "sent t = (''EHLO '' @ hostname @ CRLF) # au" by (auto simp: dialogue_def)
  then have "login t0 (au @ [user_cmd t0])" "login t0 (au @ [pass_cmd t0])" by (auto simp: login_def)
  with assms au show ?thesis
    by (auto simp: do_auth_def Let_def dialogue_def conn_send_def same_mail_def user_cmd_def pass_cmd_def)
qed

lemma dialogue_rcpt:
  assumes "dialogue hostname t0 t" and "st_state t = MAIL" and "rcpt t = Some t'"
  shows "dialogue hostname t0 t'"
proof -
  let ?i = "rcpt_index t"
  from assms(1,2) obtain au where au: "logged_in t t0 au"
      "sent t = preamble hostname t0 au @ map rcpt_cmd (take ?i (st_receivers t0))"
    and same: "same_mail t0 t"
    by (auto simp: dialogue_def)
  from same assms(3) have i: "?i < length (st_receivers t0)" by (auto simp: rcpt_def same_mail_def split: if_splits)
  have tk: "map rcpt_cmd (take (Suc ?i) (st_receivers t0)) = map rcpt_cmd (take ?i (st_receivers t0)) @ [rcpt_cmd (st_receivers t0 ! ?i)]"
    using i by (simp add: take_Suc_conv_app_nth)
  have sent: "sent t' = preamble hostname t0 au @ map rcpt_cmd (take (Suc ?i) (st_receivers t0))"
    unfolding tk using au same assms(3) i
    by (auto simp: rcpt_def same_mail_def Let_def conn_send_def rcpt_cmd_def split: if_splits)
  show ?thesis
  proof (cases "Suc ?i < length (st_receivers t0)")
    case True
    with au same assms(2,3) sent show ?thesis
      by (auto simp: dialogue_def rcpt_def same_mail_def Let_def conn_send_def logged_in_def split: if_splits)
  next
    case False
    then have "take (Suc ?i) (st_receivers t0) = st_receivers t0" by simp
    with False au same assms(2,3) i sent show ?thesis
      by (auto simp: dialogue_def rcpt_def same_mail_def Let_def conn_send_def logged_in_def transcript_def split: if_splits)
  qed
qed

lemma dialogue_step:
  assumes d: "dialogue hostname t0 t" and "reply_step hostname t buf crlf = Go t'"
  shows "dialogue hostname t0 t'"
proof (cases "st_state t")
  case AUTH
  with assms show ?thesis
    by (auto simp: reply_step_def dialogue_do_auth split: if_splits)
      (auto simp: dialogue_def mail_def conn_send_def same_mail_def preamble_def logged_in_def)
next
  case MAIL
  with assms show ?thesis
    by (auto simp: reply_step_def dialogue_rcpt split: if_splits option.splits)
next
  case EHLO
  with assms show ?thesis
    by (auto simp: reply_step_def dialogue_def mail_def auth_def conn_send_def same_mail_def preamble_def login_def logged_in_def split: if_splits)
qed (use assms in \<open>auto simp: reply_step_def dialogue_def ehlo_def smtp_data_def do_data_def smtp_quit_def conn_send_def
       same_mail_def logged_in_def Let_def split: if_splits\<close>)

lemma dialogue_task:
  "dialogue hostname t0 t \<Longrightarrow>
   (case task_send_mail hostname t buf of
      Waiting t' buf' \<Rightarrow> dialogue hostname t0 t'
    | Done t' r \<Rightarrow> dialogue hostname t0 t' \<and> (is_ok r \<longrightarrow> st_state t' = CLOSE)
    | Crashed \<Rightarrow> True)"
proof (induction hostname t buf rule: task_send_mail.induct)
  case (1 hostname t buf)
  show ?case
  proof (cases "readable buf = 0 \<or> find_crlf buf = None")
    case True
    with 1(2) show ?thesis by (subst task_send_mail.simps) auto
  next
    case False
    then obtain crlf where c: "readable buf \<noteq> 0" "find_crlf buf = Some crlf" by blast
    show ?thesis
    proof (cases "reply_step hostname t buf crlf")
      case (Go t')
      with 1 c dialogue_step [OF 1(2) Go] show ?thesis by (subst task_send_mail.simps) simp
    next
      case Finish
      then have "st_state t = CLOSE"
        by (cases "st_state t") (auto simp: reply_step_def split: if_splits option.splits)
      with Finish 1(2) c show ?thesis by (subst task_send_mail.simps) simp
    qed (use 1(2) c in \<open>subst task_send_mail.simps; simp\<close>)+
  qed
qed

lemma dialogue_feed:
  "dialogue hostname t0 t \<Longrightarrow> smtp_feed hostname t buf ps = Done t' r
   \<Longrightarrow> dialogue hostname t0 t' \<and> (is_ok r \<longrightarrow> st_state t' = CLOSE)"
proof (induction ps arbitrary: t buf)
  case (Cons p ps)
  from dialogue_task [OF Cons.prems(1), of "append_buf buf p"] Cons show ?case
    by (auto split: smtp_outcome.splits)
qed simp

text \<open>
  C24: whatever the server answers and in whatever portions, a mail is reported as sent only after the whole dialogue: the greeting,
  the authentication if and only if the server announced it, the sender, every recipient in order, the data with its final dot, and the end of the session.
\<close>

theorem success_means_sent:
  assumes "fresh_task t" and "smtp_feed hostname t buf ps = Done t' r" and "is_ok r"
  shows "\<exists>au. sent t' = transcript hostname t au \<and> logged_in t' t au"
proof -
  from assms(1) have "dialogue hostname t t" by (simp add: dialogue_def fresh_task_def same_mail_def)
  from dialogue_feed [OF this assms(2)] assms(3) show ?thesis by (auto simp: dialogue_def)
qed

section \<open>Replies as lines\<close>

text \<open>A command looks only at the line in front: what a reply does in terms of its line.\<close>

definition line_step :: "string \<Rightarrow> send_task \<Rightarrow> string \<Rightarrow> smtp_step" where
  "line_step hostname t l =
     (case st_state t of
        INIT \<Rightarrow> if prefix ''220 '' l then Go (ehlo hostname t) else Fail
      | EHLO \<Rightarrow>
          if prefix ''250-'' l then Go (if starts_with_case l ''250-AUTH'' then t\<lparr>need_auth := True\<rparr> else t)
          else if prefix ''250 '' l then Go (if need_auth t then auth t else mail t)
          else Fail
      | AUTH \<Rightarrow>
          if prefix ''334 '' l then Go (do_auth (drop 4 l) t) else if prefix ''235 '' l then Go (mail t) else Fail
      | MAIL \<Rightarrow> if prefix ''250 '' l then (case rcpt t of None \<Rightarrow> Crash | Some t' \<Rightarrow> Go t') else Fail
      | RCPT \<Rightarrow> if prefix ''250 '' l then Go (smtp_data t) else Fail
      | DATA \<Rightarrow> if prefix ''354 '' l then Go (do_data t) else Fail
      | QUIT \<Rightarrow> if prefix ''250 '' l then Go (smtp_quit t) else Fail
      | CLOSE \<Rightarrow> if prefix ''221 '' l then Finish else Fail)"

fun line_run :: "string \<Rightarrow> send_task \<Rightarrow> string list \<Rightarrow> send_task \<times> smtp_step option" where
  "line_run hostname t [] = (t, None)"
| "line_run hostname t (l # ls) = (case line_step hostname t l of Go t' \<Rightarrow> line_run hostname t' ls | r \<Rightarrow> (t, Some r))"

definition wire :: "string list \<Rightarrow> string" where
  "wire ls = concat (map (\<lambda>l. l @ CRLF) ls)"

lemma reply_wire_simps [simp]: "wire [] = []" "wire (l # ls) = l @ CR # LF # wire ls"
  by (simp_all add: wire_def)

lemma prefix_line: "CR \<notin> set p \<Longrightarrow> prefix p (l @ CR # s) \<longleftrightarrow> prefix p l"
  by (induction p arbitrary: l) (auto simp: prefix_def Cons_eq_append_conv append_eq_Cons_conv)

lemma strncase_line:
  "\<forall>y \<in> set p. tolower NUL \<noteq> tolower y \<and> tolower CR \<noteq> tolower y \<Longrightarrow>
   strncase_eq (l @ CR # s) p (length p) \<longleftrightarrow> length p \<le> length l \<and> strncase_eq l p (length p)"
proof (induction p arbitrary: l)
  case (Cons y p)
  note IH = Cons.IH and pr = Cons.prems
  show ?case
  proof (cases l)
    case Nil
    with pr show ?thesis by simp
  next
    case (Cons x xs)
    show ?thesis
    proof (cases "tolower x = tolower y")
      case True
      with pr have "x \<noteq> NUL" by auto
      with True Cons IH [of xs] pr show ?thesis by simp
    qed (simp add: Cons)
  qed
qed simp

lemma starts_with_case_line:
  assumes "buffer_wf buf" and "peek buf = l @ CR # LF # s"
  shows "buf_starts_with_case buf ''250-AUTH'' \<longleftrightarrow> starts_with_case l ''250-AUTH''"
proof -
  have ok: "\<forall>y \<in> set ''250-AUTH''. tolower NUL \<noteq> tolower y \<and> tolower CR \<noteq> tolower y" by code_simp
  have "readable buf = length l + 2 + length s" using assms length_peek [OF assms(1)] by simp
  with strncase_line [OF ok, of l "LF # s"] show ?thesis
    by (auto simp: buf_starts_with_case_def starts_with_case_def assms(2) simp del: strncase_eq.simps)
qed

lemma reply_step_line:
  assumes "buffer_wf buf" and "peek buf = l @ CR # LF # s"
  shows "reply_step hostname t buf (length l) = line_step hostname t l"
proof -
  have pre: "buf_starts_with buf p \<longleftrightarrow> prefix p l" if "CR \<notin> set p" for p
    using assms that by (simp add: buf_starts_with_iff prefix_line)
  have "take (length l - 4) (drop 4 (peek buf)) = drop 4 l" if "prefix ''334 '' l"
    using that assms(2) by (auto simp: prefix_def)
  then show ?thesis
    by (cases "st_state t") (simp_all add: reply_step_def line_step_def pre starts_with_case_line [OF assms])
qed

lemma task_line_go:
  assumes "buffer_wf buf" and "peek buf = l @ CR # LF # s" and "CR \<notin> set l"
  shows "task_send_mail hostname t buf =
    (case line_step hostname t l of
       Go t' \<Rightarrow> task_send_mail hostname t' (retrieve buf (length l + 2))
     | Finish \<Rightarrow> Done t \<lparr>is_ok = True, err = []\<rparr>
     | Fail \<Rightarrow> Done t \<lparr>is_ok = False, err = snd (c_str buf)\<rparr>
     | Crash \<Rightarrow> Crashed)"
proof -
  have "find_crlf buf = Some (length l)" using assms by (simp add: find_crlf_search search_CRLF_line)
  moreover have "readable buf \<noteq> 0" using assms(2) length_peek [OF assms(1)] by simp
  ultimately show ?thesis
    by (subst task_send_mail.simps) (simp add: reply_step_line [OF assms(1,2)])
qed

lemma task_lines_wait:
  assumes "buffer_wf buf" and "peek buf = wire ls @ r" and "\<forall>l \<in> set ls. CR \<notin> set l" and "search CRLF r = None"
    and "line_run hostname t ls = (t', None)"
  shows "\<exists>buf'. task_send_mail hostname t buf = Waiting t' buf' \<and> buffer_wf buf' \<and> peek buf' = r"
  using assms
proof (induction ls arbitrary: t buf)
  case Nil
  then have "find_crlf buf = None" by (simp add: find_crlf_search)
  with Nil show ?case by (subst task_send_mail.simps) auto
next
  case (Cons l ls)
  then obtain t1 where t1: "line_step hostname t l = Go t1" "line_run hostname t1 ls = (t', None)"
    by (auto split: smtp_step.splits)
  have "peek (retrieve buf (length l + 2)) = wire ls @ r" using Cons.prems(2) by (simp add: retrieve_peek)
  with Cons t1 show ?case
    by (simp add: task_line_go [where s = "wire ls @ r"] retrieve_wf)
qed

lemma task_lines_finish:
  assumes "buffer_wf buf" and "peek buf = wire ls @ r" and "\<forall>l \<in> set ls. CR \<notin> set l"
    and "line_run hostname t ls = (t', Some Finish)"
  shows "task_send_mail hostname t buf = Done t' \<lparr>is_ok = True, err = []\<rparr>"
  using assms
proof (induction ls arbitrary: t buf)
  case (Cons l ls)
  have "peek (retrieve buf (length l + 2)) = wire ls @ r" using Cons.prems(2) by (simp add: retrieve_peek)
  with Cons show ?case
    by (auto simp: task_line_go [where s = "wire ls @ r"] retrieve_wf split: smtp_step.splits)
qed simp

text \<open>A portion of the stream ends inside some line.\<close>

lemma wire_portion:
  assumes "x @ y = wire ls" and "\<forall>l \<in> set ls. CR \<notin> set l"
  shows "\<exists>ls1 ls2 r. ls = ls1 @ ls2 \<and> x = wire ls1 @ r \<and> r @ y = wire ls2 \<and> search CRLF r = None"
  using assms
proof (induction ls arbitrary: x)
  case (Cons l ls)
  show ?case
  proof (cases "length l + 2 \<le> length x")
    case True
    then obtain x' where x: "x = l @ CR # LF # x'"
      using Cons.prems(1) by (auto simp: append_eq_append_conv2 append_eq_Cons_conv Cons_eq_append_conv)
    with Cons.prems have "x' @ y = wire ls" by simp
    with Cons.IH [of x'] Cons.prems(2) obtain ls1 ls2 r where
        "ls = ls1 @ ls2" "x' = wire ls1 @ r" "r @ y = wire ls2" "search CRLF r = None" by auto
    then have "l # ls = (l # ls1) @ ls2 \<and> x = wire (l # ls1) @ r \<and> r @ y = wire ls2 \<and> search CRLF r = None" using x by simp
    then show ?thesis by blast
  next
    case False
    have "search CRLF x = None"
    proof (rule ccontr)
      assume "search CRLF x \<noteq> None"
      then obtain i where i: "search CRLF x = Some i" by blast
      then have "search CRLF (l @ CR # LF # wire ls) = Some i" using Cons.prems(1) search_append_Some [OF i, of y] by simp
      with Cons.prems(2) have "i = length l" by (simp add: search_CRLF_line)
      with search_Some_le [OF i] False show False by simp
    qed
    then show ?thesis using Cons.prems(1) by (intro exI [of _ "[]"] exI [of _ "l # ls"] exI [of _ x]) simp
  qed
qed simp

lemma line_run_append:
  "line_run hostname t (ls1 @ ls2) =
   (case line_run hostname t ls1 of (t', None) \<Rightarrow> line_run hostname t' ls2 | r \<Rightarrow> r)"
  by (induction ls1 arbitrary: t) (auto split: smtp_step.splits)

lemma line_run_seq:
  "line_run hostname t xs = (t1, None) \<Longrightarrow> line_run hostname t1 ys = (t2, None) \<Longrightarrow> line_run hostname t2 zs = r
   \<Longrightarrow> line_run hostname t (xs @ (ys @ zs)) = r"
  by (simp add: line_run_append)

lemma feed_lines:
  assumes "buffer_wf buf" and "peek buf @ concat ps = wire ls" and "search CRLF (peek buf) = None" and "\<forall>l \<in> set ls. CR \<notin> set l"
    and "line_run hostname t ls = (t', Some Finish)" 
  shows "smtp_feed hostname t buf ps = Done t' \<lparr>is_ok = True, err = []\<rparr>"
  using assms
proof (induction ps arbitrary: t buf ls)
  case Nil
  then show ?case by (cases ls) (auto simp: search_CRLF_line)
next
  case (Cons p ps)
  have b: "buffer_wf (append_buf buf p)" "peek (append_buf buf p) = peek buf @ p"
    using Cons.prems(1) by (simp_all add: append_buf_wf append_buf_peek)
  have "(peek buf @ p) @ concat ps = wire ls" using Cons.prems(2) by simp
  then obtain ls1 ls2 r where ls: "ls = ls1 @ ls2" "peek buf @ p = wire ls1 @ r" "r @ concat ps = wire ls2" "search CRLF r = None"
    using wire_portion Cons.prems(4) by blast
  show ?case
  proof (cases "line_run hostname t ls1")
    case (Pair t1 o1)
    show ?thesis
    proof (cases o1)
      case None
      with Pair b ls Cons.prems obtain buf' where
          "task_send_mail hostname t (append_buf buf p) = Waiting t1 buf'" "buffer_wf buf'" "peek buf' = r"
        using task_lines_wait [of "append_buf buf p" ls1 r hostname t t1] by auto
      with Cons.IH [of buf' ls2 t1] Cons.prems Pair None ls show ?thesis by (simp add: line_run_append)
    next
      case (Some st)
      with Pair Cons.prems ls have "line_run hostname t ls1 = (t', Some Finish)" by (simp add: line_run_append)
      with b ls Cons.prems show ?thesis using task_lines_finish [of "append_buf buf p" ls1 r hostname t t'] by simp
    qed
  qed
qed

section \<open>A server that accepts the mail\<close>

definition reply :: "string \<Rightarrow> string \<Rightarrow> string" where
  "reply num txt = num @ txt"

lemma prefix_reply [simp]: "length p = length c \<Longrightarrow> prefix p (reply c x) \<longleftrightarrow> p = c"
  by (auto simp: reply_def prefix_def)

definition announces_auth :: "string list \<Rightarrow> bool" where
  "announces_auth exts = list_ex (\<lambda>x. starts_with_case (reply ''250-'' x) ''250-AUTH'') exts"

text \<open>The replies of RFC 5321 and RFC 4954: the texts are free, the challenges are \<^verbatim>\<open>Username:\<close> and \<^verbatim>\<open>Password:\<close> in base64.\<close>

definition accepting_replies ::
  "string \<Rightarrow> string list \<Rightarrow> string \<Rightarrow> string \<Rightarrow> string list \<Rightarrow> string \<Rightarrow> string \<Rightarrow> string \<Rightarrow> string list" where
  "accepting_replies greet exts last_ext authok oks start queued bye =
     [reply ''220 '' greet] @ map (reply ''250-'') exts @ [reply ''250 '' last_ext]
     @ (if announces_auth exts then [''334 VXNlcm5hbWU6'', ''334 UGFzc3dvcmQ6'', reply ''235 '' authok] else [])
     @ map (reply ''250 '') oks @ [reply ''354 '' start, reply ''250 '' queued, reply ''221 '' bye]"

lemma challenges:
  "equal_case (cstr (base64_decode Standard ''VXNlcm5hbWU6'')) ''username:''"
  "\<not> equal_case (cstr (base64_decode Standard ''UGFzc3dvcmQ6'')) ''username:''"
  "equal_case (cstr (base64_decode Standard ''UGFzc3dvcmQ6'')) ''password:''"
  by code_simp+

lemma run_exts:
  "st_state t = EHLO \<Longrightarrow>
   line_run hostname t (map (reply ''250-'') exts) = (t\<lparr>need_auth := need_auth t \<or> announces_auth exts\<rparr>, None)"
  by (induction exts arbitrary: t) (auto simp: line_step_def announces_auth_def)

lemma rcpt_index_update: "t\<lparr>rcpt_index := rcpt_index t\<rparr> = t"
  by simp

lemma run_rcpts:
  "st_state t = MAIL \<Longrightarrow> rcpt_index t < length (st_receivers t) \<Longrightarrow> length oks = length (st_receivers t) - rcpt_index t \<Longrightarrow>
   line_run hostname t (map (reply ''250 '') oks) =
     (t\<lparr>sent := sent t @ map rcpt_cmd (drop (rcpt_index t) (st_receivers t)), rcpt_index := 0, st_state := RCPT\<rparr>, None)"
proof (induction oks arbitrary: t)
  case (Cons ok oks)
  let ?i = "rcpt_index t" and ?rs = "st_receivers t"
  have dr: "drop ?i ?rs = (?rs ! ?i) # drop (Suc ?i) ?rs" using Cons.prems(2) by (simp add: Cons_nth_drop_Suc)
  show ?case
  proof (cases "Suc ?i < length ?rs")
    case True
    let ?t = "t\<lparr>sent := sent t @ [rcpt_cmd (?rs ! ?i)], rcpt_index := Suc ?i\<rparr>"
    have "rcpt t = Some ?t" using True by (simp add: rcpt_def Let_def conn_send_def rcpt_cmd_def)
    moreover have "line_run hostname ?t (map (reply ''250 '') oks) =
      (?t\<lparr>sent := sent ?t @ map rcpt_cmd (drop (Suc ?i) ?rs), rcpt_index := 0, st_state := RCPT\<rparr>, None)"
      using Cons.prems True by (subst Cons.IH) (simp_all)
    ultimately show ?thesis using Cons.prems by (simp add: line_step_def dr)
  next
    case False
    then have l: "Suc ?i = length ?rs" using Cons.prems(2) by simp
    then have "rcpt t = Some (t\<lparr>sent := sent t @ [rcpt_cmd (?rs ! ?i)], rcpt_index := 0, st_state := RCPT\<rparr>)"
      by (simp add: rcpt_def Let_def conn_send_def rcpt_cmd_def)
    moreover have "length oks = 0" using l Cons.prems(3) unfolding list.size by arith
    then have "oks = []" by simp
    ultimately show ?thesis using Cons.prems(1) l by (simp add: line_step_def dr)
  qed
qed simp

lemma run_mail:
  assumes "st_state t = MAIL" and "rcpt_index t = 0" and "st_receivers t \<noteq> []" and "length oks = length (st_receivers t) + 1"
  shows "\<exists>t'. line_run hostname t (map (reply ''250 '') oks @ [reply ''354 '' start, reply ''250 '' queued, reply ''221 '' bye]) = (t', Some Finish)
    \<and> sent t' = sent t @ map rcpt_cmd (st_receivers t) @ [''DATA'' @ CRLF, mail_data t @ CRLF @ ''.'' @ CRLF, ''QUIT'' @ CRLF]"
proof -
  from assms(4) obtain oks' ok where oks: "oks = oks' @ [ok]" "length oks' = length (st_receivers t)"
    by (metis Suc_eq_plus1 append_butlast_last_id diff_Suc_1 length_0_conv length_butlast nat.distinct(1))
  have "line_run hostname t (map (reply ''250 '') oks') =
      (t\<lparr>sent := sent t @ map rcpt_cmd (st_receivers t), rcpt_index := 0, st_state := RCPT\<rparr>, None)"
    using run_rcpts [of t oks' hostname] assms oks by simp
  then show ?thesis
    by (simp add: oks line_run_append line_step_def smtp_data_def do_data_def smtp_quit_def conn_send_def Let_def)
qed

lemma run_accepted:
  assumes f: "fresh_task t" and r: "st_receivers t \<noteq> []" and n: "length oks = length (st_receivers t) + 1"
  shows "\<exists>t'. line_run hostname t (accepting_replies greet exts last_ext authok oks start queued bye) = (t', Some Finish)
    \<and> sent t' = transcript hostname t
        (if announces_auth exts then [''AUTH LOGIN'' @ CRLF, user_cmd t, pass_cmd t] else [])"
proof -
  let ?a = "announces_auth exts"
  define t1 where "t1 = t\<lparr>sent := [''EHLO '' @ hostname @ CRLF], st_state := EHLO, need_auth := ?a\<rparr>"
  define au where "au = (if ?a then [''AUTH LOGIN'' @ CRLF, user_cmd t, pass_cmd t] else [])"
  define t2 where "t2 = t1\<lparr>sent := preamble hostname t au, st_state := MAIL\<rparr>"
  have one: "line_run hostname t ([reply ''220 '' greet] @ map (reply ''250-'') exts) = (t1, None)"
    using f run_exts [of "ehlo hostname t" hostname exts]
    by (simp add: line_step_def fresh_task_def t1_def) (simp add: ehlo_def conn_send_def)
  have two: "line_run hostname t1 ([reply ''250 '' last_ext]
      @ (if ?a then [''334 VXNlcm5hbWU6'', ''334 UGFzc3dvcmQ6'', reply ''235 '' authok] else [])) = (t2, None)"
    by (simp add: t2_def t1_def au_def line_step_def auth_def mail_def do_auth_def challenges conn_send_def Let_def preamble_def user_cmd_def pass_cmd_def)
  have split: "accepting_replies greet exts last_ext authok oks start queued bye =
      ([reply ''220 '' greet] @ map (reply ''250-'') exts)
      @ (([reply ''250 '' last_ext] @ (if ?a then [''334 VXNlcm5hbWU6'', ''334 UGFzc3dvcmQ6'', reply ''235 '' authok] else []))
        @ (map (reply ''250 '') oks @ [reply ''354 '' start, reply ''250 '' queued, reply ''221 '' bye]))"
    by (simp add: accepting_replies_def)
  have t2: "st_state t2 = MAIL" "rcpt_index t2 = 0" "st_receivers t2 = st_receivers t" "mail_data t2 = mail_data t"
      "sent t2 = preamble hostname t au"
    using f by (simp_all add: t2_def t1_def fresh_task_def)
  obtain t' where "line_run hostname t2 (map (reply ''250 '') oks @ [reply ''354 '' start, reply ''250 '' queued, reply ''221 '' bye]) = (t', Some Finish)"
      "sent t' = sent t2 @ map rcpt_cmd (st_receivers t2) @ [''DATA'' @ CRLF, mail_data t2 @ CRLF @ ''.'' @ CRLF, ''QUIT'' @ CRLF]"
    using run_mail [of t2 oks hostname start queued bye] r n t2(1-3) by auto
  with line_run_seq [OF one two] show ?thesis
    unfolding split au_def [symmetric] transcript_def t2 by blast
qed


section \<open>Witnesses\<close>

definition sample_task :: send_task where
  "sample_task = \<lparr>task_id = 1, st_host = ''mx'', st_port = 25, try_addrs = [], st_state = INIT, rcpt_index = 0, need_auth = False,
     st_username = ''u'', st_password = ''p'', st_sender = ''a@x'', st_receivers = [''b@y''], mail_data = ''hi'', sent = []\<rparr>"

definition sample_replies :: "string list" where
  "sample_replies = accepting_replies ''mx'' [''AUTH LOGIN''] ''ok'' ''ok'' [''ok'', ''ok''] ''go'' ''ok'' ''bye''"


theorem success_means_sent_witness:
  "\<exists>t' r au. smtp_feed ''h'' sample_task (buffer_new 0) [wire sample_replies] = Done t' r \<and> is_ok r
    \<and> sent t' = transcript ''h'' sample_task au \<and> logged_in t' sample_task au"
proof -
  have f: "fresh_task sample_task" "st_receivers sample_task \<noteq> []" "length [''ok'', ''ok''] = length (st_receivers sample_task) + 1"
    by (simp_all add: sample_task_def fresh_task_def)
  have cr: "\<forall>l \<in> set sample_replies. CR \<notin> set l"
    by (auto simp: sample_replies_def accepting_replies_def reply_def)
  obtain t' where "line_run ''h'' sample_task sample_replies = (t', Some Finish)"
    using run_accepted [OF f] unfolding sample_replies_def by blast
  then have "smtp_feed ''h'' sample_task (buffer_new 0) [wire sample_replies] = Done t' \<lparr>is_ok = True, err = []\<rparr>"
    using cr by (intro feed_lines) (simp_all add: buffer_new_wf buffer_new_peek)
  with success_means_sent [OF f(1) this] show ?thesis by fastforce
qed

section \<open>Results\<close>

text \<open>A promise is fulfilled at most once, and a task with a result is gone.\<close>

definition smtp_inv :: "smtp \<Rightarrow> bool" where
  "smtp_inv s \<longleftrightarrow> distinct (map fst (results s)) \<and> (\<forall>i \<in> fst ` set (results s). task_map s i = None \<and> i < next_task s)
     \<and> (\<forall>i t. task_map s i = Some t \<longrightarrow> task_id t = i \<and> i < next_task s)"

lemma smtp_inv_new: "smtp_inv smtp_new"
  by (simp add: smtp_inv_def smtp_new_def)

lemma smtp_inv_result: "smtp_inv s \<Longrightarrow> task_map s i \<noteq> None \<Longrightarrow> smtp_inv (set_result i r s)"
  by (auto simp: smtp_inv_def set_result_def)

lemma smtp_inv_start: "smtp_inv s \<Longrightarrow> task_map s (task_id t) \<noteq> None \<Longrightarrow> smtp_inv (task_start t s)"
  by (auto simp: task_start_def smtp_inv_result split: list.split) (auto simp: smtp_inv_def)

lemma smtp_inv_send_mail: "smtp_inv s \<Longrightarrow> smtp_inv (send_mail addrs hst port user pw from rcv d s)"
  by (auto simp: send_mail_def Let_def intro!: smtp_inv_result smtp_inv_start) (fastforce simp: smtp_inv_def)+

lemma task_id_step: "reply_step hostname t buf crlf = Go t' \<Longrightarrow> task_id t' = task_id t"
  by (cases "st_state t") (auto simp: reply_step_def ehlo_def auth_def do_auth_def mail_def rcpt_def smtp_data_def do_data_def
      smtp_quit_def conn_send_def Let_def split: if_splits option.splits)

lemma task_id_send_mail: "task_send_mail hostname t buf = Waiting t' buf' \<Longrightarrow> task_id t' = task_id t"
proof (induction hostname t buf rule: task_send_mail.induct)
  case (1 hostname t buf)
  from 1(2) show ?case
    using 1(1) task_id_step
    by (subst (asm) task_send_mail.simps) (fastforce split: if_splits option.splits smtp_step.splits)
qed

lemma smtp_inv_message: "smtp_inv s \<Longrightarrow> smtp_message hostname i buf s = Some (buf', s') \<Longrightarrow> smtp_inv s'"
  by (auto simp: smtp_message_def split: option.splits smtp_outcome.splits intro!: smtp_inv_result dest!: task_id_send_mail)
    (auto simp: smtp_inv_def)

lemma smtp_inv_timeout: "smtp_inv s \<Longrightarrow> smtp_inv (connection_timeout c i s)"
proof (cases "task_map s i")
  case (Some t)
  assume "smtp_inv s"
  moreover from this Some have "task_id t = i" by (auto simp: smtp_inv_def)
  ultimately show ?thesis using Some by (simp add: connection_timeout_def smtp_inv_start)
qed (simp add: connection_timeout_def)

datatype smtp_call = Mail "string list" string int string string string "string list" string | Timeout bool nat | Message nat buffer

fun smtp_exec :: "string \<Rightarrow> smtp_call \<Rightarrow> smtp \<Rightarrow> smtp option" where
  "smtp_exec hostname (Mail addrs hst port user pw from rcv d) s = Some (send_mail addrs hst port user pw from rcv d s)"
| "smtp_exec hostname (Timeout c i) s = Some (connection_timeout c i s)"
| "smtp_exec hostname (Message i buf) s = map_option snd (smtp_message hostname i buf s)"

fun smtp_run :: "string \<Rightarrow> smtp_call list \<Rightarrow> smtp \<Rightarrow> smtp option" where
  "smtp_run hostname [] s = Some s"
| "smtp_run hostname (c # cs) s = Option.bind (smtp_exec hostname c s) (smtp_run hostname cs)"

lemma smtp_inv_run: "smtp_inv s \<Longrightarrow> smtp_run hostname cs s = Some s' \<Longrightarrow> smtp_inv s'"
proof (induction cs arbitrary: s)
  case (Cons c cs)
  then show ?case
    by (cases c) (auto simp: bind_eq_Some_conv intro: smtp_inv_send_mail smtp_inv_timeout dest: smtp_inv_message)
qed simp

theorem one_result_per_mail:
  "smtp_run hostname cs smtp_new = Some s \<Longrightarrow> distinct (map fst (results s)) \<and> (\<forall>i \<in> fst ` set (results s). task_map s i = None)"
  using smtp_inv_run [OF smtp_inv_new] by (auto simp: smtp_inv_def)

text \<open>
  Lines of the mail that begin with a dot are not escaped: what the server takes for the mail ends at the first line that is a single
  dot, and the rest of the text is read as commands.
\<close>

definition server_reads :: "string \<Rightarrow> (string \<times> string) option" where
  "server_reads s = map_option (\<lambda>i. (take i s, drop (i + 5) s)) (search (CRLF @ ''.'' @ CRLF) s)"

lemma mail_cut_at_dot:
  "server_reads (mail_data (do_data (sample_task\<lparr>mail_data := ''a'' @ CRLF @ ''.'' @ CRLF @ ''NOOP''\<rparr>)))
   = Some (''a'', ''NOOP'' @ CRLF @ ''.'' @ CRLF)"
  by (simp add: server_reads_def do_data_def sample_task_def conn_send_def Let_def prefix_def)

end
