(* ===== verification/Net.thy ===== *)
theory Net
  imports Evloop
begin

text \<open>
  Accepting and connecting: \<^verbatim>\<open>src/listener.cc\<close>, \<^verbatim>\<open>src/server.cc\<close>, \<^verbatim>\<open>src/connector.cc\<close>, \<^verbatim>\<open>src/client.cc\<close>.

  The server keeps a table of its connections, which only the main loop changes; connections that close in another loop leave a task for it.
  The client owns a connector while it connects and the connection afterwards. System calls return what the caller of the model says;
  calls of user handlers, timers and descriptors are recorded in a log.
\<close>

section \<open>Listener\<close>

datatype accept_result = Accepted nat | Transient | Emfile | OtherErr

record listener =
  idle_fd :: "nat option"
  open_fds :: "nat set"
  accepted :: "nat list"

text \<open>
  \<^verbatim>\<open>handle_accept\<close>: \<open>r\<close> is the answer of \<^verbatim>\<open>accept\<close>, \<open>second\<close> the one of the second call when the descriptors are used up, \<open>reopened\<close> the
  descriptor of \<^verbatim>\<open>/dev/null\<close> afterwards. \<^verbatim>\<open>onaccept\<close> is set: it is given the descriptor.
\<close>

definition handle_accept :: "accept_result \<Rightarrow> nat option \<Rightarrow> nat option \<Rightarrow> listener \<Rightarrow> listener" where
  "handle_accept r second reopened l =
     (case r of
        Accepted fd \<Rightarrow> l\<lparr>open_fds := insert fd (open_fds l), accepted := accepted l @ [fd]\<rparr>
      | Transient \<Rightarrow> l
      | OtherErr \<Rightarrow> l
      | Emfile \<Rightarrow>
          let fds1 = open_fds l - set_option (idle_fd l);
              fds2 = fds1 \<union> set_option second - set_option second
          in l\<lparr>open_fds := fds2 \<union> set_option reopened, idle_fd := reopened\<rparr>)"

section \<open>Server\<close>

datatype server_event = ConnectionHandler nat | CloseHandler nat

record server =
  io_loops :: nat
  next_index :: nat
  next_conn :: nat
  connection_map :: "nat \<rightharpoonup> nat \<times> nat"
  erase_tasks :: "nat list"
  srv_log :: "server_event list"

definition server_new :: "nat \<Rightarrow> server" where
  "server_new n = \<lparr>io_loops = n, next_index = 0, next_conn = 1, connection_map = Map.empty, erase_tasks = [], srv_log = []\<rparr>"

text \<open>Loop 0 is the main loop, loop \<open>k + 1\<close> the one with index \<open>k\<close> of the group.\<close>

definition server_next_loop :: "server \<Rightarrow> nat \<times> server" where
  "server_next_loop s =
     (if io_loops s > 0 then let (k, i) = get_next_loop (io_loops s) (next_index s) in (k + 1, s\<lparr>next_index := i\<rparr>) else (0, s))"

definition server_establish :: "nat \<Rightarrow> nat \<Rightarrow> server \<Rightarrow> server" where
  "server_establish fd lp s =
     s\<lparr>connection_map := (connection_map s)(next_conn s \<mapsto> (fd, lp)), next_conn := next_conn s + 1,
       srv_log := srv_log s @ [ConnectionHandler (next_conn s)]\<rparr>"

definition server_accept :: "nat \<Rightarrow> server \<Rightarrow> server" where
  "server_accept fd s = (let (lp, s1) = server_next_loop s in server_establish fd lp s1)"

text \<open>\<^verbatim>\<open>remove_connection\<close> runs in the loop of the connection; in the main loop \<^verbatim>\<open>run_in_loop\<close> calls the function at once.\<close>

definition server_erase :: "nat \<Rightarrow> server \<Rightarrow> server" where
  "server_erase i s = s\<lparr>connection_map := (connection_map s)(i := None)\<rparr>"

definition server_remove_connection :: "nat \<Rightarrow> server \<Rightarrow> server" where
  "server_remove_connection i s =
     (case connection_map s i of
        None \<Rightarrow> s
      | Some (fd, lp) \<Rightarrow>
          let s1 = s\<lparr>srv_log := srv_log s @ [CloseHandler i]\<rparr>
          in if lp = 0 then server_erase i s1 else s1\<lparr>erase_tasks := erase_tasks s1 @ [i]\<rparr>)"

definition server_main_task :: "server \<Rightarrow> server" where
  "server_main_task s = (case erase_tasks s of [] \<Rightarrow> s | i # is \<Rightarrow> server_erase i (s\<lparr>erase_tasks := is\<rparr>))"

definition get_connection :: "nat \<Rightarrow> server \<Rightarrow> (nat \<times> nat) option" where
  "get_connection i s = connection_map s i"

definition for_one :: "nat \<Rightarrow> ('a \<Rightarrow> nat \<times> nat \<Rightarrow> 'a) \<Rightarrow> server \<Rightarrow> 'a \<Rightarrow> 'a" where
  "for_one i f s x = (case connection_map s i of None \<Rightarrow> x | Some c \<Rightarrow> f x c)"

section \<open>Connector\<close>

datatype net_event = Socket nat | CloseFd nat | ChannelAdd nat | ChannelRemove nat | Failure | Established nat | Closed nat | QuitLoop
  | SetTimer nat int | CancelTimer nat | TimeoutHandler

record connector =
  connect_channel :: "nat option"
  keep_reconnect :: bool
  retry_interval :: int
  retry_timer :: nat

text \<open>The answer of \<^verbatim>\<open>connect\<close>: done, in progress, or an error; \<open>None\<close> is the failed \<^verbatim>\<open>Assert(!connect_channel)\<close>.\<close>

datatype connect_result = Immediate | InProgress | Fatal

definition connector_connect :: "nat \<Rightarrow> connect_result \<Rightarrow> connector \<Rightarrow> (connector \<times> net_event list \<times> bool) option" where
  "connector_connect fd r k =
     (if r = Fatal then Some (k, [Socket fd, CloseFd fd, Failure], False)
      else if connect_channel k \<noteq> None then None
      else Some (k\<lparr>connect_channel := Some fd\<rparr>, [Socket fd, ChannelAdd fd], r = Immediate))"

definition connector_shutdown :: "connector \<Rightarrow> connector \<times> net_event list" where
  "connector_shutdown k =
     (k\<lparr>connect_channel := None\<rparr>,
      (if keep_reconnect k then [CancelTimer (retry_timer k)] else []) @ (case connect_channel k of None \<Rightarrow> [] | Some fd \<Rightarrow> [ChannelRemove fd]))"

section \<open>Client\<close>

record client_options =
  opt_keep_reconnect :: bool
  opt_retry_interval_ms :: int
  is_reconnect :: bool
  is_quit_loop :: bool

datatype conn_state = Open | Closing | Gone

record client =
  cops :: client_options
  connector_of :: "connector option"
  connected :: bool
  cli_conn :: "nat option"
  conns :: "nat \<rightharpoonup> conn_state"
  next_cid :: nat
  timeout_ms :: "int option"
  timeout_timer :: nat
  next_timer_id :: nat
  net_log :: "net_event list"

definition logged :: "net_event list \<Rightarrow> client \<Rightarrow> client" where
  "logged es c = c\<lparr>net_log := net_log c @ es\<rparr>"

definition add_connection_timeout_timer :: "client \<Rightarrow> client" where
  "add_connection_timeout_timer c =
     (case timeout_ms c of
        None \<Rightarrow> c
      | Some t \<Rightarrow> logged [SetTimer (next_timer_id c) t] (c\<lparr>timeout_timer := next_timer_id c, next_timer_id := next_timer_id c + 1\<rparr>))"

definition connection_timed_out :: "client \<Rightarrow> client" where
  "connection_timed_out c = (if connected c then c else logged [TimeoutHandler] c)"

definition cancel_connection_timeout_timer :: "client \<Rightarrow> client" where
  "cancel_connection_timeout_timer c = (if timeout_timer c > 0 then logged [CancelTimer (timeout_timer c)] c else c)"

definition client_establish :: "client \<Rightarrow> client" where
  "client_establish c =
     logged [Established (next_cid c)]
       ((cancel_connection_timeout_timer
          (c\<lparr>cli_conn := Some (next_cid c), conns := (conns c)(next_cid c \<mapsto> Open), next_cid := next_cid c + 1\<rparr>))\<lparr>connected := True\<rparr>)"

text \<open>\<^verbatim>\<open>connector_t::connected\<close>: the channel goes to the connection.\<close>

definition connector_connected :: "connector \<Rightarrow> client \<Rightarrow> client" where
  "connector_connected k c =
     client_establish (logged (if keep_reconnect k then [CancelTimer (retry_timer k)] else []) (c\<lparr>connector_of := Some (k\<lparr>connect_channel := None\<rparr>)\<rparr>))"

definition client_connect :: "nat \<Rightarrow> connect_result \<Rightarrow> connector \<Rightarrow> client \<Rightarrow> client option" where
  "client_connect fd r k c =
     (case connector_connect fd r k of
        None \<Rightarrow> None
      | Some (k', es, done) \<Rightarrow>
          let c1 = logged es (c\<lparr>connector_of := Some k'\<rparr>) in Some (if done then connector_connected k' c1 else c1))"

definition client_start :: "nat \<Rightarrow> connect_result \<Rightarrow> client \<Rightarrow> client option" where
  "client_start fd r c =
     (let c1 = add_connection_timeout_timer c;
          k = \<lparr>connect_channel = None, keep_reconnect = opt_keep_reconnect (cops c), retry_interval = opt_retry_interval_ms (cops c),
               retry_timer = 0\<rparr>
      in client_connect fd r k c1)"

text \<open>\<^verbatim>\<open>check\<close>: the socket became writable, \<open>err\<close> tells whether it has an error. \<^verbatim>\<open>retry\<close> and its timer.\<close>

definition client_check :: "bool \<Rightarrow> client \<Rightarrow> client" where
  "client_check err c =
     (case connector_of c of
        None \<Rightarrow> c
      | Some k \<Rightarrow>
          if err then
            let (k', es) = connector_shutdown k
            in if keep_reconnect k then
                 logged (es @ [SetTimer (next_timer_id c) (retry_interval k)])
                   (c\<lparr>connector_of := Some (k'\<lparr>retry_timer := next_timer_id c\<rparr>), next_timer_id := next_timer_id c + 1\<rparr>)
               else logged (es @ [Failure]) (c\<lparr>connector_of := Some k'\<rparr>)
          else connector_connected k c)"

definition client_retry :: "nat \<Rightarrow> connect_result \<Rightarrow> client \<Rightarrow> client option" where
  "client_retry fd r c = (case connector_of c of None \<Rightarrow> Some c | Some k \<Rightarrow> client_connect fd r k c)"

text \<open>
  \<^verbatim>\<open>shutdown(conn)\<close> for a connection that is not reset by its peer; \<open>close_wait\<close> of a connection (\<open>unsent\<close>: data is still queued, so that it only
  changes its state) calls it again.
\<close>

definition client_closed :: "nat \<Rightarrow> client \<Rightarrow> client" where
  "client_closed i c =
     logged ((if is_quit_loop (cops c) then [QuitLoop] else []) @ [Closed i]) (cancel_connection_timeout_timer (c\<lparr>connected := False\<rparr>))"

definition conn_close_wait :: "bool \<Rightarrow> nat \<Rightarrow> client \<Rightarrow> client" where
  "conn_close_wait unsent i c =
     (if conns c i = Some Gone then c
      else if unsent then c\<lparr>conns := (conns c)(i \<mapsto> Closing)\<rparr>
      else client_closed i (c\<lparr>conns := (conns c)(i \<mapsto> Gone)\<rparr>))"

definition active_shutdown :: "bool \<Rightarrow> client \<Rightarrow> client" where
  "active_shutdown unsent c =
     (let c1 = c\<lparr>connected := False\<rparr>;
          c2 = (case connector_of c1 of None \<Rightarrow> c1 | Some k \<Rightarrow> logged (snd (connector_shutdown k)) (c1\<lparr>connector_of := None\<rparr>))
      in case cli_conn c2 of
           None \<Rightarrow> c2
         | Some i \<Rightarrow> conn_close_wait unsent i (c2\<lparr>cops := (cops c2)\<lparr>is_reconnect := False\<rparr>\<rparr>))"

definition client_restart :: "bool \<Rightarrow> nat \<Rightarrow> connect_result \<Rightarrow> client \<Rightarrow> client option" where
  "client_restart unsent fd r c = client_start fd r (active_shutdown unsent c)"

text \<open>\<^verbatim>\<open>shutdown(conn)\<close> in general, called when the connection \<open>i\<close> has been closed.\<close>

definition client_shutdown :: "bool \<Rightarrow> nat \<Rightarrow> connect_result \<Rightarrow> nat \<Rightarrow> client \<Rightarrow> client option" where
  "client_shutdown reset_by_peer fd r i c =
     (let c1 = cancel_connection_timeout_timer (c\<lparr>connected := False, conns := (conns c)(i \<mapsto> Gone)\<rparr>)
      in map_option (logged [Closed i])
           (if is_quit_loop (cops c1) then Some (logged [QuitLoop] c1)
            else if is_reconnect (cops c1) \<and> reset_by_peer then client_restart False fd r c1
            else Some c1))"

section \<open>The table of connections\<close>

datatype server_op = Accept nat | CloseConn nat | MainTask

text \<open>A connection closes once (\<open>closed_once\<close>), so that one with a task in the queue of the main loop does not close again.\<close>

fun server_exec :: "server_op \<Rightarrow> server \<Rightarrow> server" where
  "server_exec (Accept fd) s = server_accept fd s"
| "server_exec (CloseConn i) s = (if i \<in> set (erase_tasks s) then s else server_remove_connection i s)"
| "server_exec MainTask s = server_main_task s"

definition srv_inv :: "nat \<Rightarrow> server \<Rightarrow> bool" where
  "srv_inv n s \<longleftrightarrow> io_loops s = n \<and> 0 < next_conn s \<and> distinct (srv_log s) \<and> distinct (erase_tasks s)
     \<and> (n > 0 \<longrightarrow> next_index s mod n = (next_conn s - 1) mod n \<and> next_index s \<le> n)
     \<and> (\<forall>i. ConnectionHandler i \<in> set (srv_log s) \<longleftrightarrow> 0 < i \<and> i < next_conn s)
     \<and> (\<forall>i. CloseHandler i \<in> set (srv_log s) \<longrightarrow> ConnectionHandler i \<in> set (srv_log s))
     \<and> (\<forall>i \<in> set (erase_tasks s). CloseHandler i \<in> set (srv_log s))
     \<and> (\<forall>i. connection_map s i \<noteq> None \<longleftrightarrow>
          ConnectionHandler i \<in> set (srv_log s) \<and> (CloseHandler i \<in> set (srv_log s) \<longrightarrow> i \<in> set (erase_tasks s)))
     \<and> (\<forall>i fd lp. connection_map s i = Some (fd, lp) \<longrightarrow> lp = (if n = 0 then 0 else (i - 1) mod n + 1))"

lemma next_loop_index:
  "0 < n \<Longrightarrow> idx \<le> n \<Longrightarrow> get_next_loop n idx = (idx mod n, idx mod n + 1)"
  by (auto simp: get_next_loop_def Let_def le_less)

lemma server_next_loop_eq:
  assumes "srv_inv n s"
  shows "server_next_loop s = (if n = 0 then (0, s) else ((next_conn s - 1) mod n + 1, s\<lparr>next_index := (next_conn s - 1) mod n + 1\<rparr>))"
  using assms next_loop_index [of n "next_index s"] by (auto simp: srv_inv_def server_next_loop_def)

lemma srv_inv_fresh:
  assumes "srv_inv n s"
  shows "ConnectionHandler (next_conn s) \<notin> set (srv_log s)" "CloseHandler (next_conn s) \<notin> set (srv_log s)" "next_conn s \<notin> set (erase_tasks s)"
proof -
  from assms have log: "\<And>i. ConnectionHandler i \<in> set (srv_log s) \<Longrightarrow> i < next_conn s"
    and cl: "\<And>i. CloseHandler i \<in> set (srv_log s) \<Longrightarrow> ConnectionHandler i \<in> set (srv_log s)"
    and er: "\<And>i. i \<in> set (erase_tasks s) \<Longrightarrow> CloseHandler i \<in> set (srv_log s)"
    by (auto simp: srv_inv_def)
  show "ConnectionHandler (next_conn s) \<notin> set (srv_log s)" using log by blast
  then show "CloseHandler (next_conn s) \<notin> set (srv_log s)" using cl by blast
  then show "next_conn s \<notin> set (erase_tasks s)" using er by blast
qed

lemma srv_inv_establish:
  assumes inv: "srv_inv n s" and lp: "lp = (if n = 0 then 0 else (next_conn s - 1) mod n + 1)"
    and idx: "n > 0 \<Longrightarrow> idx mod n = next_conn s mod n \<and> idx \<le> n"
  shows "srv_inv n (server_establish fd lp (s\<lparr>next_index := idx\<rparr>))"
proof -
  note fresh = srv_inv_fresh [OF inv]
  have e: "\<forall>i. connection_map s i \<noteq> None \<longleftrightarrow>
      ConnectionHandler i \<in> set (srv_log s) \<and> (CloseHandler i \<in> set (srv_log s) \<longrightarrow> i \<in> set (erase_tasks s))"
    using inv unfolding srv_inv_def by blast
  have h: "\<forall>i. ConnectionHandler i \<in> set (srv_log s) \<longleftrightarrow> 0 < i \<and> i < next_conn s" and "0 < next_conn s"
    using inv unfolding srv_inv_def by blast+
  with inv idx fresh e lp show ?thesis
    unfolding srv_inv_def server_establish_def by (intro conjI) (simp_all add: less_Suc_eq, auto)
qed

lemma srv_inv_accept:
  assumes "srv_inv n s"
  shows "srv_inv n (server_accept fd s)"
proof -
  let ?m = "next_conn s - 1"
  have "Suc ?m = next_conn s" using assms by (auto simp: srv_inv_def)
  then have "(?m mod n + 1) mod n = next_conn s mod n" using mod_Suc_eq [of ?m n] by simp
  moreover have "0 < n \<Longrightarrow> ?m mod n + 1 \<le> n" by (simp add: Suc_leI)
  ultimately have "srv_inv n (server_establish fd (if n = 0 then 0 else ?m mod n + 1) (s\<lparr>next_index := if n = 0 then next_index s else ?m mod n + 1\<rparr>))"
    by (intro srv_inv_establish [OF assms]) auto
  then show ?thesis
    by (cases "n = 0") (simp_all add: server_accept_def server_next_loop_eq [OF assms])
qed

lemma srv_inv_close:
  assumes inv: "srv_inv n s" and i: "i \<notin> set (erase_tasks s)"
  shows "srv_inv n (server_remove_connection i s)"
proof (cases "connection_map s i")
  case None
  with inv show ?thesis by (simp add: server_remove_connection_def)
next
  case (Some x)
  obtain fd lp where x: "x = (fd, lp)" by fastforce
  have "connection_map s i \<noteq> None \<longleftrightarrow>
      ConnectionHandler i \<in> set (srv_log s) \<and> (CloseHandler i \<in> set (srv_log s) \<longrightarrow> i \<in> set (erase_tasks s))"
    using inv unfolding srv_inv_def by blast
  with Some i have ch: "ConnectionHandler i \<in> set (srv_log s)" "CloseHandler i \<notin> set (srv_log s)" by auto
  show ?thesis
  proof (cases "lp = 0")
    case True
    with inv i Some x ch show ?thesis
      unfolding srv_inv_def by (intro conjI) (simp_all add: server_remove_connection_def server_erase_def Let_def, auto)
  next
    case False
    with inv i Some x ch show ?thesis
      unfolding srv_inv_def by (intro conjI) (simp_all add: server_remove_connection_def Let_def, auto)
  qed
qed

lemma srv_inv_task: "srv_inv n s \<Longrightarrow> srv_inv n (server_main_task s)"
  by (auto simp: srv_inv_def server_main_task_def server_erase_def split: list.splits)

lemma srv_inv_exec: "srv_inv n s \<Longrightarrow> srv_inv n (server_exec op s)"
  by (cases op) (simp_all add: srv_inv_accept srv_inv_close srv_inv_task)

lemma srv_inv_run: "srv_inv n s \<Longrightarrow> srv_inv n (fold server_exec ops s)"
  by (induction ops arbitrary: s) (simp_all add: srv_inv_exec)


text \<open>When the queue of the main loop is empty the table holds the open connections and nothing else.\<close>

lemma main_tasks_drain: "erase_tasks (((server_main_task) ^^ length (erase_tasks s)) s) = []"
proof (induction "erase_tasks s" arbitrary: s)
  case (Cons i js)
  then have e: "erase_tasks s = i # js" by simp
  then have "erase_tasks (server_main_task s) = js" by (simp add: server_main_task_def server_erase_def)
  with Cons.hyps(1) [of "server_main_task s"] show ?case by (simp add: e funpow_swap1)
qed simp


section \<open>Connecting\<close>

text \<open>Running out of descriptors: the waiting connection is taken and closed, and the number of descriptors is what it was.\<close>

lemma accept_emfile:
  assumes "idle_fd l = Some d" and "second = Some c" and "c \<notin> open_fds l" and "reopened = Some d"
  shows "open_fds (handle_accept Emfile second reopened l) = insert d (open_fds l)"
    and "accepted (handle_accept Emfile second reopened l) = accepted l"
  using assms by (auto simp: handle_accept_def Let_def)

text \<open>A refused connection with \<^verbatim>\<open>keep_reconnect\<close>: the socket is given back, the timer runs, and the next attempt does not meet the old channel.\<close>

lemma retry_after_error:
  assumes "connector_of c = Some k" and "keep_reconnect k" and "connect_channel k = Some fd"
  shows "net_log (client_check True c) =
      net_log c @ [CancelTimer (retry_timer k), ChannelRemove fd, SetTimer (next_timer_id c) (retry_interval k)]"
    and "\<exists>c'. client_retry fd' r (client_check True c) = Some c'"
  using assms
  by (auto simp: client_check_def connector_shutdown_def logged_def client_retry_def client_connect_def connector_connect_def Let_def)

lemma start_never_asserts: "\<exists>c'. client_start fd r c = Some c'"
  by (auto simp: client_start_def client_connect_def connector_connect_def Let_def)

text \<open>
  \<^verbatim>\<open>is_reconnect\<close> works once: \<^verbatim>\<open>restart\<close> calls \<^verbatim>\<open>active_shutdown\<close>, which turns the option off, so that the second loss of the connection
  only calls the handler.
\<close>

lemma active_shutdown_turns_off: "cli_conn c = Some i \<Longrightarrow> \<not> is_reconnect (cops (active_shutdown b c))"
  by (auto simp: active_shutdown_def conn_close_wait_def client_closed_def cancel_connection_timeout_timer_def logged_def Let_def
      split: option.splits)

lemma establish_cops: "cops (client_establish c) = cops c"
  by (simp add: client_establish_def cancel_connection_timeout_timer_def logged_def)

lemma start_cops: "client_start fd r c = Some c' \<Longrightarrow> cops c' = cops c"
  by (auto simp: client_start_def client_connect_def connector_connect_def connector_connected_def add_connection_timeout_timer_def
      establish_cops logged_def Let_def split: option.splits if_splits)

theorem reconnect_only_once:
  assumes "is_reconnect (cops c)" and "\<not> is_quit_loop (cops c)" and "cli_conn c = Some i"
  shows "\<exists>c1. client_shutdown True fd Immediate i c = Some c1 \<and> \<not> is_reconnect (cops c1)"
proof -
  let ?c = "cancel_connection_timeout_timer (c\<lparr>connected := False, conns := (conns c)(i \<mapsto> Gone)\<rparr>)"
  have c: "cops ?c = cops c" "cli_conn ?c = cli_conn c" by (simp_all add: cancel_connection_timeout_timer_def logged_def)
  obtain c2 where c2: "client_restart False fd Immediate ?c = Some c2"
    using start_never_asserts unfolding client_restart_def by blast
  then have "\<not> is_reconnect (cops c2)"
    using start_cops active_shutdown_turns_off [of ?c i] c assms(3) by (auto simp: client_restart_def)
  with c2 c assms show ?thesis by (simp add: client_shutdown_def Let_def logged_def)
qed

end
