(* ===== verification/ThreadPool.thy ===== *)
theory ThreadPool
  imports "HOL-Library.Multiset"
begin

text \<open>
  The thread pool, \<^verbatim>\<open>include/angel/thread_pool.h\<close>. A worker is at the top of its loop, waits for the condition variable, runs a task (or
  none), is in front of the second critical section, or has left \<^verbatim>\<open>thread_func\<close>. A step is one critical section, one notification or one call
  of a task, by any thread; a wait may also end without a notification. \<open>submitted\<close>, \<open>started\<close> and \<open>finished\<close> record what happened to the tasks.

  Tasks start once each in the order of submission, no task is left while all workers sleep, and \<^verbatim>\<open>shutdown\<close> runs everything and ends.
\<close>

section \<open>The pool\<close>

datatype tp_policy = Fixed | Cached

datatype tp_state = Running | Shutdown | Stop

datatype 'a worker = Top | Sleeping | Has "'a option" | Bottom | Exited

record 'a tpool =
  task_queue :: "'a list"
  workers :: "'a worker list"
  tpolicy :: tp_policy
  tstate :: tp_state
  notices :: nat
  notice_all :: bool
  submitted :: "'a list"
  started :: "'a list"
  finished :: "'a list"

definition add_new_worker :: "'a tpool \<Rightarrow> 'a tpool" where
  "add_new_worker p = p\<lparr>workers := workers p @ [Top]\<rparr>"

definition thread_pool_new :: "tp_policy \<Rightarrow> nat \<Rightarrow> 'a tpool" where
  "thread_pool_new pol nums =
     (add_new_worker ^^ nums)
       \<lparr>task_queue = [], workers = [], tpolicy = pol, tstate = Running, notices = 0, notice_all = False, submitted = [], started = [], finished = []\<rparr>"

text \<open>\<^verbatim>\<open>executor\<close> up to its \<^verbatim>\<open>notify_one\<close>; \<open>None\<close> when an \<^verbatim>\<open>assert\<close> fails.\<close>

definition executor :: "'a \<Rightarrow> 'a tpool \<Rightarrow> 'a tpool option" where
  "executor task p =
     (if tstate p \<noteq> Running \<or> workers p = [] then None
      else
        let p1 = (if tpolicy p = Cached \<and> length (task_queue p) = length (workers p) then add_new_worker p else p)
        in Some (p1\<lparr>task_queue := task_queue p1 @ [task], submitted := submitted p1 @ [task], notices := notices p1 + 1\<rparr>))"

text \<open>\<^verbatim>\<open>notify_one\<close> wakes some sleeping worker; \<open>i\<close> is the one it chooses.\<close>

definition wake :: "nat \<Rightarrow> 'a tpool \<Rightarrow> 'a tpool" where
  "wake i p = p\<lparr>workers := (workers p)[i := Top]\<rparr>"

text \<open>\<^verbatim>\<open>notify\<close> of \<^verbatim>\<open>shutdown\<close> and \<^verbatim>\<open>stop\<close>: the state is set under the lock, \<^verbatim>\<open>notify_all\<close> follows.\<close>

definition tp_notify :: "tp_state \<Rightarrow> 'a tpool \<Rightarrow> 'a tpool" where
  "tp_notify s p = p\<lparr>tstate := s, notice_all := True\<rparr>"

definition notify_all :: "'a tpool \<Rightarrow> 'a tpool" where
  "notify_all p = p\<lparr>notice_all := False, workers := map (\<lambda>w. if w = Sleeping then Top else w) (workers p)\<rparr>"

text \<open>The two critical sections of \<^verbatim>\<open>thread_func\<close>.\<close>

definition worker_top :: "nat \<Rightarrow> 'a tpool \<Rightarrow> 'a tpool" where
  "worker_top i p =
     (if tstate p = Running \<and> task_queue p = [] then p\<lparr>workers := (workers p)[i := Sleeping]\<rparr>
      else if tstate p = Stop then p\<lparr>workers := (workers p)[i := Exited]\<rparr>
      else case task_queue p of
             [] \<Rightarrow> p\<lparr>workers := (workers p)[i := Has None]\<rparr>
           | t # q \<Rightarrow> p\<lparr>task_queue := q, workers := (workers p)[i := Has (Some t)], started := started p @ [t]\<rparr>)"

definition worker_run :: "nat \<Rightarrow> 'a option \<Rightarrow> 'a tpool \<Rightarrow> 'a tpool" where
  "worker_run i t p =
     p\<lparr>workers := (workers p)[i := Bottom], finished := finished p @ (case t of None \<Rightarrow> [] | Some x \<Rightarrow> [x])\<rparr>"

definition worker_bottom :: "nat \<Rightarrow> 'a tpool \<Rightarrow> 'a tpool" where
  "worker_bottom i p =
     p\<lparr>workers := (workers p)[i := (if tstate p = Shutdown \<and> task_queue p = [] then Exited else Top)]\<rparr>"

section \<open>Interleaving\<close>

definition at :: "'a tpool \<Rightarrow> nat \<Rightarrow> 'a worker \<Rightarrow> bool" where
  "at p i w \<longleftrightarrow> i < length (workers p) \<and> workers p ! i = w"

inductive worker_step :: "'a tpool \<Rightarrow> 'a tpool \<Rightarrow> bool" where
  top: "at p i Top \<Longrightarrow> worker_step p (worker_top i p)"
| run: "at p i (Has t) \<Longrightarrow> worker_step p (worker_run i t p)"
| bottom: "at p i Bottom \<Longrightarrow> worker_step p (worker_bottom i p)"

inductive tp_step :: "'a tpool \<Rightarrow> 'a tpool \<Rightarrow> bool" where
  worker: "worker_step p q \<Longrightarrow> tp_step p q"
| execute: "executor task p = Some q \<Longrightarrow> tp_step p q"
| notify_one: "notices p = Suc n \<Longrightarrow> at p i Sleeping \<Longrightarrow> tp_step p (wake i (p\<lparr>notices := n\<rparr>))"
| notify_none: "notices p = Suc n \<Longrightarrow> Sleeping \<notin> set (workers p) \<Longrightarrow> tp_step p (p\<lparr>notices := n\<rparr>)"
| spurious: "at p i Sleeping \<Longrightarrow> tp_step p (wake i p)"
| end_pool: "tstate p = Running \<Longrightarrow> s \<noteq> Running \<Longrightarrow> tp_step p (tp_notify s p)"
| notify_all: "notice_all p \<Longrightarrow> tp_step p (notify_all p)"

inductive tp_reach :: "tp_policy \<Rightarrow> nat \<Rightarrow> 'a tpool \<Rightarrow> bool" for pol nums where
  init: "tp_reach pol nums (thread_pool_new pol nums)"
| step: "tp_reach pol nums p \<Longrightarrow> tp_step p q \<Longrightarrow> tp_reach pol nums q"

inductive_cases worker_stepE: "worker_step p q"
inductive_cases tp_stepE: "tp_step p q"

section \<open>Order and accounting\<close>

definition awake :: "'a tpool \<Rightarrow> nat" where
  "awake p = length (filter (\<lambda>w. w \<noteq> Sleeping) (workers p))"

fun hold :: "'a worker \<Rightarrow> 'a list" where
  "hold (Has (Some t)) = [t]"
| "hold w = []"

definition held :: "'a tpool \<Rightarrow> 'a list" where
  "held p = concat (map hold (workers p))"

lemma new_workers: "(add_new_worker ^^ n) p = p\<lparr>workers := workers p @ replicate n Top\<rparr>"
  by (induction n) (simp_all add: add_new_worker_def replicate_append_same)

lemma thread_pool_new_eq:
  "thread_pool_new pol nums =
     \<lparr>task_queue = [], workers = replicate nums Top, tpolicy = pol, tstate = Running, notices = 0, notice_all = False,
      submitted = [], started = [], finished = []\<rparr>"
  by (simp add: thread_pool_new_def new_workers)

lemmas tp_defs = worker_top_def worker_run_def worker_bottom_def executor_def add_new_worker_def wake_def tp_notify_def notify_all_def Let_def

lemma pool_fifo_step: "tp_step p q \<Longrightarrow> started p @ task_queue p = submitted p \<Longrightarrow> started q @ task_queue q = submitted q"
  by (elim tp_stepE worker_stepE) (auto simp: tp_defs split: list.splits if_splits)

lemma pool_fifo_reach: "tp_reach pol nums p \<Longrightarrow> started p @ task_queue p = submitted p"
  by (induction rule: tp_reach.induct) (auto simp: thread_pool_new_eq pool_fifo_step)

text \<open>
  The invariant of the condition variable: while the pool runs nobody has left, and if somebody sleeps there are as many notifications
  under way or workers awake as tasks wait; after \<^verbatim>\<open>notify_all\<close> nobody sleeps; a worker leaves a pool in shutdown only when no task is left.
\<close>

definition tp_inv :: "'a tpool \<Rightarrow> bool" where
  "tp_inv p \<longleftrightarrow>
     (tstate p = Running \<longrightarrow> Exited \<notin> set (workers p) \<and> \<not> notice_all p \<and>
        (Sleeping \<in> set (workers p) \<longrightarrow> length (task_queue p) \<le> notices p + awake p))
     \<and> (tstate p \<noteq> Running \<longrightarrow> \<not> notice_all p \<longrightarrow> Sleeping \<notin> set (workers p))
     \<and> (tstate p = Shutdown \<longrightarrow> Exited \<in> set (workers p) \<longrightarrow> task_queue p = [])"

lemma filter_update:
  "i < length xs \<Longrightarrow>
   length (filter P (xs[i := y])) + (if P (xs ! i) then 1 else 0) = length (filter P xs) + (if P y then 1 else (0 :: nat))"
proof (induction xs arbitrary: i)
  case (Cons x xs)
  then show ?case by (cases i) auto
qed simp

lemma awake_same:
  "at p i w \<Longrightarrow> w \<noteq> Sleeping \<Longrightarrow> v \<noteq> Sleeping \<Longrightarrow>
   length (filter (\<lambda>w. w \<noteq> Sleeping) ((workers p)[i := v])) = length (filter (\<lambda>w. w \<noteq> Sleeping) (workers p))"
  using filter_update [of i "workers p" "\<lambda>w. w \<noteq> Sleeping" v] by (auto simp: at_def)

lemma awake_more:
  "at p i Sleeping \<Longrightarrow> v \<noteq> Sleeping \<Longrightarrow>
   length (filter (\<lambda>w. w \<noteq> Sleeping) ((workers p)[i := v])) = Suc (length (filter (\<lambda>w. w \<noteq> Sleeping) (workers p)))"
  using filter_update [of i "workers p" "\<lambda>w. w \<noteq> Sleeping" v] by (auto simp: at_def)

lemma mem_update: "x \<in> set (xs[i := v]) \<Longrightarrow> x \<noteq> v \<Longrightarrow> x \<in> set xs"
  using set_update_subset_insert [of xs i v] by auto

lemmas inv_simps = tp_inv_def awake_def awake_same awake_more

lemma tp_inv_top: "tp_inv p \<Longrightarrow> at p i Top \<Longrightarrow> tp_inv (worker_top i p)"
  by (auto simp: worker_top_def inv_simps split: list.splits dest: mem_update)

lemma tp_inv_run: "tp_inv p \<Longrightarrow> at p i (Has t) \<Longrightarrow> tp_inv (worker_run i t p)"
  by (auto simp: worker_run_def inv_simps dest: mem_update)

lemma tp_inv_bottom: "tp_inv p \<Longrightarrow> at p i Bottom \<Longrightarrow> tp_inv (worker_bottom i p)"
  by (auto simp: worker_bottom_def inv_simps dest: mem_update)

lemma tp_inv_wake: "tp_inv p \<Longrightarrow> at p i Sleeping \<Longrightarrow> tp_inv (wake i p)"
  by (auto simp: wake_def inv_simps dest: mem_update)

lemma tp_inv_notify: "tp_inv p \<Longrightarrow> notices p = Suc n \<Longrightarrow> at p i Sleeping \<Longrightarrow> tp_inv (wake i (p\<lparr>notices := n\<rparr>))"
  by (auto simp: wake_def inv_simps dest: mem_update)

lemma tp_inv_executor: "tp_inv p \<Longrightarrow> executor task p = Some q \<Longrightarrow> tp_inv q"
  by (auto simp: executor_def add_new_worker_def tp_inv_def awake_def Let_def split: if_splits)

lemma tp_inv_step:
  assumes "tp_inv p" and "tp_step p q"
  shows "tp_inv q"
  using assms(2)
proof cases
  case worker
  then show ?thesis using assms(1) by cases (auto intro: tp_inv_top tp_inv_run tp_inv_bottom)
next
  case (execute task)
  with assms(1) show ?thesis by (rule tp_inv_executor)
next
  case notify_none
  with assms(1) show ?thesis by (auto simp: tp_inv_def awake_def)
next
  case end_pool
  with assms(1) show ?thesis by (auto simp: tp_notify_def tp_inv_def)
next
  case notify_all
  with assms(1) show ?thesis by (auto simp: notify_all_def tp_inv_def)
qed (use assms(1) in \<open>auto intro: tp_inv_wake tp_inv_notify\<close>)

lemma tp_inv_reach: "tp_reach pol nums p \<Longrightarrow> tp_inv p"
proof (induction rule: tp_reach.induct)
  case init
  then show ?case by (simp add: thread_pool_new_eq tp_inv_def)
qed (rule tp_inv_step)

lemma workers_step: "tp_step p q \<Longrightarrow> length (workers p) \<le> length (workers q)"
  by (elim tp_stepE worker_stepE) (auto simp: tp_defs split: list.splits if_splits)

lemma workers_reach: "tp_reach pol nums p \<Longrightarrow> nums \<le> length (workers p)"
  by (induction rule: tp_reach.induct) (auto simp: thread_pool_new_eq dest: workers_step)

section \<open>Tasks are not forgotten\<close>

definition ready :: "'a worker \<Rightarrow> bool" where
  "ready w \<longleftrightarrow> w \<noteq> Sleeping \<and> w \<noteq> Exited"

text \<open>
  C27: the pool starts each task once, in the order of submission, and never leaves one while all workers sleep: as long as tasks
  wait in a running pool, some worker is awake or a notification is under way, in every interleaving and with spurious wakeups.
\<close>

theorem pool_order_and_progress:
  assumes "tp_reach pol nums p" and "0 < nums"
  shows "started p @ task_queue p = submitted p
    \<and> (tstate p = Running \<longrightarrow> task_queue p \<noteq> [] \<longrightarrow> 0 < notices p \<or> (\<exists>w \<in> set (workers p). ready w))"
proof -
  have i: "tp_inv p" and l: "0 < length (workers p)" using assms tp_inv_reach workers_reach [OF assms(1)] by auto
  have "0 < notices p \<or> (\<exists>w \<in> set (workers p). ready w)" if r: "tstate p = Running" and q: "task_queue p \<noteq> []"
  proof (cases "\<exists>w \<in> set (workers p). w \<noteq> Sleeping")
    case True
    then show ?thesis using i r by (auto simp: tp_inv_def ready_def)
  next
    case False
    then have "Sleeping \<in> set (workers p)" "awake p = 0" using l by (auto simp: awake_def filter_empty_conv neq_Nil_conv)
    then show ?thesis using i r q by (auto simp: tp_inv_def)
  qed
  with pool_fifo_reach [OF assms(1)] show ?thesis by blast
qed

section \<open>Shutdown\<close>

lemma mset_held_update:
  "i < length ws \<Longrightarrow> mset (concat (map hold (ws[i := v]))) + mset (hold (ws ! i)) = mset (concat (map hold ws)) + mset (hold v)"
proof (induction ws arbitrary: i)
  case (Cons w ws)
  then show ?case by (cases i) (auto simp: ac_simps)
qed simp

definition settled :: "'a tpool \<Rightarrow> bool" where
  "settled p \<longleftrightarrow> mset (started p) = mset (finished p) + mset (held p)"

lemma settled_update:
  assumes "settled p" and "at p i w" and "workers q = (workers p)[i := v]" and "started q = started p @ s" and "finished q = finished p @ f"
    and "mset s + mset (hold w) = mset f + mset (hold v)"
  shows "settled q"
proof -
  have "mset (held q) + mset (hold w) = mset (held p) + mset (hold v)"
    using mset_held_update [of i "workers p" v] assms(2,3) by (simp add: at_def held_def)
  then have h: "mset (held p) + mset (hold v) = mset (held q) + mset (hold w)" by simp
  have "mset (started q) + mset (hold w) = mset (finished p) + mset (held p) + (mset f + mset (hold v))"
    using assms(1,4) assms(6) [symmetric] by (simp add: settled_def)
  also have "\<dots> = mset (finished p) + mset f + (mset (held p) + mset (hold v))" by (simp add: ac_simps)
  also have "\<dots> = mset (finished q) + mset (held q) + mset (hold w)" unfolding h using assms(5) by (simp add: ac_simps)
  finally show ?thesis by (simp add: settled_def)
qed

lemma settled_worker: "worker_step p q \<Longrightarrow> settled p \<Longrightarrow> settled q"
proof (induction rule: worker_step.induct)
  case (top p i)
  show ?case
  proof (cases "tstate p = Running \<and> task_queue p = [] \<or> tstate p = Stop \<or> task_queue p = []")
    case True
    then consider "worker_top i p = p\<lparr>workers := (workers p)[i := Sleeping]\<rparr>" | "worker_top i p = p\<lparr>workers := (workers p)[i := Exited]\<rparr>"
      | "worker_top i p = p\<lparr>workers := (workers p)[i := Has None]\<rparr>" 
      by (cases "tstate p"; cases "task_queue p") (simp_all add: worker_top_def)
    then show ?thesis using settled_update [OF top(2,1), of "worker_top i p" _ "[]" "[]"] by cases simp_all
  next
    case False
    then obtain t ts where q: "task_queue p = t # ts" "tstate p \<noteq> Stop" by (cases "task_queue p") auto
    with settled_update [OF top(2,1), of "worker_top i p" "Has (Some t)" "[t]" "[]"] show ?thesis by (simp add: worker_top_def)
  qed
next
  case (run p i t)
  show ?case
    using settled_update [OF run(2,1), of "worker_run i t p" Bottom "[]" "hold (Has t)"]
    by (cases t) (simp_all add: worker_run_def)
next
  case (bottom p i)
  show ?case
    using settled_update [OF bottom(2,1), of "worker_bottom i p" _ "[]" "[]"]
    by (auto simp: worker_bottom_def)
qed

lemma settled_step:
  assumes "tp_step p q" and "settled p"
  shows "settled q"
  using assms(1)
proof cases
  case worker
  then show ?thesis using assms(2) by (rule settled_worker)
next
  case (execute task)
  then have "held q = held p" "started q = started p" "finished q = finished p"
    by (auto simp: executor_def add_new_worker_def held_def Let_def split: if_splits)
  with assms(2) show ?thesis by (simp add: settled_def)
next
  case (notify_one n i)
  then show ?thesis using settled_update [OF assms(2), of i Sleeping q Top "[]" "[]"] by (simp add: wake_def)
next
  case (spurious i)
  then show ?thesis using settled_update [OF assms(2), of i Sleeping q Top "[]" "[]"] by (simp add: wake_def)
next
  case notify_all
  have "hold (if w = Sleeping then Top else w) = hold w" for w :: "'a worker" by (cases w) auto
  with notify_all assms(2) show ?thesis by (simp add: notify_all_def settled_def held_def o_def)
qed (use assms(2) in \<open>auto simp: settled_def held_def tp_notify_def\<close>)

lemma settled_reach: "tp_reach pol nums p \<Longrightarrow> settled p"
proof (induction rule: tp_reach.induct)
  case init
  have "concat (replicate nums []) = ([] :: 'b list)" by (induction nums) auto
  then show ?case by (simp add: thread_pool_new_eq settled_def held_def)
qed (rule settled_step)

text \<open>How far a worker is from its end, with tasks left and without.\<close>

fun distance :: "bool \<Rightarrow> 'a worker \<Rightarrow> nat" where
  "distance left Top = (if left then 0 else 3)"
| "distance left (Has t) = 2"
| "distance left Bottom = 1"
| "distance left Sleeping = 0"
| "distance left Exited = 0"

definition remaining :: "'a tpool \<Rightarrow> nat" where
  "remaining p = length (task_queue p) * (3 * length (workers p) + 1) + sum_list (map (distance (task_queue p \<noteq> [])) (workers p))"

lemma sum_list_distance_update:
  "i < length ws \<Longrightarrow> sum_list (map (distance l) (ws[i := v])) + distance l (ws ! i) = sum_list (map (distance l) ws) + distance l v"
proof (induction ws arbitrary: i)
  case (Cons w ws)
  then show ?case by (cases i) (auto simp: ac_simps)
qed simp

lemma distance_bound: "sum_list (map (distance l) ws) \<le> 3 * length ws"
proof (induction ws)
  case (Cons w ws)
  have "distance l w \<le> 3" by (cases "(l, w)" rule: distance.cases) auto
  with Cons show ?case by simp
qed simp

lemma worker_step_remaining:
  assumes "worker_step p q" and "tstate p = Shutdown"
  shows "remaining q < remaining p \<and> tstate q = Shutdown"
  using assms(1)
proof cases
  case (top i)
  then have i: "i < length (workers p)" "workers p ! i = Top" by (auto simp: at_def)
  show ?thesis
  proof (cases "task_queue p")
    case Nil
    with top assms(2) i sum_list_distance_update [of i "workers p" False "Has None"] show ?thesis
      by (simp add: worker_top_def remaining_def)
  next
    case (Cons t ts)
    have "remaining q \<le> length ts * (3 * length (workers p) + 1) + 3 * length (workers p)"
      using Cons top assms(2) distance_bound [of "ts \<noteq> []" "(workers p)[i := Has (Some t)]"]
      by (simp add: worker_top_def remaining_def)
    also have "\<dots> < remaining p" using Cons by (simp add: remaining_def)
    finally show ?thesis using Cons top assms(2) by (simp add: worker_top_def)
  qed
next
  case (run i t)
  then show ?thesis
    using assms(2) sum_list_distance_update [of i "workers p" "task_queue p \<noteq> []" Bottom]
    by (simp add: worker_run_def remaining_def at_def)
next
  case (bottom i)
  then show ?thesis
    using assms(2) sum_list_distance_update [of i "workers p" "task_queue p \<noteq> []" "if task_queue p = [] then Exited else Top"]
    by (simp add: worker_bottom_def remaining_def at_def split: if_splits)
qed

lemma worker_steps_remaining:
  "(worker_step ^^ k) p q \<Longrightarrow> tstate p = Shutdown \<Longrightarrow> k + remaining q \<le> remaining p \<and> tstate q = Shutdown"
proof (induction k arbitrary: q)
  case (Suc k)
  then obtain r where "(worker_step ^^ k) p r" "worker_step r q" by auto
  with Suc worker_step_remaining [of r q] show ?case by fastforce
qed simp

lemma worker_step_same: "worker_step p q \<Longrightarrow> submitted q = submitted p \<and> notice_all q = notice_all p"
  by (elim worker_stepE) (auto simp: tp_defs split: list.splits)

lemma worker_steps_same:
  "(worker_step ^^ k) p q \<Longrightarrow> tp_reach pol nums p \<Longrightarrow> tp_reach pol nums q \<and> submitted q = submitted p \<and> notice_all q = notice_all p"
proof (induction k arbitrary: q)
  case (Suc k)
  then obtain r where "(worker_step ^^ k) p r" "worker_step r q" by auto
  with Suc show ?case by (auto dest: worker_step_same intro: tp_reach.step tp_step.worker)
qed simp

lemma stuck_exited:
  assumes "\<nexists>r. worker_step p r" and "Sleeping \<notin> set (workers p)"
  shows "set (workers p) \<subseteq> {Exited}"
proof
  fix w
  assume w: "w \<in> set (workers p)"
  then obtain i where "at p i w" by (auto simp: in_set_conv_nth at_def)
  with assms w show "w \<in> {Exited}" by (cases w) (auto intro: worker_step.intros)
qed

text \<open>
  C28: \<^verbatim>\<open>shutdown\<close> ends. Once \<^verbatim>\<open>notify_all\<close> was called, the workers make at most \<open>remaining p\<close> more steps in any order, and when none can make
  another one all of them have left \<^verbatim>\<open>thread_func\<close>, so that \<^verbatim>\<open>join\<close> returns, and every task that was ever submitted has been run.
\<close>

theorem shutdown_runs_everything:
  assumes "tp_reach pol nums p" and "0 < nums" and "tstate p = Shutdown" and "\<not> notice_all p" and "(worker_step ^^ k) p q"
  shows "k \<le> remaining p \<and> ((\<nexists>r. worker_step q r) \<longrightarrow>
    set (workers q) = {Exited} \<and> task_queue q = [] \<and> mset (finished q) = mset (submitted p))"
proof -
  from worker_steps_same [OF assms(5,1)] worker_steps_remaining [OF assms(5,3)] assms(4)
  have q: "tp_reach pol nums q" "submitted q = submitted p" "\<not> notice_all q" "tstate q = Shutdown" and k: "k \<le> remaining p" by auto
  have "set (workers q) = {Exited} \<and> task_queue q = [] \<and> mset (finished q) = mset (submitted p)" if "\<nexists>r. worker_step q r"
  proof -
    have i: "tp_inv q" and l: "0 < length (workers q)" using q(1) assms(2) tp_inv_reach workers_reach [OF q(1)] by auto
    from i q have "Sleeping \<notin> set (workers q)" by (auto simp: tp_inv_def)
    with stuck_exited [OF that] l have ex: "set (workers q) = {Exited}" by (cases "workers q") auto
    with i q have e: "task_queue q = []" by (auto simp: tp_inv_def)
    have "\<forall>w \<in> set (workers q). w = Exited" using ex by blast
    then have "held q = []" by (auto simp: held_def)
    with e settled_reach [OF q(1)] pool_fifo_reach [OF q(1)] q(2) have "mset (finished q) = mset (submitted p)"
      by (auto simp: settled_def)
    with e ex show ?thesis by blast
  qed
  with k show ?thesis by blast
qed

section \<open>Witnesses\<close>

definition one_task :: "nat tpool" where
  "one_task = the (executor 7 (thread_pool_new Fixed 1))"

definition ended_pool :: "nat tpool" where
  "ended_pool = notify_all (tp_notify Shutdown one_task)"

definition drained_pool :: "nat tpool" where
  "drained_pool = worker_bottom 0 (worker_run 0 (Some 7) (worker_top 0 ended_pool))"

lemma one_task_reach: "tp_reach Fixed 1 one_task"
  by (rule tp_reach.step [OF tp_reach.init], rule tp_step.execute [of 7])
    (simp add: one_task_def executor_def thread_pool_new_eq)

lemma ended_pool_reach: "tp_reach Fixed 1 ended_pool"
  unfolding ended_pool_def
proof (rule tp_reach.step [OF tp_reach.step [OF one_task_reach]])
  show "tp_step one_task (tp_notify Shutdown one_task)"
    by (rule tp_step.end_pool) (simp_all add: one_task_def executor_def thread_pool_new_eq)
  show "tp_step (tp_notify Shutdown one_task) (notify_all (tp_notify Shutdown one_task))"
    by (rule tp_step.notify_all) (simp add: tp_notify_def)
qed

lemmas pool_eval = one_task_def ended_pool_def drained_pool_def executor_def thread_pool_new_eq tp_notify_def notify_all_def
  worker_top_def worker_run_def worker_bottom_def at_def

lemma drained_pool_steps: "(worker_step ^^ 3) ended_pool drained_pool"
proof -
  have "worker_step ended_pool (worker_top 0 ended_pool)"
    by (rule worker_step.top) (simp add: pool_eval)
  moreover have "worker_step (worker_top 0 ended_pool) (worker_run 0 (Some 7) (worker_top 0 ended_pool))"
    by (rule worker_step.run) (simp add: pool_eval)
  moreover have "worker_step (worker_run 0 (Some 7) (worker_top 0 ended_pool)) drained_pool"
    unfolding drained_pool_def by (rule worker_step.bottom) (simp add: pool_eval)
  ultimately show ?thesis by (auto simp: numeral_3_eq_3 relcompp.simps)
qed

theorem pool_order_and_progress_witness:
  "started one_task @ task_queue one_task = submitted one_task \<and> tstate one_task = Running \<and> task_queue one_task \<noteq> []
    \<and> (0 < notices one_task \<or> (\<exists>w \<in> set (workers one_task). ready w))"
proof -
  have "tstate one_task = Running" "task_queue one_task \<noteq> []" by (simp_all add: pool_eval)
  then show ?thesis using pool_order_and_progress [OF one_task_reach] by simp
qed

theorem shutdown_runs_everything_witness:
  "3 \<le> remaining ended_pool \<and> set (workers drained_pool) = {Exited} \<and> mset (finished drained_pool) = mset (submitted ended_pool)
   \<and> submitted ended_pool = [7]"
proof -
  have "tstate ended_pool = Shutdown" "\<not> notice_all ended_pool" "submitted ended_pool = [7]" by (simp_all add: pool_eval)
  moreover have "\<nexists>r. worker_step drained_pool r"
    by (auto elim!: worker_stepE simp: pool_eval)
  ultimately show ?thesis
    using shutdown_runs_everything [OF ended_pool_reach _ _ _ drained_pool_steps] by simp
qed

end
