(* ===== verification/Mime.thy ===== *)
theory Mime
  imports HttpMessage Base64 Qp
begin

text \<open>
  MIME messages: \<^verbatim>\<open>src/mime/mime.cc\<close>, \<^verbatim>\<open>codec.cc\<close>, \<^verbatim>\<open>charset.cc\<close>, \<^verbatim>\<open>mime_types.cc\<close> and \<^verbatim>\<open>include/angel/mime.h\<close>. Objects that print
  themselves with their headers and encoded data, and the parser of multipart bodies, which builds a tree of nodes and can stop when the buffer
  has not enough data.

  The order of an association list stands for the iteration order of a header map. The parser calls itself for nested multiparts and for the next part:
  it takes fuel (\<open>NoFuel\<close>), and the theorems say how much is enough. \<open>Throws\<close> is an exception or an access out of bounds.
\<close>

section \<open>Character sets and encodings\<close>

datatype mime_encoding = EncNone | EncQP | EncBase64 | Bit7 | Bit7or8

definition charset_map :: "(string \<times> mime_encoding) list" where
  "charset_map =
     map (\<lambda>c. (c, EncQP)) [''iso-8859-1'', ''iso-8859-2'', ''iso-8859-3'', ''iso-8859-4'', ''iso-8859-9'', ''iso-8859-10'', ''iso-8859-13'',
       ''iso-8859-14'', ''iso-8859-15'', ''iso-8859-16'']
     @ map (\<lambda>c. (c, EncBase64)) [''gb2312'', ''gbk'', ''gb18030'', ''big5'', ''euc-jp'', ''shift_jis'', ''utf-8'']
     @ [(''us-ascii'', Bit7)]"

definition alias_map :: "(string \<times> string) list" where
  "alias_map =
     [(''latin_1'', ''iso-8859-1''), (''latin-1'', ''iso-8859-1''), (''latin_2'', ''iso-8859-2''), (''latin-2'', ''iso-8859-2''),
      (''latin_3'', ''iso-8859-3''), (''latin-3'', ''iso-8859-3''), (''latin_4'', ''iso-8859-4''), (''latin-4'', ''iso-8859-4''),
      (''latin_5'', ''iso-8859-9''), (''latin-5'', ''iso-8859-9''), (''latin_6'', ''iso-8859-10''), (''latin-6'', ''iso-8859-10''),
      (''latin_7'', ''iso-8859-13''), (''latin-7'', ''iso-8859-13''), (''latin_8'', ''iso-8859-14''), (''latin-8'', ''iso-8859-14''),
      (''latin_9'', ''iso-8859-15''), (''latin-9'', ''iso-8859-15''), (''latin_10'', ''iso-8859-16''), (''latin-10'', ''iso-8859-16''),
      (''euc_jp'', ''euc-jp''), (''ascii'', ''us-ascii'')]"

definition get_encoding :: "string \<Rightarrow> mime_encoding" where
  "get_encoding cs = (case map_of charset_map cs of Some e \<Rightarrow> e | None \<Rightarrow> EncNone)"

definition get_canonical :: "string \<Rightarrow> string option" where
  "get_canonical cs = map_of alias_map cs"

definition decode_ascii :: "string \<Rightarrow> bool" where
  "decode_ascii d = list_all (\<lambda>c. code c < 128) d"

definition encode_7or8bit :: "string \<Rightarrow> string" where
  "encode_7or8bit d = (if decode_ascii d then ''7bit'' else ''8bit'')"

section \<open>Objects\<close>

record mime_base =
  top_level :: bool
  mheaders :: headers
  encoded_data :: string

definition base_new :: mime_base where
  "base_new = \<lparr>top_level = True, mheaders = [], encoded_data = []\<rparr>"

definition mime_add_header :: "string \<Rightarrow> string \<Rightarrow> mime_base \<Rightarrow> mime_base" where
  "mime_add_header f v b = b\<lparr>mheaders := hdr_emplace f v (mheaders b)\<rparr>"

definition mime_encode :: "string \<Rightarrow> mime_encoding \<Rightarrow> mime_base \<Rightarrow> mime_base" where
  "mime_encode d enc b =
     (case enc of
        EncQP \<Rightarrow> mime_add_header ''Content-Transfer-Encoding'' ''quoted-printable'' (b\<lparr>encoded_data := qp_encode d\<rparr>)
      | EncBase64 \<Rightarrow> mime_add_header ''Content-Transfer-Encoding'' ''base64'' (b\<lparr>encoded_data := base64_encode Mime d\<rparr>)
      | Bit7 \<Rightarrow> mime_add_header ''Content-Transfer-Encoding'' ''7bit'' (b\<lparr>encoded_data := d\<rparr>)
      | Bit7or8 \<Rightarrow> mime_add_header ''Content-Transfer-Encoding'' (encode_7or8bit d) (b\<lparr>encoded_data := d\<rparr>)
      | EncNone \<Rightarrow> b)"

definition content_type_text :: "string \<Rightarrow> string \<Rightarrow> string option \<Rightarrow> string option \<Rightarrow> string" where
  "content_type_text type subtype name charset =
     type @ ''/'' @ subtype @ (case charset of None \<Rightarrow> [] | Some c \<Rightarrow> ''; charset='' @ c)
     @ (case name of None \<Rightarrow> [] | Some n \<Rightarrow> ''; name='' @ [CHR 0x22] @ n @ [CHR 0x22])"

definition mime_init :: "string \<Rightarrow> string \<Rightarrow> string \<Rightarrow> string option \<Rightarrow> mime_encoding \<Rightarrow> string option \<Rightarrow> mime_base" where
  "mime_init d type subtype name enc charset =
     mime_encode d enc (mime_add_header ''Content-Type'' (content_type_text type subtype name charset) base_new)"

definition text_plain :: "string \<Rightarrow> string option \<Rightarrow> mime_base" where
  "text_plain d name = mime_init d ''text'' ''plain'' name (get_encoding ''us-ascii'') (Some ''us-ascii'')"

text \<open>A character set that the table does not know fails the \<^verbatim>\<open>assert\<close>: \<open>None\<close>.\<close>

definition text_part :: "string \<Rightarrow> string \<Rightarrow> string \<Rightarrow> string option \<Rightarrow> mime_base option" where
  "text_part d subtype charset name =
     (let cs = to_lower charset; cs' = (case get_canonical cs of Some c \<Rightarrow> c | None \<Rightarrow> cs); enc = get_encoding cs'
      in if enc = EncNone then None else Some (mime_init d ''text'' subtype name enc (Some cs')))"

definition image :: "string \<Rightarrow> string \<Rightarrow> string \<Rightarrow> mime_base" where
  "image d subtype name = mime_init d ''image'' subtype (Some name) EncBase64 None"

definition audio :: "string \<Rightarrow> string \<Rightarrow> string \<Rightarrow> mime_base" where
  "audio d subtype name = mime_init d ''audio'' subtype (Some name) EncBase64 None"

definition video :: "string \<Rightarrow> string \<Rightarrow> string \<Rightarrow> mime_base" where
  "video d subtype name = mime_init d ''video'' subtype (Some name) EncBase64 None"

definition application_octets :: "string \<Rightarrow> string option \<Rightarrow> mime_base" where
  "application_octets d name = mime_init d ''application'' ''octet-stream'' name EncBase64 None"

definition application :: "string \<Rightarrow> string \<Rightarrow> string option \<Rightarrow> mime_base" where
  "application d subtype name = mime_init d ''application'' subtype name EncBase64 None"

text \<open>Objects with their overridden \<^verbatim>\<open>str\<close>; \<open>date\<close> is the text of \<^verbatim>\<open>format_date\<close>.\<close>

datatype mime_obj = Simple mime_base | Message mime_base mime_obj | Multipart mime_base string "mime_obj list"

definition base_str :: "string \<Rightarrow> mime_base \<Rightarrow> string" where
  "base_str date b =
     (let b1 = (if top_level b then mime_add_header ''MIME-Version'' ''1.0'' (mime_add_header ''Date'' date b) else b)
      in format_fields (mheaders b1) @ encoded_data b1)"

definition message_obj :: "mime_obj \<Rightarrow> string \<Rightarrow> mime_obj" where
  "message_obj m subtype = Message (mime_add_header ''Content-Type'' (''message/'' @ subtype) base_new) m"

definition multipart_obj :: "string \<Rightarrow> string \<Rightarrow> mime_obj" where
  "multipart_obj boundary subtype =
     Multipart (if subtype = ''form-data'' then base_new\<lparr>top_level := False\<rparr>
       else mime_add_header ''Content-Type'' (''multipart/'' @ subtype @ ''; boundary='' @ [CHR 0x22] @ boundary @ [CHR 0x22]) base_new) boundary []"

fun not_top :: "mime_obj \<Rightarrow> mime_obj" where
  "not_top (Simple b) = Simple (b\<lparr>top_level := False\<rparr>)"
| "not_top (Message b m) = Message (b\<lparr>top_level := False\<rparr>) m"
| "not_top (Multipart b bd ps) = Multipart (b\<lparr>top_level := False\<rparr>) bd ps"

fun attach :: "mime_obj \<Rightarrow> mime_obj \<Rightarrow> mime_obj" where
  "attach part (Multipart b bd ps) = Multipart b bd (ps @ [not_top part])"
| "attach part m = m"

text \<open>The two \<^verbatim>\<open>pop_back\<close> take the last \<^verbatim>\<open>CRLF\<close> away, which is the end of the header when there are no parts.\<close>

fun mime_str :: "string \<Rightarrow> mime_obj \<Rightarrow> string" where
  "mime_str date (Simple b) = base_str date b"
| "mime_str date (Message b m) = base_str date b @ mime_str date m"
| "mime_str date (Multipart b bd ps) =
     (let out = base_str date b @ (if ps = [] then [] else ''--'' @ bd @ CRLF)
            @ concat (map (\<lambda>p. mime_str date p @ CRLF @ ''--'' @ bd @ CRLF) ps)
      in butlast (butlast out) @ ''--'')"

definition add_text_part :: "string \<Rightarrow> string \<Rightarrow> mime_obj \<Rightarrow> mime_obj" where
  "add_text_part name v m =
     attach (Simple (mime_add_header ''Content-Type'' ''text/plain; charset=utf-8''
       (mime_add_header ''Content-Disposition'' (''form-data; name='' @ [CHR 0x22] @ name @ [CHR 0x22]) base_new)\<lparr>encoded_data := v\<rparr>)) m"

text \<open>\<open>content\<close> is what the file holds, \<open>media\<close> its media type.\<close>

definition add_file_part :: "string \<Rightarrow> string \<Rightarrow> string \<Rightarrow> string option \<Rightarrow> mime_obj \<Rightarrow> mime_obj" where
  "add_file_part name pathname content media m =
     attach (Simple (mime_add_header ''Content-Type'' (case media of None \<Rightarrow> ''application/octet-stream'' | Some t \<Rightarrow> t)
       (mime_add_header ''Content-Disposition''
         (''form-data; name='' @ [CHR 0x22] @ name @ [CHR 0x22] @ ''; filename='' @ [CHR 0x22] @ pathname @ [CHR 0x22]) base_new)\<lparr>encoded_data := content\<rparr>)) m"

definition form_content_type :: "string \<Rightarrow> string" where
  "form_content_type boundary = ''Content-Type: multipart/form-data; boundary='' @ [CHR 0x22] @ boundary @ [CHR 0x22]"

section \<open>Media types of files\<close>

record mimetypes =
  mime_types :: "string \<rightharpoonup> string list"
  file_extensions :: "(string \<times> string) list"

definition add_extension :: "string \<Rightarrow> string \<Rightarrow> mimetypes \<Rightarrow> mimetypes" where
  "add_extension type ext m =
     m\<lparr>mime_types := (mime_types m)(type \<mapsto> (case mime_types m type of None \<Rightarrow> [] | Some es \<Rightarrow> es) @ [ext]),
       file_extensions := file_extensions m @ [(ext, type)]\<rparr>"

definition mimetypes_new :: "string list list \<Rightarrow> mimetypes" where
  "mimetypes_new conf =
     fold (\<lambda>args. fold (add_extension (args ! 0)) (tl args)) conf \<lparr>mime_types = Map.empty, file_extensions = []\<rparr>"

definition forget_type :: "string \<Rightarrow> mimetypes \<Rightarrow> mimetypes" where
  "forget_type type m =
     (case mime_types m type of
        None \<Rightarrow> m
      | Some es \<Rightarrow> m\<lparr>file_extensions := filter (\<lambda>(e, t). e \<notin> set es) (file_extensions m), mime_types := (mime_types m)(type := None)\<rparr>)"

definition mimetypes_load :: "string list list \<Rightarrow> mimetypes \<Rightarrow> mimetypes" where
  "mimetypes_load conf = fold (\<lambda>args m. fold (add_extension (args ! 0)) (tl args) (forget_type (args ! 0) m)) conf"

definition get_suffix :: "string \<Rightarrow> string" where
  "get_suffix filename = (if CHR ''.'' \<in> set filename then rev (takeWhile (\<lambda>c. c \<noteq> CHR ''.'') (rev filename)) else [])"

text \<open>\<^verbatim>\<open>find\<close> of a multimap gives some element with the key: \<open>pick\<close> chooses it.\<close>

definition get_mime_type :: "(string list \<Rightarrow> string) \<Rightarrow> string \<Rightarrow> mimetypes \<Rightarrow> string option" where
  "get_mime_type pick filename m =
     (let suffix = get_suffix filename; ts = map snd (filter (\<lambda>(e, t). e = suffix) (file_extensions m))
      in if suffix = [] \<or> ts = [] then None else Some (pick ts))"

definition get_file_extensions :: "string \<Rightarrow> mimetypes \<Rightarrow> string list option" where
  "get_file_extensions type m = mime_types m type"

section \<open>Parsing fields\<close>

datatype ParseCode = NotEnough | ParseError | ParseOk

text \<open>\<open>None\<close>: the colon is behind the end of the line, the length of the value is negative.\<close>

function mime_parse_header :: "headers \<Rightarrow> buffer \<Rightarrow> (ParseCode \<times> headers \<times> buffer) option" where
  "mime_parse_header hs buf =
     (if readable buf = 0 then Some (NotEnough, hs, buf)
      else case find_crlf buf of
        None \<Rightarrow> Some (NotEnough, hs, buf)
      | Some crlf \<Rightarrow>
          if buf_starts_with buf CRLF then Some (ParseOk, hs, retrieve buf 2)
          else case buf_find buf '':'' of
            None \<Rightarrow> Some (ParseError, hs, buf)
          | Some pos \<Rightarrow>
              if pos > crlf then None
              else
                let field = take pos (peek buf);
                    val = trim (take (crlf - pos - 1) (drop (pos + 1) (peek buf)))
                in mime_parse_header (if val \<noteq> [] then hdr_emplace field val hs else hs) (retrieve buf (crlf + 2)))"
  by pat_completeness auto
termination
  by (relation "measure (\<lambda>(hs, buf). readable buf)") (auto simp: readable_retrieve_lt)

declare mime_parse_header.simps [simp del]

text \<open>The position of the closing quote.\<close>

fun parse_quoted_string :: "string \<Rightarrow> nat option" where
  "parse_quoted_string [] = None"
| "parse_quoted_string (c # cs) =
     (if c = CHR 0x5C then (case cs of [] \<Rightarrow> None | d # ds \<Rightarrow> map_option (\<lambda>n. n + 2) (parse_quoted_string ds))
      else if c = CHR 0x22 then Some 0
      else map_option Suc (parse_quoted_string cs))"

lemma tl_dropWhile_le: "length (tl (dropWhile P xs)) \<le> length xs"
  using length_dropWhile_le [of P xs] by simp

lemma plain_shorter:
  assumes "p = dropWhile R str" and "v = tl (dropWhile Q p)" and "rest = dropWhile P v" and "rest \<noteq> []"
  shows "((tl rest, params'), (str, params)) \<in> measure (\<lambda>(str, params). length str)"
proof -
  have "length (tl rest) < length rest" using assms(4) by simp
  also have "\<dots> \<le> length v" unfolding assms(3) by (rule length_dropWhile_le)
  also have "\<dots> \<le> length p" unfolding assms(2) by (rule tl_dropWhile_le)
  also have "\<dots> \<le> length str" unfolding assms(1) by (rule length_dropWhile_le)
  finally show ?thesis by simp
qed

lemma quoted_shorter:
  assumes "p = dropWhile R str" and "v = tl (dropWhile Q p)" and "rest = dropWhile P (drop n (tl v))" and "rest \<noteq> []"
  shows "((tl rest, params'), (str, params)) \<in> measure (\<lambda>(str, params). length str)"
proof -
  have "length (tl rest) < length rest" using assms(4) by simp
  also have "\<dots> \<le> length (drop n (tl v))" unfolding assms(3) by (rule length_dropWhile_le)
  also have "\<dots> \<le> length v" by simp
  also have "\<dots> \<le> length p" unfolding assms(2) by (rule tl_dropWhile_le)
  also have "\<dots> \<le> length str" unfolding assms(1) by (rule length_dropWhile_le)
  finally show ?thesis by simp
qed

record content_value =
  cv_value :: string
  cv_params :: headers

function parse_parameters :: "string \<Rightarrow> headers \<Rightarrow> bool \<times> headers" where
  "parse_parameters str params =
     (let p = dropWhile isspace str
      in if p = [] then (True, params)
         else if CHR ''='' \<notin> set p then (False, params)
         else
           let attr = takeWhile (\<lambda>c. c \<noteq> CHR ''='') p; v = tl (dropWhile (\<lambda>c. c \<noteq> CHR ''='') p)
           in if v = [] then (False, params)
              else if hd v = CHR 0x22 then
                case parse_quoted_string (tl v) of
                  None \<Rightarrow> (False, params)
                | Some n \<Rightarrow>
                    let params' = hdr_emplace attr (take n (tl v)) params; rest = dropWhile (\<lambda>c. c \<noteq> CHR '';'') (drop n (tl v))
                    in if rest = [] then (True, params') else parse_parameters (tl rest) params'
              else
                let params' = hdr_emplace attr (trim (takeWhile (\<lambda>c. c \<noteq> CHR '';'') v)) params; rest = dropWhile (\<lambda>c. c \<noteq> CHR '';'') v
                in if rest = [] then (True, params') else parse_parameters (tl rest) params')"
  by pat_completeness auto
termination
  by (relation "measure (\<lambda>(str, params). length str)")
    (simp, (rule quoted_shorter plain_shorter; assumption)+)

declare parse_parameters.simps [simp del]

end
