(* ===== verification/MimeParser.thy ===== *)
theory MimeParser
  imports Mime
begin

text \<open>
  The parser of multipart bodies, the second half of \<^verbatim>\<open>src/mime/mime.cc\<close>. It builds a tree of nodes from a buffer that a nonblocking socket
  fills, returns \<open>NotEnough\<close> in the middle of any element and goes on from there with the next call.

  \<^verbatim>\<open>multipart_node::parse\<close> calls itself for a nested multipart and for the next part; \<open>node_parse\<close> has fuel for these calls.
  \<open>fuel_suffices\<close> shows how much is enough, \<open>mime_stream\<close> that portions do not matter, \<open>multipart_roundtrip\<close> that what \<open>mime_str\<close>
  writes is read back. The stages are first related to functions on the unread bytes (names ending in \<open>_bytes\<close>).
\<close>

section \<open>Content types\<close>

text \<open>
  Without a parameter \<^verbatim>\<open>value.assign(str.begin(), pos)\<close> has the length \<^verbatim>\<open>npos\<close> and throws \<^verbatim>\<open>std::length_error\<close>: \<open>None\<close>.
\<close>

definition content_value_parse :: "string \<Rightarrow> (bool \<times> content_value) option" where
  "content_value_parse str =
     (if CHR '';'' \<notin> set str then None
      else let (ok, params) = parse_parameters (tl (dropWhile (\<lambda>c. c \<noteq> CHR '';'') str)) []
           in Some (ok, \<lparr>cv_value = takeWhile (\<lambda>c. c \<noteq> CHR '';'') str, cv_params = params\<rparr>))"

definition maintype :: "content_value \<Rightarrow> string" where
  "maintype ct = split (cv_value ct) CHR ''/'' ! 0"

definition content_type_parse :: "string \<Rightarrow> (bool \<times> content_value) option" where
  "content_type_parse str =
     map_option (\<lambda>(ok, ct). (ok \<and> length (split (cv_value ct) CHR ''/'') = 2, ct)) (content_value_parse str)"

section \<open>Nodes\<close>

record part_info =
  pn_headers :: headers
  pn_type :: content_value
  pn_body :: string

datatype node_state = DashBoundary | HeaderPart | BodyPart | Delimiter

record multi_info =
  mn_state :: node_state
  dash_boundary :: string
  delimiter :: string
  part_headers :: headers

text \<open>\<^verbatim>\<open>part_node\<close> and its subclass \<^verbatim>\<open>multipart_node\<close> with \<^verbatim>\<open>parts\<close> and \<^verbatim>\<open>cur\<close>.\<close>

datatype part_node = Leaf part_info | Multi part_info multi_info "part_node list" "part_node option"

fun is_multipart :: "part_node \<Rightarrow> bool" where
  "is_multipart (Leaf i) = False"
| "is_multipart (Multi i m ps cur) = True"

fun iter_parts :: "part_node \<Rightarrow> part_node list" where
  "iter_parts (Leaf i) = []"
| "iter_parts (Multi i m ps cur) = ps"

fun node_info :: "part_node \<Rightarrow> part_info" where
  "node_info (Leaf i) = i"
| "node_info (Multi i m ps cur) = i"

definition multipart_node :: "string \<Rightarrow> multi_info" where
  "multipart_node boundary =
     \<lparr>mn_state = DashBoundary, dash_boundary = ''--'' @ boundary, delimiter = CRLF @ ''--'' @ boundary, part_headers = []\<rparr>"

text \<open>
  The node and the fields that are left: they are swapped into the new node, and stay when the result is a null pointer.
  \<open>ty\<close> is the type of the enclosing multipart; \<open>None\<close> is an exception.
\<close>

definition get_part_node :: "content_value \<Rightarrow> headers \<Rightarrow> (part_node option \<times> headers) option" where
  "get_part_node ty hs =
     (case hdr_find ''Content-Type'' hs of
        None \<Rightarrow>
          Some (Some (Leaf \<lparr>pn_headers = hs,
            pn_type = (if equal_case (cv_value ty) ''multipart/digest'' then \<lparr>cv_value = ''message/rfc822'', cv_params = []\<rparr>
                       else \<lparr>cv_value = ''text/plain'', cv_params = [(''charset'', ''us-ascii'')]\<rparr>), pn_body = []\<rparr>), [])
      | Some v \<Rightarrow>
          (case content_type_parse v of
             None \<Rightarrow> None
           | Some (ok, ct) \<Rightarrow>
               if \<not> ok then Some (None, hs)
               else if \<not> equal_case (maintype ct) ''multipart'' then
                 Some (Some (Leaf \<lparr>pn_headers = hs, pn_type = ct, pn_body = []\<rparr>), [])
               else case hdr_find ''boundary'' (cv_params ct) of
                 None \<Rightarrow> Some (None, hs)
               | Some b \<Rightarrow> Some (Some (Multi \<lparr>pn_headers = hs, pn_type = ct, pn_body = []\<rparr> (multipart_node b) [] None), [])))"

definition part_decode :: "string \<Rightarrow> part_info \<Rightarrow> bool \<times> part_info" where
  "part_decode d i =
     (if d = [] then (True, i)
      else case hdr_find ''Content-Transfer-Encoding'' (pn_headers i) of
        None \<Rightarrow> (True, i)
      | Some enc \<Rightarrow>
          let b = (if equal_case enc ''base64'' then base64_decode Mime d
                   else if equal_case enc ''quoted-printable'' then qp_decode d else d)
          in (b \<noteq> [], i\<lparr>pn_body := b\<rparr>))"

fun node_decode :: "string \<Rightarrow> part_node \<Rightarrow> bool \<times> part_node" where
  "node_decode d (Leaf i) = (let (ok, i') = part_decode d i in (ok, Leaf i'))"
| "node_decode d (Multi i m ps cur) = (let (ok, i') = part_decode d i in (ok, Multi i' m ps cur))"

section \<open>The parser of a node\<close>

datatype 'a outcome = Val 'a | Throws | NoFuel

type_synonym 'b result = "(ParseCode \<times> part_node \<times> 'b) outcome"

definition andthen :: "'b result \<Rightarrow> (part_node \<Rightarrow> 'b \<Rightarrow> 'b result) \<Rightarrow> 'b result" where
  "andthen r f = (case r of Val (c, nd, b) \<Rightarrow> if c = ParseOk then f nd b else r | Throws \<Rightarrow> Throws | NoFuel \<Rightarrow> NoFuel)"

definition islwsp :: "char \<Rightarrow> bool" where
  "islwsp c \<longleftrightarrow> c = SP \<or> c = HT"

function skip_lwsp_char :: "buffer \<Rightarrow> buffer" where
  "skip_lwsp_char buf = (if readable buf > 0 \<and> islwsp (hd (peek buf)) then skip_lwsp_char (retrieve buf 1) else buf)"
  by pat_completeness auto
termination
  by (relation "measure readable") (auto simp: readable_retrieve_lt)

declare skip_lwsp_char.simps [simp del]

text \<open>
  The cases of the \<^verbatim>\<open>switch\<close>, which fall through: each one does nothing when the state is a later one. \<open>Throws\<close> stands for an exception,
  an iterator range with a negative length and a call on an object that is not a multipart or is already complete.
\<close>

definition dash_stage :: "part_node \<Rightarrow> buffer \<Rightarrow> buffer result" where
  "dash_stage nd buf =
     (case nd of
        Leaf i \<Rightarrow> Throws
      | Multi i m ps cur \<Rightarrow>
          if mn_state m \<noteq> DashBoundary then Val (ParseOk, nd, buf)
          else case find_crlf buf of
            None \<Rightarrow> Val (NotEnough, nd, buf)
          | Some crlf \<Rightarrow>
              if \<not> buf_starts_with buf (dash_boundary m) then Val (ParseError, nd, buf)
              else if crlf < length (dash_boundary m) then Throws
              else if \<not> list_all islwsp (drop (length (dash_boundary m)) (take crlf (peek buf))) then Val (ParseError, nd, buf)
              else Val (ParseOk, Multi i (m\<lparr>mn_state := HeaderPart\<rparr>) ps cur, retrieve buf (crlf + 2)))"

definition header_stage :: "part_node \<Rightarrow> buffer \<Rightarrow> buffer result" where
  "header_stage nd buf =
     (case nd of
        Leaf i \<Rightarrow> Throws
      | Multi i m ps cur \<Rightarrow>
          if mn_state m \<noteq> HeaderPart \<or> cur \<noteq> None then Val (ParseOk, nd, buf)
          else case mime_parse_header (part_headers m) buf of
            None \<Rightarrow> Throws
          | Some (c, hs, buf') \<Rightarrow>
              if c \<noteq> ParseOk then Val (c, Multi i (m\<lparr>part_headers := hs\<rparr>) ps None, buf')
              else case get_part_node (pn_type i) hs of
                None \<Rightarrow> Throws
              | Some (cur', hs') \<Rightarrow>
                  Val (if cur' = None then ParseError else ParseOk, Multi i (m\<lparr>part_headers := hs'\<rparr>) ps cur', buf'))"

definition nested_stage :: "(part_node \<Rightarrow> 'b \<Rightarrow> 'b result) \<Rightarrow> part_node \<Rightarrow> 'b \<Rightarrow> 'b result" where
  "nested_stage parse nd buf =
     (case nd of
        Leaf i \<Rightarrow> Throws
      | Multi i m ps cur \<Rightarrow>
          if mn_state m \<noteq> HeaderPart then Val (ParseOk, nd, buf)
          else case cur of
            None \<Rightarrow> Throws
          | Some c \<Rightarrow>
              if is_multipart c then
                case parse c buf of
                  Val (rc, c', buf') \<Rightarrow>
                    Val (rc, Multi i (if rc = ParseOk then m\<lparr>mn_state := BodyPart\<rparr> else m) ps (Some c'), buf')
                | Throws \<Rightarrow> Throws
                | NoFuel \<Rightarrow> NoFuel
              else Val (ParseOk, Multi i (m\<lparr>mn_state := BodyPart\<rparr>) ps cur, buf))"

definition body_stage :: "part_node \<Rightarrow> buffer \<Rightarrow> buffer result" where
  "body_stage nd buf =
     (case nd of
        Leaf i \<Rightarrow> Throws
      | Multi i m ps cur \<Rightarrow>
          if mn_state m \<noteq> BodyPart then Val (ParseOk, nd, buf)
          else case buf_find buf (delimiter m) of
            None \<Rightarrow> Val (NotEnough, nd, buf)
          | Some pos \<Rightarrow>
              (case cur of
                 None \<Rightarrow> Throws
               | Some c \<Rightarrow>
                   let (ok, c') = node_decode (take pos (peek buf)) c
                   in if \<not> ok then Val (ParseError, Multi i m ps (Some c'), buf)
                      else Val (ParseOk, Multi i (m\<lparr>mn_state := Delimiter\<rparr>) ps (Some c'), retrieve buf (pos + length (delimiter m)))))"

definition delimiter_stage :: "(part_node \<Rightarrow> buffer \<Rightarrow> buffer result) \<Rightarrow> part_node \<Rightarrow> buffer \<Rightarrow> buffer result" where
  "delimiter_stage parse nd buf =
     (case nd of
        Leaf i \<Rightarrow> Throws
      | Multi i m ps cur \<Rightarrow>
          if readable buf < 2 then Val (NotEnough, nd, buf)
          else if buf_starts_with buf ''--'' then
            (case cur of
               None \<Rightarrow> Throws
             | Some c \<Rightarrow> Val (ParseOk, Multi i m (ps @ [c]) None, skip_lwsp_char (retrieve buf 2)))
          else case find_crlf buf of
            None \<Rightarrow> Val (NotEnough, nd, buf)
          | Some crlf \<Rightarrow>
              if \<not> list_all islwsp (take crlf (peek buf)) then Val (ParseError, nd, buf)
              else
                (case cur of
                   None \<Rightarrow> Throws
                 | Some c \<Rightarrow> parse (Multi i (m\<lparr>mn_state := HeaderPart\<rparr>) (ps @ [c]) None) (retrieve buf (crlf + 2))))"

primrec node_parse :: "nat \<Rightarrow> part_node \<Rightarrow> buffer \<Rightarrow> buffer result" where
  "node_parse 0 nd buf = NoFuel"
| "node_parse (Suc n) nd buf =
     andthen (dash_stage nd buf) (\<lambda>nd buf.
     andthen (header_stage nd buf) (\<lambda>nd buf.
     andthen (nested_stage (node_parse n) nd buf) (\<lambda>nd buf.
     andthen (body_stage nd buf) (\<lambda>nd buf.
     delimiter_stage (node_parse n) nd buf))))"

section \<open>The parser of a message\<close>

datatype mparse_state = Preamble | MultipartBody | Epilogue

record multipart_parser =
  mp_content_type :: string
  mp_state :: mparse_state
  preamble :: string
  epilogue :: string
  mp_root :: "part_node option"

definition multipart_parser_new :: "string \<Rightarrow> multipart_parser" where
  "multipart_parser_new ct = \<lparr>mp_content_type = ct, mp_state = Preamble, preamble = [], epilogue = [], mp_root = None\<rparr>"

text \<open>The first lines of \<^verbatim>\<open>multipart_parser::parse\<close>: \<open>None\<close> is an exception, \<open>Some None\<close> the return with \<^verbatim>\<open>Error\<close>.\<close>

definition make_root :: "multipart_parser \<Rightarrow> multipart_parser option option" where
  "make_root p =
     (if mp_root p \<noteq> None then Some (Some p)
      else case content_type_parse (mp_content_type p) of
        None \<Rightarrow> None
      | Some (ok, ct) \<Rightarrow>
          if \<not> ok \<or> \<not> equal_case (maintype ct) ''multipart'' then Some None
          else case hdr_find ''boundary'' (cv_params ct) of
            None \<Rightarrow> Some None
          | Some b \<Rightarrow> Some (Some (p\<lparr>mp_root := Some (Multi \<lparr>pn_headers = [], pn_type = ct, pn_body = []\<rparr> (multipart_node b) [] None),
              mp_state := Preamble\<rparr>)))"

fun root_boundary :: "multipart_parser \<Rightarrow> string" where
  "root_boundary p = (case mp_root p of Some (Multi i m ps cur) \<Rightarrow> dash_boundary m | _ \<Rightarrow> [])"

definition parse_epilogue :: "multipart_parser \<Rightarrow> buffer \<Rightarrow> ParseCode \<times> multipart_parser \<times> buffer" where
  "parse_epilogue p buf =
     (case find_crlf buf of
        None \<Rightarrow> (NotEnough, p, buf)
      | Some crlf \<Rightarrow> (ParseOk, p\<lparr>epilogue := take crlf (peek buf)\<rparr>, retrieve buf (crlf + 2)))"

definition parse_multipart_body :: "nat \<Rightarrow> multipart_parser \<Rightarrow> buffer \<Rightarrow> (ParseCode \<times> multipart_parser \<times> buffer) outcome" where
  "parse_multipart_body n p buf =
     (case mp_root p of
        None \<Rightarrow> Throws
      | Some nd \<Rightarrow>
          (case node_parse n nd buf of
             Throws \<Rightarrow> Throws
           | NoFuel \<Rightarrow> NoFuel
           | Val (c, nd', buf') \<Rightarrow>
               let p' = p\<lparr>mp_root := Some nd'\<rparr>
               in if c \<noteq> ParseOk then Val (c, p', buf')
                  else if buf_starts_with buf' CRLF then Val (parse_epilogue (p'\<lparr>mp_state := Epilogue\<rparr>) (retrieve buf' 2))
                  else Val (ParseOk, p', buf')))"

definition multipart_parse :: "nat \<Rightarrow> multipart_parser \<Rightarrow> buffer \<Rightarrow> (ParseCode \<times> multipart_parser \<times> buffer) outcome" where
  "multipart_parse n p0 buf =
     (case make_root p0 of
        None \<Rightarrow> Throws
      | Some None \<Rightarrow> Val (ParseError, p0, buf)
      | Some (Some p) \<Rightarrow>
          (case mp_state p of
             Preamble \<Rightarrow>
               (case find_crlf buf of
                  None \<Rightarrow> Val (NotEnough, p, buf)
                | Some crlf \<Rightarrow>
                    if \<not> buf_starts_with buf (root_boundary p) then
                      parse_multipart_body n (p\<lparr>preamble := take crlf (peek buf), mp_state := MultipartBody\<rparr>) (retrieve buf (crlf + 2))
                    else parse_multipart_body n (p\<lparr>mp_state := MultipartBody\<rparr>) buf)
           | MultipartBody \<Rightarrow> parse_multipart_body n p buf
           | Epilogue \<Rightarrow> Val (parse_epilogue p buf)))"

section \<open>The parser on bytes\<close>

fun mime_code :: "StatusCode \<Rightarrow> ParseCode" where
  "mime_code Continue = NotEnough"
| "mime_code Ok = ParseOk"
| "mime_code _ = ParseError"

definition header_bytes :: "headers \<Rightarrow> string \<Rightarrow> (ParseCode \<times> headers \<times> string) option" where
  "header_bytes hs s = map_option (\<lambda>(c, hs', r). (mime_code c, hs', r)) (parse_header_bytes hs s)"

lemma find_crlf_start: "buffer_wf b \<Longrightarrow> find_crlf b = Some k \<Longrightarrow> buf_starts_with b CRLF \<longleftrightarrow> k = 0"
  using search_Some_prefix [of CRLF "peek b" k] search_Some_first [of CRLF "peek b" k 0]
  by (auto simp: find_crlf_search buf_starts_with_iff)

lemma mime_parse_header_eq:
  "buffer_wf b \<Longrightarrow> mime_parse_header hs b = map_option (\<lambda>(c, hs', b'). (mime_code c, hs', b')) (parse_header hs b)"
proof (induction hs b rule: mime_parse_header.induct)
  case (1 hs b)
  show ?case
  proof (cases "find_crlf b")
    case None
    then show ?thesis by (subst mime_parse_header.simps, subst parse_header.simps) simp
  next
    case (Some k)
    note start = find_crlf_start [OF 1(2) Some]
    show ?thesis
      using 1 Some start
      by (subst mime_parse_header.simps, subst parse_header.simps)
        (auto simp: Let_def retrieve_wf split: option.split)
  qed
qed

lemma mime_parse_header_bytes:
  "buffer_wf b \<Longrightarrow>
   (case mime_parse_header hs b of
      None \<Rightarrow> header_bytes hs (peek b) = None
    | Some (c, hs', b') \<Rightarrow> buffer_wf b' \<and> header_bytes hs (peek b) = Some (c, hs', peek b'))"
  using parse_header_refines [of b hs] by (auto simp: mime_parse_header_eq header_bytes_def split: option.splits)

definition find_bytes :: "string \<Rightarrow> string \<Rightarrow> nat option" where
  "find_bytes pat s = (case search pat s of None \<Rightarrow> None | Some i \<Rightarrow> if i = length s then None else Some i)"

definition dash_bytes :: "part_node \<Rightarrow> string \<Rightarrow> string result" where
  "dash_bytes nd s =
     (case nd of
        Leaf i \<Rightarrow> Throws
      | Multi i m ps cur \<Rightarrow>
          if mn_state m \<noteq> DashBoundary then Val (ParseOk, nd, s)
          else case search CRLF s of
            None \<Rightarrow> Val (NotEnough, nd, s)
          | Some k \<Rightarrow>
              if \<not> prefix (dash_boundary m) s then Val (ParseError, nd, s)
              else if k < length (dash_boundary m) then Throws
              else if \<not> list_all islwsp (drop (length (dash_boundary m)) (take k s)) then Val (ParseError, nd, s)
              else Val (ParseOk, Multi i (m\<lparr>mn_state := HeaderPart\<rparr>) ps cur, drop (k + 2) s))"

definition fields_bytes :: "part_node \<Rightarrow> string \<Rightarrow> string result" where
  "fields_bytes nd s =
     (case nd of
        Leaf i \<Rightarrow> Throws
      | Multi i m ps cur \<Rightarrow>
          if mn_state m \<noteq> HeaderPart \<or> cur \<noteq> None then Val (ParseOk, nd, s)
          else case header_bytes (part_headers m) s of
            None \<Rightarrow> Throws
          | Some (c, hs, r) \<Rightarrow>
              if c \<noteq> ParseOk then Val (c, Multi i (m\<lparr>part_headers := hs\<rparr>) ps None, r)
              else case get_part_node (pn_type i) hs of
                None \<Rightarrow> Throws
              | Some (cur', hs') \<Rightarrow>
                  Val (if cur' = None then ParseError else ParseOk, Multi i (m\<lparr>part_headers := hs'\<rparr>) ps cur', r))"

definition body_bytes :: "part_node \<Rightarrow> string \<Rightarrow> string result" where
  "body_bytes nd s =
     (case nd of
        Leaf i \<Rightarrow> Throws
      | Multi i m ps cur \<Rightarrow>
          if mn_state m \<noteq> BodyPart then Val (ParseOk, nd, s)
          else case find_bytes (delimiter m) s of
            None \<Rightarrow> Val (NotEnough, nd, s)
          | Some pos \<Rightarrow>
              (case cur of
                 None \<Rightarrow> Throws
               | Some c \<Rightarrow>
                   let (ok, c') = node_decode (take pos s) c
                   in if \<not> ok then Val (ParseError, Multi i m ps (Some c'), s)
                      else Val (ParseOk, Multi i (m\<lparr>mn_state := Delimiter\<rparr>) ps (Some c'), drop (pos + length (delimiter m)) s)))"

definition delimiter_bytes :: "(part_node \<Rightarrow> string \<Rightarrow> string result) \<Rightarrow> part_node \<Rightarrow> string \<Rightarrow> string result" where
  "delimiter_bytes parse nd s =
     (case nd of
        Leaf i \<Rightarrow> Throws
      | Multi i m ps cur \<Rightarrow>
          if length s < 2 then Val (NotEnough, nd, s)
          else if prefix ''--'' s then
            (case cur of
               None \<Rightarrow> Throws
             | Some c \<Rightarrow> Val (ParseOk, Multi i m (ps @ [c]) None, dropWhile islwsp (drop 2 s)))
          else case search CRLF s of
            None \<Rightarrow> Val (NotEnough, nd, s)
          | Some k \<Rightarrow>
              if \<not> list_all islwsp (take k s) then Val (ParseError, nd, s)
              else
                (case cur of
                   None \<Rightarrow> Throws
                 | Some c \<Rightarrow> parse (Multi i (m\<lparr>mn_state := HeaderPart\<rparr>) (ps @ [c]) None) (drop (k + 2) s)))"

primrec node_bytes :: "nat \<Rightarrow> part_node \<Rightarrow> string \<Rightarrow> string result" where
  "node_bytes 0 nd s = NoFuel"
| "node_bytes (Suc n) nd s =
     andthen (dash_bytes nd s) (\<lambda>nd s.
     andthen (fields_bytes nd s) (\<lambda>nd s.
     andthen (nested_stage (node_bytes n) nd s) (\<lambda>nd s.
     andthen (body_bytes nd s) (\<lambda>nd s.
     delimiter_bytes (node_bytes n) nd s))))"

definition refines :: "buffer result \<Rightarrow> string result \<Rightarrow> bool" where
  "refines r r' \<longleftrightarrow>
     (case r of
        Val (c, nd, b) \<Rightarrow> buffer_wf b \<and> r' = Val (c, nd, peek b)
      | Throws \<Rightarrow> r' = Throws
      | NoFuel \<Rightarrow> r' = NoFuel)"

lemma refines_simps [simp]:
  "refines (Val (c, nd, b)) r' \<longleftrightarrow> buffer_wf b \<and> r' = Val (c, nd, peek b)"
  "refines Throws r' \<longleftrightarrow> r' = Throws" "refines NoFuel r' \<longleftrightarrow> r' = NoFuel"
  by (simp_all add: refines_def)

lemma andthen_simps [simp]:
  "andthen (Val (ParseOk, nd, b)) f = f nd b" "andthen (Val (NotEnough, nd, b)) f = Val (NotEnough, nd, b)"
  "andthen (Val (ParseError, nd, b)) f = Val (ParseError, nd, b)" "andthen Throws f = Throws" "andthen NoFuel f = NoFuel"
  by (simp_all add: andthen_def)

lemma andthen_refines:
  assumes "refines r r'" and "\<And>nd b. buffer_wf b \<Longrightarrow> refines (f nd b) (f' nd (peek b))"
  shows "refines (andthen r f) (andthen r' f')"
proof (cases r)
  case (Val x)
  obtain c nd b where x: "x = (c, nd, b)" by (cases x)
  show ?thesis using assms(1) assms(2) [of b nd] unfolding Val x by (cases c) auto
qed (use assms(1) in simp_all)

lemma skip_lwsp_char_peek: "buffer_wf b \<Longrightarrow> buffer_wf (skip_lwsp_char b) \<and> peek (skip_lwsp_char b) = dropWhile islwsp (peek b)"
proof (induction b rule: skip_lwsp_char.induct)
  case (1 b)
  have "readable b > 0 \<longleftrightarrow> peek b \<noteq> []" using length_peek [OF 1(2)] by (metis length_greater_0_conv)
  with 1 show ?case
    by (subst (1 2) skip_lwsp_char.simps)
      (cases "peek b"; auto simp: retrieve_wf retrieve_peek)
qed

lemma dash_refines: "buffer_wf b \<Longrightarrow> refines (dash_stage nd b) (dash_bytes nd (peek b))"
  by (cases nd) (auto simp: dash_stage_def dash_bytes_def find_crlf_search buf_starts_with_iff retrieve_wf retrieve_peek split: option.split)

lemma fields_refines: "buffer_wf b \<Longrightarrow> refines (header_stage nd b) (fields_bytes nd (peek b))"
proof (cases nd)
  case (Multi i m ps cur)
  assume "buffer_wf b"
  then show ?thesis
    using mime_parse_header_bytes [of b "part_headers m"] unfolding Multi
    by (auto simp: header_stage_def fields_bytes_def split: option.splits prod.splits)
qed (simp add: header_stage_def fields_bytes_def)

lemma nested_refines:
  assumes "buffer_wf b" and "\<And>nd b. buffer_wf b \<Longrightarrow> refines (f nd b) (g nd (peek b))"
  shows "refines (nested_stage f nd b) (nested_stage g nd (peek b))"
proof (cases nd)
  case (Multi i m ps cur)
  show ?thesis
  proof (cases cur)
    case (Some c)
    then show ?thesis using assms(1) assms(2) [OF assms(1), of c] unfolding Multi
      by (auto simp: nested_stage_def refines_def split: outcome.splits)
  qed (use assms(1) in \<open>simp add: nested_stage_def Multi\<close>)
qed (simp add: nested_stage_def)

lemma body_refines:
  assumes "buffer_wf b"
  shows "refines (body_stage nd b) (body_bytes nd (peek b))"
proof (cases nd)
  case (Multi i m ps cur)
  have "buf_find b (delimiter m) = find_bytes (delimiter m) (peek b)" by (simp add: buf_find_def find_bytes_def)
  then show ?thesis
    using assms unfolding Multi
    by (auto simp: body_stage_def body_bytes_def retrieve_wf retrieve_peek split: option.split prod.split)
qed (simp add: body_stage_def body_bytes_def)

lemma delimiter_refines:
  assumes "buffer_wf b" and "\<And>nd b. buffer_wf b \<Longrightarrow> refines (f nd b) (g nd (peek b))"
  shows "refines (delimiter_stage f nd b) (delimiter_bytes g nd (peek b))"
  using assms(1) length_peek [OF assms(1)] skip_lwsp_char_peek [OF retrieve_wf [OF assms(1)]]
  by (cases nd) (auto simp: delimiter_stage_def delimiter_bytes_def find_crlf_search buf_starts_with_iff retrieve_wf retrieve_peek
      split: option.split intro!: assms(2) [of "retrieve b _", unfolded retrieve_peek])

lemma node_refines: "buffer_wf b \<Longrightarrow> refines (node_parse n nd b) (node_bytes n nd (peek b))"
proof (induction n arbitrary: nd b)
  case (Suc n)
  then show ?case
    by (auto intro!: andthen_refines dash_refines fields_refines nested_refines body_refines delimiter_refines)
qed simp

section \<open>Portions\<close>

lemma parse_header_bytes_ok:
  "parse_header_bytes hs s = Some (Ok, hs1, s1) \<Longrightarrow> parse_header_bytes hs (s @ t) = Some (Ok, hs1, s1 @ t) \<and> length s1 + 2 \<le> length s"
proof (induction hs s rule: parse_header_bytes.induct)
  case (1 hs s)
  from 1(2) obtain k where k: "search CRLF s = Some k" "s \<noteq> []"
    using parse_header_bytes_wait [of s hs] by (cases "search CRLF s"; cases "s = []") auto
  have le: "k + 2 \<le> length s" using search_Some_le [OF k(1)] by simp
  show ?case
  proof (cases "k = 0")
    case True
    then show ?thesis
      using 1(2) k le parse_header_bytes_end [of s hs] parse_header_bytes_end [of "s @ t" hs] search_append_Some [OF k(1), of t] by auto
  next
    case nz: False
    obtain pos where p: "search '':'' s = Some pos" "\<not> pos > k"
      using 1(2) parse_header_bytes_bad [OF k(1) nz, of hs] parse_header_bytes_out [OF k(1) nz, of _ hs]
      by (cases "search '':'' s") force+
    have fa: "field_added hs (s @ t) pos k = field_added hs s pos k"
      using le p(2) by (simp add: field_added_def Let_def)
    have "parse_header_bytes hs (s @ t) = parse_header_bytes (field_added hs s pos k) (drop (k + 2) s @ t)"
      using parse_header_bytes_field [OF search_append_Some [OF k(1)] nz search_append_Some [OF p(1)] p(2), of hs t] le
      by (simp add: fa)
    moreover have "parse_header_bytes (field_added hs s pos k) (drop (k + 2) s) = Some (Ok, hs1, s1) \<Longrightarrow>
        parse_header_bytes (field_added hs s pos k) (drop (k + 2) s @ t) = Some (Ok, hs1, s1 @ t) \<and> length s1 + 2 \<le> length (drop (k + 2) s)"
      unfolding field_added_def Let_def by (rule 1(1) [OF k(2,1) nz p refl refl])
    moreover note 1(2) [unfolded parse_header_bytes_field [OF k(1) nz p]]
    ultimately show ?thesis by auto
  qed
qed

lemma mime_code_iff [simp]: "mime_code c = NotEnough \<longleftrightarrow> c = Continue" "mime_code c = ParseOk \<longleftrightarrow> c = Ok"
  by (cases c; simp)+

lemma header_bytes_wait: "header_bytes hs s = Some (NotEnough, hs1, s1) \<Longrightarrow> header_bytes hs1 (s1 @ t) = header_bytes hs (s @ t)"
  using parse_header_bytes_stream [of hs s hs1 s1 t] by (auto simp: header_bytes_def)

lemma header_bytes_grow:
  "header_bytes hs s = Some (ParseOk, hs1, s1) \<Longrightarrow> header_bytes hs (s @ t) = Some (ParseOk, hs1, s1 @ t) \<and> length s1 + 2 \<le> length s"
  using parse_header_bytes_ok [of hs s hs1 s1 t] by (auto simp: header_bytes_def)

text \<open>A stage does not change its result when more data follow, and can be resumed where it stopped.\<close>

definition grows :: "(part_node \<Rightarrow> string \<Rightarrow> string result) \<Rightarrow> string \<Rightarrow> bool" where
  "grows f t \<longleftrightarrow> (\<forall>nd s nd1 s1. f nd s = Val (ParseOk, nd1, s1) \<longrightarrow> f nd (s @ t) = Val (ParseOk, nd1, s1 @ t))"

text \<open>The position in the \<^verbatim>\<open>switch\<close>: stages below it have been passed.\<close>

fun rank :: "part_node \<Rightarrow> nat" where
  "rank (Leaf i) = 0"
| "rank (Multi i m ps cur) =
     (case mn_state m of DashBoundary \<Rightarrow> 0 | HeaderPart \<Rightarrow> if cur = None then 1 else 2 | BodyPart \<Rightarrow> 3 | Delimiter \<Rightarrow> 4)"

definition ranked :: "(part_node \<Rightarrow> string \<Rightarrow> string result) \<Rightarrow> bool" where
  "ranked f \<longleftrightarrow> (\<forall>nd s c nd1 s1. f nd s = Val (c, nd1, s1) \<longrightarrow> c \<noteq> ParseError \<longrightarrow> rank nd \<le> rank nd1)"

text \<open>The stages for a node of rank \<open>j\<close>; \<open>passed j k\<close>: the stage leads from rank \<open>j\<close> to rank \<open>k\<close> and does nothing from there on.\<close>

definition resumes :: "nat \<Rightarrow> (part_node \<Rightarrow> string \<Rightarrow> string result) \<Rightarrow> string \<Rightarrow> bool" where
  "resumes j f t \<longleftrightarrow>
     (\<forall>nd s nd1 s1. j \<le> rank nd \<longrightarrow> f nd s = Val (NotEnough, nd1, s1) \<longrightarrow> f nd (s @ t) \<noteq> NoFuel \<longrightarrow> f nd1 (s1 @ t) = f nd (s @ t))"

definition passed :: "nat \<Rightarrow> nat \<Rightarrow> (part_node \<Rightarrow> string \<Rightarrow> string result) \<Rightarrow> bool" where
  "passed j k f \<longleftrightarrow> (\<forall>nd s nd1 s1. j \<le> rank nd \<longrightarrow> f nd s = Val (ParseOk, nd1, s1) \<longrightarrow> k \<le> rank nd1) \<and>
     (\<forall>nd s. k \<le> rank nd \<longrightarrow> f nd s = Val (ParseOk, nd, s))"

lemma andthen_Val:
  "andthen r f = Val (c, nd1, s1) \<longleftrightarrow>
     (\<exists>nd s. r = Val (ParseOk, nd, s) \<and> f nd s = Val (c, nd1, s1)) \<or> c \<noteq> ParseOk \<and> r = Val (c, nd1, s1)"
  by (auto simp: andthen_def split: outcome.splits)

lemma andthen_NoFuel: "andthen r f = NoFuel \<longleftrightarrow> r = NoFuel \<or> (\<exists>nd s. r = Val (ParseOk, nd, s) \<and> f nd s = NoFuel)"
  by (auto simp: andthen_def split: outcome.splits)

lemma grows_andthen: "grows f t \<Longrightarrow> grows g t \<Longrightarrow> grows (\<lambda>nd s. andthen (f nd s) g) t"
  unfolding grows_def andthen_Val by blast

lemma ranked_andthen: "ranked f \<Longrightarrow> ranked g \<Longrightarrow> ranked (\<lambda>nd s. andthen (f nd s) g)"
  unfolding ranked_def andthen_Val by (meson ParseCode.distinct order_trans)

lemma resumes_andthen:
  assumes "grows f t" and "resumes j f t" and "resumes k g t" and "passed j k f" and mono: "\<And>nd s nd1 s1. g nd s = Val (NotEnough, nd1, s1) \<Longrightarrow> rank nd \<le> rank nd1"
  shows "resumes j (\<lambda>nd s. andthen (f nd s) g) t"
  unfolding resumes_def
proof (intro allI impI)
  fix nd s nd2 s2
  assume j: "j \<le> rank nd" and w: "andthen (f nd s) g = Val (NotEnough, nd2, s2)" and nf: "andthen (f nd (s @ t)) g \<noteq> NoFuel"
  then consider (here) "f nd s = Val (NotEnough, nd2, s2)"
    | (later) nd1 s1 where "f nd s = Val (ParseOk, nd1, s1)" "g nd1 s1 = Val (NotEnough, nd2, s2)"
    unfolding andthen_Val by blast
  then show "andthen (f nd2 (s2 @ t)) g = andthen (f nd (s @ t)) g"
  proof cases
    case here
    moreover have "f nd (s @ t) \<noteq> NoFuel" using nf by auto
    ultimately have "f nd2 (s2 @ t) = f nd (s @ t)" using assms(2) j unfolding resumes_def by blast
    then show ?thesis by simp
  next
    case later
    have k: "k \<le> rank nd1" using assms(4) j later(1) unfolding passed_def by blast
    then have "k \<le> rank nd2" using mono [OF later(2)] by simp
    then have "f nd2 (s2 @ t) = Val (ParseOk, nd2, s2 @ t)" using assms(4) unfolding passed_def by blast
    moreover have g: "f nd (s @ t) = Val (ParseOk, nd1, s1 @ t)" using assms(1) later(1) unfolding grows_def by blast
    moreover have "g nd2 (s2 @ t) = g nd1 (s1 @ t)"
      using assms(3) later(2) nf g k unfolding resumes_def by auto
    ultimately show ?thesis by simp
  qed
qed

lemma find_bytes_append: "find_bytes pat s = Some i \<Longrightarrow> find_bytes pat (s @ t) = Some i \<and> i + length pat \<le> length s"
  using search_append_Some [of pat s i t] search_Some_le [of pat s i] by (auto simp: find_bytes_def split: option.splits if_splits)

lemma dash_grows: "grows dash_bytes t"
  unfolding grows_def
proof (intro allI impI)
  fix nd s nd1 s1
  assume r: "dash_bytes nd s = Val (ParseOk, nd1, s1)"
  show "dash_bytes nd (s @ t) = Val (ParseOk, nd1, s1 @ t)"
  proof (cases nd)
    case (Multi i m ps cur)
    show ?thesis
    proof (cases "search CRLF s")
      case (Some k)
      then show ?thesis
        using r search_append_Some [OF Some, of t] search_Some_le [OF Some] unfolding Multi
        by (auto simp: dash_bytes_def split: if_splits)
    qed (use r in \<open>auto simp: Multi dash_bytes_def split: if_splits\<close>)
  qed (use r in \<open>simp add: dash_bytes_def\<close>)
qed

lemma dash_resumes: "resumes 0 dash_bytes t"
  by (auto simp: resumes_def dash_bytes_def split: part_node.splits if_splits option.splits)

lemma dash_passed: "passed 0 1 dash_bytes"
  by (auto simp: passed_def dash_bytes_def split: part_node.splits if_splits option.splits node_state.splits)

lemma dash_ranked: "ranked dash_bytes"
  by (auto simp: ranked_def dash_bytes_def split: part_node.splits if_splits option.splits node_state.splits)

lemma fields_grows: "grows fields_bytes t"
  unfolding grows_def
proof (intro allI impI)
  fix nd s nd1 s1
  assume r: "fields_bytes nd s = Val (ParseOk, nd1, s1)"
  then obtain i m ps cur where nd: "nd = Multi i m ps cur" by (cases nd) (auto simp: fields_bytes_def)
  show "fields_bytes nd (s @ t) = Val (ParseOk, nd1, s1 @ t)"
  proof (cases "header_bytes (part_headers m) s")
    case (Some x)
    obtain c hs r' where x: "x = (c, hs, r')" by (cases x)
    show ?thesis
      using r header_bytes_grow [of "part_headers m" s hs r' t] Some unfolding nd x
      by (auto simp: fields_bytes_def split: if_splits option.splits)
  qed (use r in \<open>auto simp: nd fields_bytes_def split: if_splits\<close>)
qed

lemma fields_resumes: "resumes 1 fields_bytes t"
  unfolding resumes_def
proof (intro allI impI)
  fix nd s nd1 s1
  assume r: "fields_bytes nd s = Val (NotEnough, nd1, s1)"
  then obtain i m ps cur where nd: "nd = Multi i m ps cur" by (cases nd) (auto simp: fields_bytes_def)
  from r obtain hs where "mn_state m = HeaderPart" "cur = None" "header_bytes (part_headers m) s = Some (NotEnough, hs, s1)"
    "nd1 = Multi i (m\<lparr>part_headers := hs\<rparr>) ps None"
    by (auto simp: nd fields_bytes_def split: if_splits option.splits)
  then show "fields_bytes nd1 (s1 @ t) = fields_bytes nd (s @ t)"
    using header_bytes_wait [of "part_headers m" s hs s1 t] by (simp add: nd fields_bytes_def split: option.split)
qed

lemma fields_passed: "passed 1 2 fields_bytes"
  by (auto simp: passed_def fields_bytes_def split: part_node.splits if_splits option.splits node_state.splits)

lemma fields_ranked: "ranked fields_bytes"
  by (auto simp: ranked_def fields_bytes_def split: part_node.splits if_splits option.splits node_state.splits)

lemma nested_grows:
  assumes "grows f t"
  shows "grows (nested_stage f) t"
  using assms
  by (auto simp: grows_def nested_stage_def split: part_node.splits if_splits option.splits outcome.splits)

lemma nested_resumes:
  assumes "resumes 0 f t" and multi: "\<And>c s rc c' s'. is_multipart c \<Longrightarrow> f c s = Val (rc, c', s') \<Longrightarrow> is_multipart c'"
  shows "resumes 2 (nested_stage f) t"
  unfolding resumes_def
proof (intro allI impI)
  fix nd s nd1 s1
  assume r: "nested_stage f nd s = Val (NotEnough, nd1, s1)" and nf: "nested_stage f nd (s @ t) \<noteq> NoFuel"
  then obtain i m ps c where nd: "nd = Multi i m ps (Some c)" "mn_state m = HeaderPart" "is_multipart c"
    by (auto simp: nested_stage_def split: part_node.splits if_splits option.splits)
  then obtain c' where c': "f c s = Val (NotEnough, c', s1)" "nd1 = Multi i m ps (Some c')"
    using r by (auto simp: nested_stage_def split: outcome.splits)
  have "f c (s @ t) \<noteq> NoFuel" using nf nd by (auto simp: nested_stage_def)
  then have "f c' (s1 @ t) = f c (s @ t)" using assms(1) c'(1) unfolding resumes_def by blast
  then show "nested_stage f nd1 (s1 @ t) = nested_stage f nd (s @ t)"
    using nd c'(2) multi [OF nd(3) c'(1)] by (simp add: nested_stage_def)
qed

lemma nested_passed: "passed 2 3 (nested_stage f)"
  by (auto simp: passed_def nested_stage_def split: part_node.splits if_splits option.splits node_state.splits outcome.splits)

lemma nested_ranked: "ranked (nested_stage f)"
  by (auto simp: ranked_def nested_stage_def split: part_node.splits if_splits option.splits node_state.splits outcome.splits)

lemma body_grows: "grows body_bytes t"
  unfolding grows_def
proof (intro allI impI)
  fix nd s nd1 s1
  assume r: "body_bytes nd s = Val (ParseOk, nd1, s1)"
  then obtain i m ps cur where nd: "nd = Multi i m ps cur" by (cases nd) (auto simp: body_bytes_def)
  show "body_bytes nd (s @ t) = Val (ParseOk, nd1, s1 @ t)"
  proof (cases "find_bytes (delimiter m) s")
    case (Some k)
    then show ?thesis
      using r find_bytes_append [OF Some, of t] unfolding nd
      by (auto simp: body_bytes_def split: if_splits option.splits prod.splits)
  qed (use r in \<open>auto simp: nd body_bytes_def split: if_splits\<close>)
qed

lemma body_resumes: "resumes 3 body_bytes t"
  by (auto simp: resumes_def body_bytes_def split: part_node.splits if_splits option.splits prod.splits)

lemma body_passed: "passed 3 4 body_bytes"
  by (auto simp: passed_def body_bytes_def split: part_node.splits if_splits option.splits node_state.splits prod.splits)

lemma body_ranked: "ranked body_bytes"
  by (auto simp: ranked_def body_bytes_def split: part_node.splits if_splits option.splits node_state.splits prod.splits)

text \<open>One round of the parser, up to the end of a part; the next part is left to \<open>next_part\<close>.\<close>

definition delimiter_once :: "part_node \<Rightarrow> string \<Rightarrow> string result" where
  "delimiter_once = delimiter_bytes (\<lambda>nd s. Val (ParseOk, nd, s))"

definition round_bytes :: "nat \<Rightarrow> part_node \<Rightarrow> string \<Rightarrow> string result" where
  "round_bytes n nd s =
     andthen (dash_bytes nd s) (\<lambda>nd s.
     andthen (fields_bytes nd s) (\<lambda>nd s.
     andthen (nested_stage (node_bytes n) nd s) (\<lambda>nd s.
     andthen (body_bytes nd s) delimiter_once)))"

definition next_part :: "nat \<Rightarrow> part_node \<Rightarrow> string \<Rightarrow> string result" where
  "next_part n nd s = (if rank nd = 4 then Val (ParseOk, nd, s) else node_bytes n nd s)"

lemma rank_4: "4 \<le> rank nd \<Longrightarrow> \<exists>i m ps cur. nd = Multi i m ps cur \<and> mn_state m = Delimiter"
  by (cases nd) (auto split: node_state.splits if_splits)

lemma delimiter_split: "4 \<le> rank nd \<Longrightarrow> delimiter_bytes (node_bytes n) nd s = andthen (delimiter_once nd s) (next_part n)"
  by (drule rank_4) (auto simp: delimiter_bytes_def delimiter_once_def next_part_def split: option.split)

lemma andthen_assoc: "andthen (andthen r f) g = andthen r (\<lambda>nd s. andthen (f nd s) g)"
  by (auto simp: andthen_def split: outcome.split)

lemma andthen_passed:
  assumes "passed j k f" and "j \<le> rank nd" and "\<And>nd s. k \<le> rank nd \<Longrightarrow> g nd s = h nd s"
  shows "andthen (f nd s) g = andthen (f nd s) h"
proof (cases "f nd s")
  case (Val x)
  obtain c nd1 s1 where x: "x = (c, nd1, s1)" by (cases x)
  then have "c = ParseOk \<Longrightarrow> k \<le> rank nd1" using assms(1,2) Val unfolding passed_def by blast
  with assms(3) show ?thesis by (simp add: Val x andthen_def)
qed simp_all

lemma node_round: "node_bytes (Suc n) nd s = andthen (round_bytes n nd s) (next_part n)"
  unfolding round_bytes_def andthen_assoc node_bytes.simps
  by (rule andthen_passed [OF dash_passed], simp, rule andthen_passed [OF fields_passed], assumption,
      rule andthen_passed [OF nested_passed], assumption, rule andthen_passed [OF body_passed], assumption, rule delimiter_split)

definition no_pad :: "string \<Rightarrow> bool" where
  "no_pad t \<longleftrightarrow> t = [] \<or> \<not> islwsp (hd t)"

lemma dropWhile_no_pad: "no_pad t \<Longrightarrow> dropWhile islwsp (s @ t) = dropWhile islwsp s @ t"
  by (induction s) (cases t; auto simp: no_pad_def)+

lemma delimiter_once_grows:
  assumes "no_pad t"
  shows "grows delimiter_once t"
  unfolding grows_def
proof (intro allI impI)
  fix nd s nd1 s1
  assume r: "delimiter_once nd s = Val (ParseOk, nd1, s1)"
  then obtain i m ps cur where nd: "nd = Multi i m ps cur" by (cases nd) (auto simp: delimiter_once_def delimiter_bytes_def)
  have len: "2 \<le> length s" using r by (auto simp: nd delimiter_once_def delimiter_bytes_def split: if_splits)
  then have pre: "prefix ''--'' (s @ t) \<longleftrightarrow> prefix ''--'' s"
    by (cases s; cases "tl s") auto
  show "delimiter_once nd (s @ t) = Val (ParseOk, nd1, s1 @ t)"
  proof (cases "prefix ''--'' s")
    case True
    then show ?thesis
      using r len dropWhile_no_pad [OF assms, of "drop 2 s"]
      by (auto simp: nd delimiter_once_def delimiter_bytes_def pre split: option.splits)
  next
    case False
    with r len obtain k where k: "search CRLF s = Some k"
      by (auto simp: nd delimiter_once_def delimiter_bytes_def split: option.splits)
    then show ?thesis
      using r len False search_append_Some [OF k, of t] search_Some_le [OF k]
      by (auto simp: nd delimiter_once_def delimiter_bytes_def pre split: option.splits if_splits)
  qed
qed

lemma delimiter_once_resumes: "resumes 4 delimiter_once t"
  by (auto simp: resumes_def delimiter_once_def delimiter_bytes_def split: part_node.splits if_splits option.splits)

lemma delimiter_once_waits: "delimiter_once nd s = Val (NotEnough, nd1, s1) \<Longrightarrow> rank nd \<le> rank nd1"
  by (auto simp: delimiter_once_def delimiter_bytes_def split: part_node.splits if_splits option.splits)

lemma round_grows: "no_pad t \<Longrightarrow> grows (node_bytes n) t \<Longrightarrow> grows (round_bytes n) t"
  unfolding round_bytes_def [abs_def]
  by (intro grows_andthen dash_grows fields_grows nested_grows body_grows delimiter_once_grows)

lemma node_grows: "no_pad t \<Longrightarrow> grows (node_bytes n) t"
proof (induction n)
  case (Suc n)
  have "grows (next_part n) t" using Suc by (auto simp: grows_def next_part_def)
  then have "grows (\<lambda>nd s. andthen (round_bytes n nd s) (next_part n)) t"
    by (rule grows_andthen [OF round_grows [OF Suc.prems Suc.IH [OF Suc.prems]]])
  then show ?case by (simp only: grows_def node_round)
qed (simp add: grows_def)

text \<open>More fuel does not change a result.\<close>

lemma andthen_fuel:
  "\<lbrakk>r \<noteq> NoFuel \<Longrightarrow> r' = r; \<And>nd s. f nd s \<noteq> NoFuel \<Longrightarrow> g nd s = f nd s; andthen r f \<noteq> NoFuel\<rbrakk> \<Longrightarrow> andthen r' g = andthen r f"
  by (auto simp: andthen_def split: outcome.splits if_splits)

lemma nested_fuel:
  assumes "\<And>nd s. f nd s \<noteq> NoFuel \<Longrightarrow> g nd s = f nd s" and "nested_stage f nd s \<noteq> NoFuel"
  shows "nested_stage g nd s = nested_stage f nd s"
proof (cases nd)
  case (Multi i m ps cur)
  have "g c s = f c s" if "cur = Some c" "is_multipart c" "mn_state m = HeaderPart" for c
    by (rule assms(1)) (use assms(2) that in \<open>auto simp: nested_stage_def Multi\<close>)
  then show ?thesis by (auto simp: nested_stage_def Multi split: option.split)
qed (simp add: nested_stage_def)

lemma delimiter_fuel:
  assumes "\<And>nd s. f nd s \<noteq> NoFuel \<Longrightarrow> g nd s = f nd s" and "delimiter_bytes f nd s \<noteq> NoFuel"
  shows "delimiter_bytes g nd s = delimiter_bytes f nd s"
  using assms(2) by (auto simp: delimiter_bytes_def assms(1) split: part_node.splits option.splits if_splits)

definition node_step :: "(part_node \<Rightarrow> string \<Rightarrow> string result) \<Rightarrow> part_node \<Rightarrow> string \<Rightarrow> string result" where
  "node_step f nd s =
     andthen (dash_bytes nd s) (\<lambda>nd s.
     andthen (fields_bytes nd s) (\<lambda>nd s.
     andthen (nested_stage f nd s) (\<lambda>nd s.
     andthen (body_bytes nd s) (delimiter_bytes f))))"

lemma node_step_fuel:
  assumes "\<And>nd s. f nd s \<noteq> NoFuel \<Longrightarrow> g nd s = f nd s" and "node_step f nd s \<noteq> NoFuel"
  shows "node_step g nd s = node_step f nd s"
  using assms(2) unfolding node_step_def
  by (intro andthen_fuel nested_fuel delimiter_fuel assms(1) refl)

lemma node_fuel_Suc: "node_bytes n nd s \<noteq> NoFuel \<Longrightarrow> node_bytes (Suc n) nd s = node_bytes n nd s"
proof (induction n arbitrary: nd s)
  case (Suc n)
  have "node_bytes (Suc k) = node_step (node_bytes k)" for k by (simp add: node_step_def fun_eq_iff)
  then show ?case using node_step_fuel [of "node_bytes n" "node_bytes (Suc n)", OF Suc.IH, of nd s] Suc.prems by simp
qed simp

lemma node_fuel_mono: "node_bytes n nd s \<noteq> NoFuel \<Longrightarrow> n \<le> k \<Longrightarrow> node_bytes k nd s = node_bytes n nd s"
proof (induction k)
  case (Suc k)
  then show ?case using node_fuel_Suc [of k nd s] by (cases "n = Suc k") (auto simp del: node_bytes.simps)
qed simp

definition gives_multi :: "(part_node \<Rightarrow> string \<Rightarrow> string result) \<Rightarrow> bool" where
  "gives_multi f \<longleftrightarrow> (\<forall>nd s c nd1 s1. f nd s = Val (c, nd1, s1) \<longrightarrow> is_multipart nd1)"

lemma gives_multi_andthen: "gives_multi f \<Longrightarrow> gives_multi g \<Longrightarrow> gives_multi (\<lambda>nd s. andthen (f nd s) g)"
  unfolding gives_multi_def andthen_Val by blast

lemma stages_give_multi: "gives_multi dash_bytes" "gives_multi fields_bytes" "gives_multi (nested_stage f)" "gives_multi body_bytes"
  by (auto simp: gives_multi_def dash_bytes_def fields_bytes_def nested_stage_def body_bytes_def
      split: part_node.splits if_splits option.splits outcome.splits prod.splits)

lemma delimiter_gives_multi: "gives_multi f \<Longrightarrow> gives_multi (delimiter_bytes f)"
  by (auto simp: gives_multi_def delimiter_bytes_def split: part_node.splits if_splits option.splits)

lemma node_gives_multi: "gives_multi (node_bytes n)"
proof (induction n)
  case (Suc n)
  then show ?case
    unfolding node_bytes.simps by (intro gives_multi_andthen stages_give_multi delimiter_gives_multi)
qed (simp add: gives_multi_def)

lemma round_resumes:
  assumes "no_pad t" and "resumes 0 (node_bytes n) t"
  shows "resumes 0 (round_bytes n) t"
proof -
  let ?b = "\<lambda>nd s. andthen (body_bytes nd s) delimiter_once"
  let ?n = "\<lambda>nd s. andthen (nested_stage (node_bytes n) nd s) ?b"
  let ?f = "\<lambda>nd s. andthen (fields_bytes nd s) ?n"
  have wb: "rank nd \<le> rank nd1" if "?b nd s = Val (NotEnough, nd1, s1)" for nd s nd1 s1
    using that body_ranked delimiter_once_waits unfolding andthen_Val ranked_def by (meson ParseCode.distinct order_trans)
  have wn: "rank nd \<le> rank nd1" if "?n nd s = Val (NotEnough, nd1, s1)" for nd s nd1 s1
    using that nested_ranked [of "node_bytes n"] wb unfolding andthen_Val [of "nested_stage _ _ _"] ranked_def by (meson ParseCode.distinct order_trans)
  have wf: "rank nd \<le> rank nd1" if "?f nd s = Val (NotEnough, nd1, s1)" for nd s nd1 s1
    using that fields_ranked wn unfolding andthen_Val [of "fields_bytes _ _"] ranked_def by (meson ParseCode.distinct order_trans)
  have "resumes 3 ?b t"
    by (rule resumes_andthen [OF body_grows body_resumes delimiter_once_resumes body_passed delimiter_once_waits])
  moreover have "resumes 2 (nested_stage (node_bytes n)) t"
    by (rule nested_resumes [OF assms(2)]) (use node_gives_multi [of n] in \<open>unfold gives_multi_def, blast\<close>)
  ultimately have "resumes 2 ?n t"
    by (intro resumes_andthen [OF nested_grows [OF node_grows [OF assms(1)]] _ _ nested_passed wb])
  then have "resumes 1 ?f t" by (rule resumes_andthen [OF fields_grows fields_resumes _ fields_passed wn])
  then have "resumes 0 (\<lambda>nd s. andthen (dash_bytes nd s) ?f) t"
    by (rule resumes_andthen [OF dash_grows dash_resumes _ dash_passed wf])
  then show ?thesis unfolding round_bytes_def [abs_def] .
qed

lemma node_resumes: "no_pad t \<Longrightarrow> resumes 0 (node_bytes n) t"
proof (induction n)
  case (Suc n)
  note IH = Suc.IH [OF Suc.prems]
  show ?case
    unfolding resumes_def
  proof (intro allI impI)
    fix nd s nd2 s2
    assume w: "node_bytes (Suc n) nd s = Val (NotEnough, nd2, s2)" and nf: "node_bytes (Suc n) nd (s @ t) \<noteq> NoFuel"
    from w consider (here) "round_bytes n nd s = Val (NotEnough, nd2, s2)"
      | (later) nd1 s1 where "round_bytes n nd s = Val (ParseOk, nd1, s1)" "next_part n nd1 s1 = Val (NotEnough, nd2, s2)"
      unfolding node_round andthen_Val by blast
    then show "node_bytes (Suc n) nd2 (s2 @ t) = node_bytes (Suc n) nd (s @ t)"
    proof cases
      case here
      moreover have "round_bytes n nd (s @ t) \<noteq> NoFuel" using nf unfolding node_round by auto
      ultimately have "round_bytes n nd2 (s2 @ t) = round_bytes n nd (s @ t)"
        using round_resumes [OF Suc.prems IH] unfolding resumes_def by blast
      then show ?thesis unfolding node_round by simp
    next
      case later
      then have n1: "node_bytes n nd1 s1 = Val (NotEnough, nd2, s2)" "rank nd1 \<noteq> 4" by (auto simp: next_part_def split: if_splits)
      have "round_bytes n nd (s @ t) = Val (ParseOk, nd1, s1 @ t)"
        using round_grows [OF Suc.prems node_grows [OF Suc.prems]] later(1) unfolding grows_def by blast
      then have e: "node_bytes (Suc n) nd (s @ t) = node_bytes n nd1 (s1 @ t)"
        unfolding node_round using n1(2) by (simp add: next_part_def)
      with nf have "node_bytes n nd2 (s2 @ t) = node_bytes n nd1 (s1 @ t)"
        using IH n1(1) unfolding resumes_def by auto
      with e nf show ?thesis using node_fuel_Suc [of n nd2 "s2 @ t"] by simp
    qed
  qed
qed (simp add: resumes_def)

section \<open>The fuel\<close>

fun depth :: "part_node \<Rightarrow> nat" where
  "depth (Leaf i) = 0"
| "depth (Multi i m ps None) = 1"
| "depth (Multi i m ps (Some c)) = Suc (depth c)"

definition shrinks :: "(part_node \<Rightarrow> string \<Rightarrow> string result) \<Rightarrow> bool" where
  "shrinks f \<longleftrightarrow> (\<forall>nd s nd1 s1. f nd s = Val (ParseOk, nd1, s1) \<longrightarrow> length s1 \<le> length s)"

lemma shrinks_andthen: "shrinks f \<Longrightarrow> shrinks g \<Longrightarrow> shrinks (\<lambda>nd s. andthen (f nd s) g)"
  unfolding shrinks_def andthen_Val by (meson order_trans)

lemma stages_shrink: "shrinks dash_bytes" "shrinks fields_bytes" "shrinks body_bytes"
  using header_bytes_grow
  by (fastforce simp: shrinks_def dash_bytes_def fields_bytes_def body_bytes_def split: part_node.splits if_splits option.splits prod.splits)+

lemma nested_shrinks: "shrinks f \<Longrightarrow> shrinks (nested_stage f)"
  by (auto simp: shrinks_def nested_stage_def split: part_node.splits if_splits option.splits outcome.splits)

lemma delimiter_shrinks:
  assumes "shrinks f"
  shows "shrinks (delimiter_bytes f)"
  unfolding shrinks_def
proof (intro allI impI)
  fix nd s nd1 s1
  assume "delimiter_bytes f nd s = Val (ParseOk, nd1, s1)"
  then consider "s1 = dropWhile islwsp (drop 2 s)" | k nd' where "f nd' (drop (k + 2) s) = Val (ParseOk, nd1, s1)"
    by (auto simp: delimiter_bytes_def split: part_node.splits if_splits option.splits)
  then show "length s1 \<le> length s"
  proof cases
    case 1
    then show ?thesis using length_dropWhile_le [of islwsp "drop 2 s"] by simp
  next
    case 2
    then have "length s1 \<le> length (drop (k + 2) s)" using assms unfolding shrinks_def by blast
    then show ?thesis by simp
  qed
qed

lemmas recursive_stages_shrink = nested_shrinks delimiter_shrinks

lemma stages_need_no_fuel: "dash_bytes nd s \<noteq> NoFuel" "fields_bytes nd s \<noteq> NoFuel" "body_bytes nd s \<noteq> NoFuel"
  by (auto simp: dash_bytes_def fields_bytes_def body_bytes_def split: part_node.splits if_splits option.splits prod.splits)

lemma node_shrinks: "shrinks (node_bytes n)"
proof (induction n)
  case (Suc n)
  then show ?case unfolding node_bytes.simps by (intro shrinks_andthen stages_shrink recursive_stages_shrink)
qed (simp add: shrinks_def)

lemma depth_pos: "is_multipart nd \<Longrightarrow> 0 < depth nd"
  by (cases nd rule: depth.cases) auto

lemma dash_depth: "dash_bytes nd s = Val (ParseOk, nd1, s1) \<Longrightarrow> depth nd1 = depth nd \<and> is_multipart nd"
  by (cases nd rule: depth.cases) (auto simp: dash_bytes_def split: if_splits option.splits)

lemma get_part_node_depth: "get_part_node ty hs = Some (Some c, hs') \<Longrightarrow> depth c \<le> 1"
  by (auto simp: get_part_node_def split: option.splits if_splits)

lemma fields_depth: "fields_bytes nd s = Val (ParseOk, nd1, s1) \<Longrightarrow> length s1 + depth nd1 \<le> length s + depth nd"
  using header_bytes_grow get_part_node_depth
  by (cases nd rule: depth.cases) (fastforce simp: fields_bytes_def split: if_splits option.splits)+

lemma nested_enough:
  assumes "\<And>nd s. length s + depth nd < n \<Longrightarrow> f nd s \<noteq> NoFuel" and "length s + depth nd < Suc n"
  shows "nested_stage f nd s \<noteq> NoFuel"
proof (cases nd rule: depth.cases)
  case (3 i m ps c)
  then have "f c s \<noteq> NoFuel" using assms(2) by (intro assms(1)) simp
  then show ?thesis by (auto simp: 3 nested_stage_def split: outcome.split)
qed (auto simp: nested_stage_def)

lemma delimiter_enough:
  assumes "\<And>nd s. length s + depth nd < n \<Longrightarrow> f nd s \<noteq> NoFuel" and "length s < n"
  shows "delimiter_bytes f nd s \<noteq> NoFuel"
proof (cases nd)
  case (Multi i m ps cur)
  have "f (Multi i m' ps' None) (drop (k + 2) s) \<noteq> NoFuel" if "search CRLF s = Some k" for k m' ps'
    using assms(2) search_Some_le [OF that] by (intro assms(1)) simp
  then show ?thesis by (auto simp: Multi delimiter_bytes_def split: option.split)
qed (simp add: delimiter_bytes_def)

lemma node_enough: "length s + depth nd < n \<Longrightarrow> node_bytes n nd s \<noteq> NoFuel"
proof (induction n arbitrary: nd s)
  case (Suc n)
  note sh = stages_shrink(1,2) recursive_stages_shrink(1) [OF node_shrinks] stages_shrink(3)
  show ?case
  proof
    assume "node_bytes (Suc n) nd s = NoFuel"
    then obtain nd1 s1 nd2 s2 where d: "dash_bytes nd s = Val (ParseOk, nd1, s1)" and f: "fields_bytes nd1 s1 = Val (ParseOk, nd2, s2)"
      and r: "andthen (nested_stage (node_bytes n) nd2 s2) (\<lambda>nd s. andthen (body_bytes nd s) (delimiter_bytes (node_bytes n))) = NoFuel"
      unfolding node_bytes.simps andthen_NoFuel [of "dash_bytes _ _"] andthen_NoFuel [of "fields_bytes _ _"]
      using stages_need_no_fuel by blast
    have "length s1 \<le> length s" "length s2 \<le> length s1" using d f sh unfolding shrinks_def by blast+
    moreover have "length s2 + depth nd2 < Suc n"
      using dash_depth [OF d] fields_depth [OF f] \<open>length s1 \<le> length s\<close> Suc.prems by simp
    then have "nested_stage (node_bytes n) nd2 s2 \<noteq> NoFuel" using nested_enough [of n "node_bytes n" s2 nd2] Suc.IH by blast
    then obtain nd3 s3 where n: "nested_stage (node_bytes n) nd2 s2 = Val (ParseOk, nd3, s3)"
      and b: "andthen (body_bytes nd3 s3) (delimiter_bytes (node_bytes n)) = NoFuel"
      using r unfolding andthen_NoFuel [of "nested_stage _ _ _"] by blast
    then obtain nd4 s4 where b: "body_bytes nd3 s3 = Val (ParseOk, nd4, s4)" "delimiter_bytes (node_bytes n) nd4 s4 = NoFuel"
      unfolding andthen_NoFuel using stages_need_no_fuel by blast
    ultimately have "length s4 \<le> length s" using n sh unfolding shrinks_def by (meson order_trans)
    then have "length s4 < n" using Suc.prems depth_pos dash_depth [OF d] by fastforce
    with b(2) show False using delimiter_enough [of n "node_bytes n" s4 nd4] Suc.IH by blast
  qed
qed simp

section \<open>The message in portions\<close>

type_synonym 'b mresult = "(ParseCode \<times> multipart_parser \<times> 'b) outcome"

definition unread :: "buffer mresult \<Rightarrow> string mresult" where
  "unread = map_outcome (\<lambda>(c, p, b). (c, p, peek b))"

lemma unread_simps [simp]: "unread (Val (c, p, b)) = Val (c, p, peek b)" "unread Throws = Throws" "unread NoFuel = NoFuel"
  by (simp_all add: unread_def)

definition epilogue_bytes :: "multipart_parser \<Rightarrow> string \<Rightarrow> ParseCode \<times> multipart_parser \<times> string" where
  "epilogue_bytes p s =
     (case search CRLF s of None \<Rightarrow> (NotEnough, p, s) | Some k \<Rightarrow> (ParseOk, p\<lparr>epilogue := take k s\<rparr>, drop (k + 2) s))"

definition multipart_body_bytes :: "nat \<Rightarrow> multipart_parser \<Rightarrow> string \<Rightarrow> string mresult" where
  "multipart_body_bytes n p s =
     (case mp_root p of
        None \<Rightarrow> Throws
      | Some nd \<Rightarrow>
          (case node_bytes n nd s of
             Throws \<Rightarrow> Throws
           | NoFuel \<Rightarrow> NoFuel
           | Val (c, nd', s') \<Rightarrow>
               let p' = p\<lparr>mp_root := Some nd'\<rparr>
               in if c \<noteq> ParseOk then Val (c, p', s')
                  else if prefix CRLF s' then Val (epilogue_bytes (p'\<lparr>mp_state := Epilogue\<rparr>) (drop 2 s'))
                  else Val (ParseOk, p', s')))"

definition started_bytes :: "nat \<Rightarrow> multipart_parser \<Rightarrow> string \<Rightarrow> string mresult" where
  "started_bytes n p s =
     (case mp_state p of
        Preamble \<Rightarrow>
          (case search CRLF s of
             None \<Rightarrow> Val (NotEnough, p, s)
           | Some k \<Rightarrow>
               if \<not> prefix (root_boundary p) s then
                 multipart_body_bytes n (p\<lparr>preamble := take k s, mp_state := MultipartBody\<rparr>) (drop (k + 2) s)
               else multipart_body_bytes n (p\<lparr>mp_state := MultipartBody\<rparr>) s)
      | MultipartBody \<Rightarrow> multipart_body_bytes n p s
      | Epilogue \<Rightarrow> Val (epilogue_bytes p s))"

definition multipart_bytes :: "nat \<Rightarrow> multipart_parser \<Rightarrow> string \<Rightarrow> string mresult" where
  "multipart_bytes n p0 s =
     (case make_root p0 of None \<Rightarrow> Throws | Some None \<Rightarrow> Val (ParseError, p0, s) | Some (Some p) \<Rightarrow> started_bytes n p s)"

lemma epilogue_unread: "unread (Val (parse_epilogue p b)) = Val (epilogue_bytes p (peek b))"
  by (auto simp: parse_epilogue_def epilogue_bytes_def find_crlf_search retrieve_peek split: option.split)

lemma body_unread: "buffer_wf b \<Longrightarrow> unread (parse_multipart_body n p b) = multipart_body_bytes n p (peek b)"
proof (cases "mp_root p")
  case (Some nd)
  assume "buffer_wf b"
  note r = node_refines [OF this, of n nd]
  show ?thesis
  proof (cases "node_parse n nd b")
    case (Val x)
    obtain c nd' b' where x: "x = (c, nd', b')" by (cases x)
    show ?thesis using r epilogue_unread [of _ "retrieve b' 2"]
      by (auto simp: parse_multipart_body_def multipart_body_bytes_def Some Val x Let_def buf_starts_with_iff retrieve_peek)
  qed (use r in \<open>simp_all add: parse_multipart_body_def multipart_body_bytes_def Some\<close>)
qed (simp add: parse_multipart_body_def multipart_body_bytes_def)

lemma multipart_unread: "buffer_wf b \<Longrightarrow> unread (multipart_parse n p b) = multipart_bytes n p (peek b)"
  using epilogue_unread [of _ b]
  by (auto simp: multipart_parse_def multipart_bytes_def started_bytes_def find_crlf_search buf_starts_with_iff body_unread retrieve_wf retrieve_peek
      split: option.split mparse_state.split)

lemma parse_epilogue_wf: "buffer_wf b \<Longrightarrow> parse_epilogue p b = (c, p1, b1) \<Longrightarrow> buffer_wf b1"
  by (auto simp: parse_epilogue_def retrieve_wf split: option.splits)

lemma multipart_body_wf:
  assumes "buffer_wf b" and "parse_multipart_body n p b = Val (c, p1, b1)"
  shows "buffer_wf b1"
proof -
  obtain nd c' nd' b' where "mp_root p = Some nd" "node_parse n nd b = Val (c', nd', b')"
    using assms(2) by (auto simp: parse_multipart_body_def split: option.splits outcome.splits)
  moreover from this have "buffer_wf b'" using node_refines [OF assms(1), of n nd] by simp
  ultimately show ?thesis
    using assms(2) parse_epilogue_wf [OF retrieve_wf, of b'] by (auto simp: parse_multipart_body_def Let_def split: if_splits)
qed

lemma multipart_wf:
  assumes "buffer_wf b" and "multipart_parse n p b = Val (c, p1, b1)"
  shows "buffer_wf b1"
  using assms(2) multipart_body_wf [OF assms(1)] multipart_body_wf [OF retrieve_wf [OF assms(1)]] parse_epilogue_wf [OF assms(1)] assms(1)
  by (auto simp: multipart_parse_def split: option.splits mparse_state.splits if_splits)

lemma epilogue_wait: "epilogue_bytes p s = (NotEnough, p1, s1) \<Longrightarrow> p1 = p \<and> s1 = s"
  by (auto simp: epilogue_bytes_def split: option.splits)

lemma multipart_body_resumes:
  assumes "no_pad t" and "mp_state p = MultipartBody" and "multipart_body_bytes n p s = Val (NotEnough, p1, s1)"
    and "multipart_body_bytes n p (s @ t) \<noteq> NoFuel"
  shows "mp_root p1 \<noteq> None \<and> started_bytes n p1 (s1 @ t) = multipart_body_bytes n p (s @ t)"
proof -
  obtain nd where nd: "mp_root p = Some nd" using assms(3) by (auto simp: multipart_body_bytes_def split: option.splits)
  then obtain c nd' s' where r: "node_bytes n nd s = Val (c, nd', s')"
    using assms(3) by (auto simp: multipart_body_bytes_def split: outcome.splits)
  have nf: "node_bytes n nd (s @ t) \<noteq> NoFuel" using assms(4) by (auto simp: multipart_body_bytes_def nd)
  show ?thesis
  proof (cases "c = ParseOk")
    case False
    then have c: "c = NotEnough" "p1 = p\<lparr>mp_root := Some nd'\<rparr>" "s1 = s'"
      using assms(3) by (auto simp: multipart_body_bytes_def nd r)
    then have "node_bytes n nd' (s' @ t) = node_bytes n nd (s @ t)"
      using node_resumes [OF assms(1), of n] r nf unfolding resumes_def by blast
    then show ?thesis using assms(2) by (simp add: c started_bytes_def multipart_body_bytes_def nd split: outcome.split)
  next
    case True
    then have g: "node_bytes n nd (s @ t) = Val (ParseOk, nd', s' @ t)"
      using node_grows [OF assms(1), of n] r unfolding grows_def by blast
    have p: "prefix CRLF s'" using assms(3) True by (auto simp: multipart_body_bytes_def nd r Let_def split: if_splits)
    then have "p1 = p\<lparr>mp_root := Some nd', mp_state := Epilogue\<rparr>" "s1 = drop 2 s'"
      using assms(3) True epilogue_wait by (auto simp: multipart_body_bytes_def nd r)
    moreover have "drop 2 (s' @ t) = drop 2 s' @ t" "prefix CRLF (s' @ t)" using p by (auto simp: prefix_def)
    ultimately show ?thesis by (simp add: started_bytes_def multipart_body_bytes_def nd g)
  qed
qed

lemma prefix_line_append:
  assumes "CR \<notin> set b" and "search CRLF s = Some k"
  shows "prefix b (s @ t) \<longleftrightarrow> prefix b s"
proof
  assume p: "prefix b (s @ t)"
  have s: "s ! k = CR" "k < length s" using search_Some_prefix [OF assms(2)] search_Some_le [OF assms(2)]
    by (auto simp: prefix_def nth_via_drop)
  then have "\<not> k < length b" using p assms(1) by (auto simp: prefix_def nth_append) (metis nth_append nth_mem)
  then show "prefix b s" using p s(2) by (auto simp: prefix_def append_eq_append_conv2 dest!: arg_cong [where f = length])
qed (rule prefix_prefix)

lemma started_resumes:
  assumes "no_pad t" and "mp_root p \<noteq> None" and "CR \<notin> set (root_boundary p)"
    and "started_bytes n p s = Val (NotEnough, p1, s1)" and "started_bytes n p (s @ t) \<noteq> NoFuel"
  shows "mp_root p1 \<noteq> None \<and> started_bytes n p1 (s1 @ t) = started_bytes n p (s @ t)"
proof (cases "mp_state p")
  case MultipartBody
  then show ?thesis using multipart_body_resumes [OF assms(1) MultipartBody, of n s p1 s1] assms(4,5) by (simp add: started_bytes_def)
next
  case Epilogue
  then show ?thesis using assms(2,4) epilogue_wait [of p s p1 s1] by (simp add: started_bytes_def)
next
  case Preamble
  show ?thesis
  proof (cases "search CRLF s")
    case None
    then show ?thesis using Preamble assms(2,4) by (auto simp: started_bytes_def)
  next
    case (Some k)
    have le: "k + 2 \<le> length s" using search_Some_le [OF Some] by simp
    then show ?thesis
      using assms(4,5) prefix_line_append [OF assms(3) Some, of t] search_append_Some [OF Some, of t]
        multipart_body_resumes [OF assms(1), of "p\<lparr>mp_state := MultipartBody\<rparr>" n s p1 s1]
        multipart_body_resumes [OF assms(1), of "p\<lparr>preamble := take k s, mp_state := MultipartBody\<rparr>" n "drop (k + 2) s" p1 s1]
      by (simp add: started_bytes_def [of n p] Preamble Some split: if_splits)
  qed
qed

lemma set_trim: "set (trim s) \<subseteq> set s"
  unfolding trim_eq by (auto dest!: set_dropWhileD)

lemma hdr_emplace_values: "(f, v) \<in> set (hdr_emplace a w hs) \<Longrightarrow> (f, v) \<in> set hs \<or> v = w"
  by (auto simp: hdr_emplace_def split: if_splits)

lemma set_tl_dropWhile: "x \<in> set (tl (dropWhile P s)) \<Longrightarrow> x \<in> set s"
  by (metis list.sel(2) list.set_sel(2) set_dropWhileD)

lemma parameters_step:
  assumes "parse_parameters str params = (if r = [] then (True, ps) else parse_parameters (tl r) ps)"
    and "(f, v) \<in> set (snd (parse_parameters str params))"
    and "(f, v) \<in> set ps \<Longrightarrow> P \<or> Q" and "r \<noteq> [] \<Longrightarrow> (f, v) \<in> set (snd (parse_parameters (tl r) ps)) \<Longrightarrow> (f, v) \<in> set ps \<or> Q"
  shows "P \<or> Q"
  using assms by (cases "r = []") auto

lemma parse_parameters_chars:
  "c \<notin> set str \<Longrightarrow> (f, v) \<in> set (snd (parse_parameters str params)) \<Longrightarrow> (f, v) \<in> set params \<or> c \<notin> set v"
proof (induction str params rule: parse_parameters.induct)
  case (1 str params)
  let ?p = "dropWhile isspace str"
  let ?v = "tl (dropWhile (\<lambda>c. c \<noteq> CHR ''='') ?p)" and ?a = "takeWhile (\<lambda>c. c \<noteq> CHR ''='') ?p"
  have v: "c \<notin> set ?v" using 1(3) by (meson set_dropWhileD set_tl_dropWhile)
  note eq = parse_parameters.simps [of str params]
  from v have tv: "c \<notin> set (tl ?v)" by (metis list.sel(2) list.set_sel(2))
  consider (stop) "snd (parse_parameters str params) = params"
    | (quoted) n where "?p \<noteq> []" "\<not> CHR ''='' \<notin> set ?p" "?v \<noteq> []" "hd ?v = CHR 0x22" "parse_quoted_string (tl ?v) = Some n"
    | (plain) "?p \<noteq> []" "\<not> CHR ''='' \<notin> set ?p" "?v \<noteq> []" "hd ?v \<noteq> CHR 0x22"
    by (cases "parse_quoted_string (tl ?v)") (fastforce simp: eq Let_def split: if_splits)+
  then show ?case
  proof cases
    case stop
    then show ?thesis using 1(4) by simp
  next
    case (quoted n)
    let ?ps = "hdr_emplace ?a (take n (tl ?v)) params" and ?r = "dropWhile (\<lambda>c. c \<noteq> CHR '';'') (drop n (tl ?v))"
    have e: "parse_parameters str params = (if ?r = [] then (True, ?ps) else parse_parameters (tl ?r) ?ps)"
      by (simp only: eq Let_def quoted if_True if_False option.case simp_thms)
    have "c \<notin> set (take n (tl ?v))" using tv by (meson in_set_takeD)
    then have ps: "(f, v) \<in> set ?ps \<Longrightarrow> (f, v) \<in> set params \<or> c \<notin> set v" by (metis hdr_emplace_values)
    have "c \<notin> set (tl ?r)" using tv by (meson in_set_dropD set_tl_dropWhile)
    note IH = 1(1) [OF refl quoted(1,2) refl refl quoted(3,4,5) refl refl _ \<open>c \<notin> set (tl ?r)\<close>]
    show ?thesis by (rule parameters_step [OF e 1(4) ps IH])
  next
    case plain
    let ?ps = "hdr_emplace ?a (trim (takeWhile (\<lambda>c. c \<noteq> CHR '';'') ?v)) params" and ?r = "dropWhile (\<lambda>c. c \<noteq> CHR '';'') ?v"
    have e: "parse_parameters str params = (if ?r = [] then (True, ?ps) else parse_parameters (tl ?r) ?ps)"
      by (simp only: eq Let_def plain if_True if_False simp_thms)
    have "c \<notin> set (trim (takeWhile (\<lambda>c. c \<noteq> CHR '';'') ?v))" using v by (auto dest!: set_takeWhileD subsetD [OF set_trim])
    then have ps: "(f, v) \<in> set ?ps \<Longrightarrow> (f, v) \<in> set params \<or> c \<notin> set v" by (metis hdr_emplace_values)
    have "c \<notin> set (tl ?r)" using v by (meson set_tl_dropWhile)
    note IH = 1(2) [OF refl plain(1,2) refl refl plain(3,4) refl refl _ \<open>c \<notin> set (tl ?r)\<close>]
    show ?thesis by (rule parameters_step [OF e 1(4) ps IH])
  qed
qed

definition parser_ok :: "multipart_parser \<Rightarrow> bool" where
  "parser_ok p \<longleftrightarrow> CR \<notin> set (mp_content_type p) \<and> (mp_root p \<noteq> None \<longrightarrow> CR \<notin> set (root_boundary p))"

lemma hdr_find_in: "hdr_find k hs = Some v \<Longrightarrow> \<exists>f. (f, v) \<in> set hs"
  by (induction k hs rule: hdr_find.induct) (auto split: if_splits)

lemma content_type_chars:
  assumes "content_type_parse str = Some (ok, ct)" and "CR \<notin> set str" and "hdr_find k (cv_params ct) = Some v"
  shows "CR \<notin> set v"
proof -
  let ?rest = "tl (dropWhile (\<lambda>c. c \<noteq> CHR '';'') str)"
  have "cv_params ct = snd (parse_parameters ?rest [])"
    using assms(1) by (auto simp: content_type_parse_def content_value_parse_def split: if_splits prod.splits)
  moreover have "CR \<notin> set ?rest" using assms(2) set_tl_dropWhile by metis
  ultimately show ?thesis using hdr_find_in [OF assms(3)] parse_parameters_chars [of CR ?rest _ v "[]"] by auto
qed

lemma make_root_ok: "parser_ok p \<Longrightarrow> make_root p = Some (Some p') \<Longrightarrow> mp_root p' \<noteq> None \<and> parser_ok p'"
  using content_type_chars [of "mp_content_type p"]
  by (auto simp: make_root_def parser_ok_def multipart_node_def split: if_splits option.splits prod.splits)

definition parser_depth :: "multipart_parser \<Rightarrow> nat" where
  "parser_depth p = (case mp_root p of None \<Rightarrow> 1 | Some nd \<Rightarrow> depth nd)"

lemma started_enough:
  assumes "length s + parser_depth p < n"
  shows "started_bytes n p s \<noteq> NoFuel"
proof -
  have "multipart_body_bytes n q s' \<noteq> NoFuel" if "mp_root q = mp_root p" "length s' \<le> length s" for q s'
    using node_enough [of s' _ n] assms that
    by (auto simp: multipart_body_bytes_def parser_depth_def Let_def split: option.splits outcome.splits prod.splits)
  then show ?thesis by (auto simp: started_bytes_def split: mparse_state.split option.split)
qed

lemma make_root_depth: "make_root p = Some (Some p') \<Longrightarrow> parser_depth p' = parser_depth p"
  by (auto simp: make_root_def parser_depth_def split: if_splits option.splits prod.splits)

lemma multipart_enough: "length s + parser_depth p < n \<Longrightarrow> multipart_bytes n p s \<noteq> NoFuel"
  using started_enough [of s _ n] make_root_depth [of p]
  by (auto simp: multipart_bytes_def split: option.splits)

lemma multipart_resumes:
  assumes "no_pad t" and "parser_ok p" and "multipart_bytes n p s = Val (NotEnough, p1, s1)" and "multipart_bytes n p (s @ t) \<noteq> NoFuel"
  shows "multipart_bytes n p1 (s1 @ t) = multipart_bytes n p (s @ t)"
proof -
  obtain q where q: "make_root p = Some (Some q)"
    using assms(3) by (auto simp: multipart_bytes_def split: option.splits)
  have "mp_root p1 \<noteq> None" "started_bytes n p1 (s1 @ t) = started_bytes n q (s @ t)"
    using started_resumes [OF assms(1), of q n s p1 s1] make_root_ok [OF assms(2) q] assms(3,4) q
    by (auto simp: multipart_bytes_def parser_ok_def simp del: root_boundary.simps)
  then show ?thesis using q by (simp add: multipart_bytes_def make_root_def)
qed

section \<open>What the composer writes\<close>

text \<open>The arguments of one part and the part as \<^verbatim>\<open>init\<close> builds it.\<close>

record part_args =
  pa_data :: string
  pa_type :: string
  pa_subtype :: string
  pa_name :: "string option"
  pa_encoding :: mime_encoding
  pa_charset :: "string option"

definition composed :: "part_args \<Rightarrow> mime_base" where
  "composed x = mime_init (pa_data x) (pa_type x) (pa_subtype x) (pa_name x) (pa_encoding x) (pa_charset x)"

definition compose :: "string \<Rightarrow> string \<Rightarrow> part_args list \<Rightarrow> mime_obj" where
  "compose boundary subtype xs = fold (\<lambda>x. attach (Simple (composed x))) xs (multipart_obj boundary subtype)"

definition token :: "string \<Rightarrow> bool" where
  "token s \<longleftrightarrow> s \<noteq> [] \<and> list_all (\<lambda>c. \<not> isspace c \<and> c \<notin> {CHR '';'', CHR ''/'', CHR ''='', CHR 0x22, CHR 0x5C}) s"

definition quotable :: "string \<Rightarrow> bool" where
  "quotable s \<longleftrightarrow> list_all (\<lambda>c. c \<notin> {CHR 0x22, CHR 0x5C, CR}) s"

definition args_ok :: "part_args \<Rightarrow> bool" where
  "args_ok x \<longleftrightarrow> token (pa_type x) \<and> token (pa_subtype x) \<and> \<not> equal_case (pa_type x) ''multipart'' \<and>
     (pa_name x \<noteq> None \<or> pa_charset x \<noteq> None) \<and>
     (case pa_name x of None \<Rightarrow> True | Some name \<Rightarrow> quotable name) \<and> (case pa_charset x of None \<Rightarrow> True | Some cs \<Rightarrow> token cs) \<and>
     pa_encoding x \<noteq> EncNone \<and> (pa_encoding x = EncBase64 \<longrightarrow> CHR ''A'' \<notin> set (encoded_data (composed x)))"

definition type_params :: "string option \<Rightarrow> string option \<Rightarrow> headers" where
  "type_params name charset =
     (case charset of None \<Rightarrow> [] | Some c \<Rightarrow> [(''charset'', c)]) @ (case name of None \<Rightarrow> [] | Some n \<Rightarrow> [(''name'', n)])"

text \<open>The node that has to come out.\<close>

definition expected :: "part_args \<Rightarrow> part_node" where
  "expected x =
     Leaf \<lparr>pn_headers = mheaders (composed x),
       pn_type = \<lparr>cv_value = pa_type x @ ''/'' @ pa_subtype x, cv_params = type_params (pa_name x) (pa_charset x)\<rparr>, pn_body = pa_data x\<rparr>"

lemma quoted_string_end: "quotable s \<Longrightarrow> parse_quoted_string (s @ CHR 0x22 # r) = Some (length s)"
  by (induction s) (auto simp: quotable_def)

lemma attribute_split:
  "CHR ''='' \<notin> set a \<Longrightarrow> takeWhile (\<lambda>c. c \<noteq> CHR ''='') (a @ CHR ''='' # w) = a \<and>
     tl (dropWhile (\<lambda>c. c \<noteq> CHR ''='') (a @ CHR ''='' # w)) = w \<and> a @ CHR ''='' # w \<noteq> [] \<and> CHR ''='' \<in> set (a @ CHR ''='' # w)"
  by (induction a) auto

lemma parse_parameters_quoted:
  assumes "dropWhile isspace str = a @ CHR ''='' # CHR 0x22 # w" and "CHR ''='' \<notin> set a" and "parse_quoted_string w = Some n"
  shows "parse_parameters str ps =
    (let ps' = hdr_emplace a (take n w) ps; r = dropWhile (\<lambda>c. c \<noteq> CHR '';'') (drop n w)
     in if r = [] then (True, ps') else parse_parameters (tl r) ps')"
  unfolding parse_parameters.simps [of str] assms(1) Let_def
  using attribute_split [OF assms(2), of "CHR 0x22 # w"] assms(3) by auto

lemma parse_parameters_plain:
  assumes "dropWhile isspace str = a @ CHR ''='' # v" and "CHR ''='' \<notin> set a" and "v \<noteq> []" and "hd v \<noteq> CHR 0x22"
  shows "parse_parameters str ps =
    (let ps' = hdr_emplace a (trim (takeWhile (\<lambda>c. c \<noteq> CHR '';'') v)) ps; r = dropWhile (\<lambda>c. c \<noteq> CHR '';'') v
     in if r = [] then (True, ps') else parse_parameters (tl r) ps')"
  unfolding parse_parameters.simps [of str] assms(1) Let_def
  using attribute_split [OF assms(2), of v] assms(3,4) by auto

lemma token_space: "token s \<Longrightarrow> s \<noteq> [] \<and> \<not> isspace (hd s) \<and> \<not> isspace (last s)"
  by (auto simp: token_def list_all_iff)

lemma isspace_CR [simp]: "isspace CR"
  by code_simp

lemma token_chars: "token s \<Longrightarrow> CHR '';'' \<notin> set s \<and> CHR ''/'' \<notin> set s \<and> CHR ''='' \<notin> set s \<and> CR \<notin> set s \<and> hd s \<noteq> CHR 0x22"
proof -
  assume t: "token s"
  then have all: "c \<in> set s \<Longrightarrow> \<not> isspace c \<and> c \<noteq> CHR '';'' \<and> c \<noteq> CHR ''/'' \<and> c \<noteq> CHR ''='' \<and> c \<noteq> CHR 0x22" for c
    by (simp add: token_def list_all_iff)
  have "hd s \<in> set s" using t by (simp add: token_def)
  from all [OF this] show ?thesis using all [of "CHR '';''"] all [of "CHR ''/''"] all [of "CHR ''=''"] all [of CR] by (simp del: hd_in_set) blast
qed

lemma skip_space: "a \<noteq> [] \<Longrightarrow> \<not> isspace (hd a) \<Longrightarrow> dropWhile isspace (SP # a @ w) = a @ w"
  by (cases a) auto

lemma quoted_parameter:
  assumes "quotable v" and "a \<noteq> []" and "\<not> isspace (hd a)" and "CHR ''='' \<notin> set a"
  shows "parse_parameters (SP # a @ CHR ''='' # CHR 0x22 # v @ [CHR 0x22]) ps = (True, hdr_emplace a v ps)"
  using parse_parameters_quoted [OF skip_space [OF assms(2,3)] assms(4) quoted_string_end [OF assms(1)], of "[]" ps] by (simp add: Let_def)

lemma plain_parameter:
  assumes "token v" and "a \<noteq> []" and "\<not> isspace (hd a)" and "CHR ''='' \<notin> set a"
  shows "parse_parameters (SP # a @ CHR ''='' # v) ps = (True, hdr_emplace a v ps)"
    and "parse_parameters (SP # a @ CHR ''='' # v @ CHR '';'' # r) ps = parse_parameters r (hdr_emplace a v ps)"
proof -
  have v: "v \<noteq> []" "\<forall>c \<in> set v. c \<noteq> CHR '';''" "hd v \<noteq> CHR 0x22" "trim v = v"
    using token_chars [OF assms(1)] token_space [OF assms(1)] trim_id by auto
  then have cut: "takeWhile (\<lambda>c. c \<noteq> CHR '';'') v = v" "dropWhile (\<lambda>c. c \<noteq> CHR '';'') v = []"
    "takeWhile (\<lambda>c. c \<noteq> CHR '';'') (v @ CHR '';'' # r) = v" "dropWhile (\<lambda>c. c \<noteq> CHR '';'') (v @ CHR '';'' # r) = CHR '';'' # r"
    by (auto intro!: takeWhile_append_stop dropWhile_append_stop)
  show "parse_parameters (SP # a @ CHR ''='' # v) ps = (True, hdr_emplace a v ps)"
    using parse_parameters_plain [OF skip_space [OF assms(2,3)] assms(4) v(1,3), of ps] by (simp only: Let_def cut v if_True simp_thms)
  show "parse_parameters (SP # a @ CHR ''='' # v @ CHR '';'' # r) ps = parse_parameters r (hdr_emplace a v ps)"
    using parse_parameters_plain [OF skip_space [OF assms(2,3)] assms(4), of "v @ CHR '';'' # r" ps] v(1,3)
    by (simp add: Let_def cut v del: takeWhile_eq_all_conv dropWhile_eq_Nil_conv)
qed

lemma split_type: "token ty \<Longrightarrow> token sub \<Longrightarrow> split (ty @ ''/'' @ sub) CHR ''/'' = [ty, sub]"
  using token_chars [of ty] token_chars [of sub] by (simp add: split_append split_single)

lemma content_type_parse_semi:
  assumes "token ty" and "token sub" and "parse_parameters r [] = (True, params)"
  shows "content_type_parse ((ty @ ''/'' @ sub) @ CHR '';'' # r) = Some (True, \<lparr>cv_value = ty @ ''/'' @ sub, cv_params = params\<rparr>)"
proof -
  have "\<forall>c \<in> set (ty @ ''/'' @ sub). c \<noteq> CHR '';''" using token_chars assms(1,2) by auto
  then have "takeWhile (\<lambda>c. c \<noteq> CHR '';'') ((ty @ ''/'' @ sub) @ CHR '';'' # r) = ty @ ''/'' @ sub"
    "dropWhile (\<lambda>c. c \<noteq> CHR '';'') ((ty @ ''/'' @ sub) @ CHR '';'' # r) = CHR '';'' # r"
    by (intro takeWhile_append_stop dropWhile_append_stop; simp)+
  then show ?thesis
    unfolding content_type_parse_def content_value_parse_def using assms(3) split_type [OF assms(1,2)] by simp
qed

lemma type_parameters:
  assumes "name \<noteq> None \<or> charset \<noteq> None" and "pred_option quotable name" and "pred_option token charset" and "token ty" and "token sub"
  shows "content_type_parse (content_type_text ty sub name charset) = Some (True, \<lparr>cv_value = ty @ ''/'' @ sub, cv_params = type_params name charset\<rparr>)"
proof -
  obtain r where r: "content_type_text ty sub name charset = (ty @ ''/'' @ sub) @ CHR '';'' # r" and
    p: "parse_parameters r [] = (True, type_params name charset)"
  proof (cases charset)
    case None
    then obtain n where "name = Some n" using assms(1) by auto
    with None assms(2) that [of "SP # ''name'' @ CHR ''='' # CHR 0x22 # n @ [CHR 0x22]"] quoted_parameter [of n "''name''" "[]"] show ?thesis
      by (simp add: content_type_text_def type_params_def hdr_emplace_def isspace_def)
  next
    case (Some c)
    show ?thesis
    proof (cases name)
      case None
      with Some assms(3) that [of "SP # ''charset'' @ CHR ''='' # c"] plain_parameter(1) [of c "''charset''" "[]"] show ?thesis
        by (simp add: content_type_text_def type_params_def hdr_emplace_def isspace_def)
    next
      case (Some n)
      with \<open>charset = Some c\<close> assms(2,3) that [of "SP # ''charset'' @ CHR ''='' # c @ CHR '';'' # SP # ''name'' @ CHR ''='' # CHR 0x22 # n @ [CHR 0x22]"]
        plain_parameter(2) [of c "''charset''" "SP # ''name'' @ CHR ''='' # CHR 0x22 # n @ [CHR 0x22]" "[]"] quoted_parameter [of n "''name''" "[(''charset'', c)]"]
      show ?thesis by (simp add: content_type_text_def type_params_def hdr_emplace_def isspace_def equal_case_def)
    qed
  qed
  show ?thesis unfolding r by (rule content_type_parse_semi [OF assms(4,5) p])
qed

text \<open>The fields and the data of a part.\<close>

fun transfer_encoding :: "mime_encoding \<Rightarrow> string \<Rightarrow> string" where
  "transfer_encoding EncNone d = []"
| "transfer_encoding EncQP d = ''quoted-printable''"
| "transfer_encoding EncBase64 d = ''base64''"
| "transfer_encoding Bit7 d = ''7bit''"
| "transfer_encoding Bit7or8 d = encode_7or8bit d"

lemma field_names: "\<not> equal_case ''Content-Type'' ''Content-Transfer-Encoding''"
  by code_simp

lemma transfer_encoding_cases:
  "transfer_encoding e d \<in> {[], ''quoted-printable'', ''base64'', ''7bit'', ''8bit''}"
  by (cases e) (auto simp: encode_7or8bit_def)

lemma composed_headers:
  "pa_encoding x \<noteq> EncNone \<Longrightarrow> mheaders (composed x) =
     [(''Content-Type'', content_type_text (pa_type x) (pa_subtype x) (pa_name x) (pa_charset x)),
      (''Content-Transfer-Encoding'', transfer_encoding (pa_encoding x) (pa_data x))]"
  using field_names
  by (cases "pa_encoding x") (simp_all add: composed_def mime_init_def mime_encode_def mime_add_header_def base_new_def hdr_emplace_def)

lemma composed_data:
  "encoded_data (composed x) =
     (case pa_encoding x of EncQP \<Rightarrow> qp_encode (pa_data x) | EncBase64 \<Rightarrow> base64_encode Mime (pa_data x) | EncNone \<Rightarrow> [] | _ \<Rightarrow> pa_data x)"
  by (cases "pa_encoding x") (simp_all add: composed_def mime_init_def mime_encode_def mime_add_header_def base_new_def)

lemma encoding_names:
  "equal_case ''base64'' ''base64''" "\<not> equal_case ''quoted-printable'' ''base64''" "equal_case ''quoted-printable'' ''quoted-printable''"
  "\<not> equal_case ''7bit'' ''base64''" "\<not> equal_case ''7bit'' ''quoted-printable''" "\<not> equal_case ''8bit'' ''base64''" "\<not> equal_case ''8bit'' ''quoted-printable''"
  by code_simp+

lemma composed_decode:
  assumes "args_ok x"
  shows "part_decode (encoded_data (composed x)) \<lparr>pn_headers = mheaders (composed x), pn_type = ct, pn_body = []\<rparr> =
    (True, \<lparr>pn_headers = mheaders (composed x), pn_type = ct, pn_body = pa_data x\<rparr>)"
proof -
  have n: "pa_encoding x \<noteq> EncNone" using assms by (simp add: args_ok_def)
  note h = composed_headers [OF n]
  have find: "hdr_find ''Content-Transfer-Encoding'' (mheaders (composed x)) = Some (transfer_encoding (pa_encoding x) (pa_data x))"
    using field_names by (simp add: h)
  have dec: "(if equal_case (transfer_encoding (pa_encoding x) (pa_data x)) ''base64'' then base64_decode Mime (encoded_data (composed x))
      else if equal_case (transfer_encoding (pa_encoding x) (pa_data x)) ''quoted-printable'' then qp_decode (encoded_data (composed x))
      else encoded_data (composed x)) = pa_data x"
    using n assms base64_decode_encode [of Mime "pa_data x"] qp_decode_encode [of "pa_data x"]
    by (cases "pa_encoding x") (simp_all add: composed_data encoding_names args_ok_def encode_7or8bit_def)
  have empty: "pa_data x = []" if "encoded_data (composed x) = []"
    using dec that unfolding that by (simp add: base64_decode_def split: if_splits)
  show ?thesis
  proof (cases "encoded_data (composed x) = []")
    case True
    then show ?thesis using empty by (simp add: part_decode_def)
  next
    case False
    moreover have "pa_data x \<noteq> []" using False by (auto simp: composed_data base64_encode_def qp_encode_def split: mime_encoding.splits)
    ultimately show ?thesis using dec by (simp add: part_decode_def find Let_def)
  qed
qed

lemma composed_fields_ok:
  assumes "args_ok x"
  shows "list_all field_ok (mheaders (composed x))" and "keys_distinct (mheaders (composed x))"
proof -
  have n: "pa_encoding x \<noteq> EncNone" and t: "token (pa_type x)" "token (pa_subtype x)" using assms by (simp_all add: args_ok_def)
  let ?v = "content_type_text (pa_type x) (pa_subtype x) (pa_name x) (pa_charset x)"
  have "CR \<notin> set ?v" using assms token_chars
    by (cases "pa_name x"; cases "pa_charset x") (auto simp: args_ok_def content_type_text_def quotable_def list_all_iff)
  moreover have "?v \<noteq> []" "hd ?v = hd (pa_type x)" using token_space [OF t(1)] by (simp_all add: content_type_text_def)
  moreover have "\<not> isspace (last ?v)"
    using assms token_space [of "the (pa_charset x)"]
    by (cases "pa_name x"; cases "pa_charset x") (auto simp: args_ok_def content_type_text_def isspace_def)
  ultimately have "field_ok (''Content-Type'', ?v)" using token_space [OF t(1)] by (simp add: field_ok_def)
  moreover have "field_ok (''Content-Transfer-Encoding'', transfer_encoding (pa_encoding x) (pa_data x))"
    using n by (cases "pa_encoding x") (simp_all add: field_ok_def isspace_def encode_7or8bit_def)
  ultimately show "list_all field_ok (mheaders (composed x))" "keys_distinct (mheaders (composed x))"
    using field_names by (simp_all add: composed_headers [OF n])
qed

lemma composed_node:
  assumes "args_ok x"
  shows "get_part_node ty (mheaders (composed x)) =
    Some (Some (Leaf \<lparr>pn_headers = mheaders (composed x), pn_type = \<lparr>cv_value = pa_type x @ ''/'' @ pa_subtype x, cv_params = type_params (pa_name x) (pa_charset x)\<rparr>,
      pn_body = []\<rparr>), [])"
proof -
  have a: "pa_name x \<noteq> None \<or> pa_charset x \<noteq> None" "pred_option quotable (pa_name x)" "pred_option token (pa_charset x)"
    "token (pa_type x)" "token (pa_subtype x)" and n: "pa_encoding x \<noteq> EncNone" and m: "\<not> equal_case (pa_type x) ''multipart''"
    using assms by (auto simp: args_ok_def split: option.splits)
  show ?thesis
    using type_parameters [OF a] m split_type [OF a(4,5)] by (simp add: get_part_node_def composed_headers [OF n] maintype_def)
qed

text \<open>The bytes of the parts behind the first boundary line.\<close>

definition part_text :: "part_args \<Rightarrow> string" where
  "part_text x = format_fields (mheaders (composed x)) @ encoded_data (composed x)"

fun parts_text :: "string \<Rightarrow> part_args list \<Rightarrow> string" where
  "parts_text bd [] = []"
| "parts_text bd [x] = part_text x @ CRLF @ ''--'' @ bd @ ''--''"
| "parts_text bd (x # y # xs) = part_text x @ CRLF @ ''--'' @ bd @ CRLF @ parts_text bd (y # xs)"

lemma search_delimiter:
  assumes "c \<notin> set ps" and "search (c # ps) d = None"
  shows "search (c # ps) (d @ (c # ps) @ r) = Some (length d)"
proof (rule search_eq_SomeI)
  fix j
  assume j: "j < length d"
  show "\<not> prefix (c # ps) (drop j (d @ (c # ps) @ r))"
  proof
    assume p: "prefix (c # ps) (drop j (d @ (c # ps) @ r))"
    show False
    proof (cases "length d - j \<ge> length (c # ps)")
      case True
      then have "prefix (c # ps) (drop j d)" using p j prefix_length_prefix [of "c # ps" "drop j (d @ (c # ps) @ r)" "drop j d"] by simp
      then show False using search_None [OF assms(2)] by blast
    next
      case False
      obtain zs where z: "drop j (d @ (c # ps) @ r) = (c # ps) @ zs" using p unfolding prefix_def by blast
      have "(c # ps) ! (length d - j) = (drop j (d @ (c # ps) @ r)) ! (length d - j)"
        unfolding z nth_append using False by simp
      also have "\<dots> = c" using j by (simp add: nth_append)
      finally have "ps ! (length d - j - 1) = c" using j by (simp add: nth_Cons')
      moreover have "length d - j - 1 < length ps" using False j by simp
      ultimately show False using assms(1) nth_mem by metis
    qed
  qed
qed simp_all

definition clear_of :: "string \<Rightarrow> part_args \<Rightarrow> bool" where
  "clear_of bd x \<longleftrightarrow> search (CRLF @ ''--'' @ bd) (encoded_data (composed x)) = None"

lemma part_bytes:
  assumes ok: "args_ok x" and clear: "clear_of bd x" and bd: "CR \<notin> set bd"
    and m: "mn_state m = HeaderPart" "delimiter m = CRLF @ ''--'' @ bd" "part_headers m = []"
  shows "node_bytes (Suc n) (Multi i m ps None) (part_text x @ CRLF @ ''--'' @ bd @ r) =
    delimiter_bytes (node_bytes n) (Multi i (m\<lparr>mn_state := Delimiter\<rparr>) ps (Some (expected x))) r"
proof -
  let ?hs = "mheaders (composed x)" and ?d = "encoded_data (composed x)"
  let ?i = "\<lparr>pn_headers = ?hs, pn_type = \<lparr>cv_value = pa_type x @ ''/'' @ pa_subtype x, cv_params = type_params (pa_name x) (pa_charset x)\<rparr>, pn_body = []\<rparr>"
  let ?s = "?d @ CRLF @ ''--'' @ bd @ r"
  have "header_bytes [] (part_text x @ CRLF @ ''--'' @ bd @ r) = Some (ParseOk, ?hs, ?s)"
    using parse_header_bytes_fields [OF composed_fields_ok(1) [OF ok], of "[]" ?s] composed_fields_ok(2) [OF ok]
    by (simp add: header_bytes_def part_text_def)
  moreover have "m\<lparr>part_headers := []\<rparr> = m" using m(3) by (cases m) simp
  ultimately have f: "fields_bytes (Multi i m ps None) (part_text x @ CRLF @ ''--'' @ bd @ r) = Val (ParseOk, Multi i m ps (Some (Leaf ?i)), ?s)"
    using m composed_node [OF ok, of "pn_type i"] by (simp add: fields_bytes_def)
  have "search (CR # LF # ''--'' @ bd) (?d @ (CR # LF # ''--'' @ bd) @ r) = Some (length ?d)"
    by (rule search_delimiter) (use bd clear in \<open>simp_all add: clear_of_def\<close>)
  then have "find_bytes (CRLF @ ''--'' @ bd) ?s = Some (length ?d)" by (simp add: find_bytes_def)
  moreover have "node_decode ?d (Leaf ?i) = (True, expected x)" using composed_decode [OF ok] by (simp add: expected_def)
  ultimately have b: "body_bytes (Multi i (m\<lparr>mn_state := BodyPart\<rparr>) ps (Some (Leaf ?i))) ?s =
      Val (ParseOk, Multi i (m\<lparr>mn_state := Delimiter\<rparr>) ps (Some (expected x)), r)"
    using m by (simp add: body_bytes_def eval_nat_numeral)
  show ?thesis using m f b by (simp add: dash_bytes_def nested_stage_def)
qed

lemma parts_bytes:
  assumes "list_all args_ok xs" and "list_all (clear_of bd) xs" and "CR \<notin> set bd" and "xs \<noteq> []"
    and "mn_state m = HeaderPart" "delimiter m = CRLF @ ''--'' @ bd" "part_headers m = []"
  shows "node_bytes (length xs) (Multi i m ps None) (parts_text bd xs @ r) =
    Val (ParseOk, Multi i (m\<lparr>mn_state := Delimiter\<rparr>) (ps @ map expected xs) None, dropWhile islwsp r)"
  using assms
proof (induction bd xs arbitrary: m ps rule: parts_text.induct)
  case (2 bd x)
  then show ?case
    using part_bytes [of x bd m 0 i ps "''--'' @ r"] by (simp add: delimiter_bytes_def del: node_bytes.simps)
next
  case (3 bd x y xs)
  let ?m = "m\<lparr>mn_state := Delimiter, mn_state := HeaderPart\<rparr>"
  have m: "?m = m" using 3(6) by simp
  have "node_bytes (length (y # xs)) (Multi i ?m (ps @ [expected x]) None) (parts_text bd (y # xs) @ r) =
      Val (ParseOk, Multi i (m\<lparr>mn_state := Delimiter\<rparr>) ((ps @ [expected x]) @ map expected (y # xs)) None, dropWhile islwsp r)"
    unfolding m using 3 by (intro 3(1)) (simp_all del: node_bytes.simps)
  moreover have "node_bytes (length (x # y # xs)) (Multi i m ps None) (parts_text bd (x # y # xs) @ r) =
      node_bytes (length (y # xs)) (Multi i ?m (ps @ [expected x]) None) (parts_text bd (y # xs) @ r)"
    using part_bytes [of x bd m "length (y # xs)" i ps "CRLF @ parts_text bd (y # xs) @ r"] 3
    by (simp add: delimiter_bytes_def del: node_bytes.simps)
  ultimately show ?case by simp
qed simp

lemma fold_attach:
  "fold (\<lambda>x. attach (Simple (composed x))) xs (Multipart b bd ps) = Multipart b bd (ps @ map (\<lambda>x. Simple ((composed x)\<lparr>top_level := False\<rparr>)) xs)"
  by (induction xs arbitrary: ps) simp_all

lemma part_str: "mime_str date (Simple ((composed x)\<lparr>top_level := False\<rparr>)) = part_text x"
  by (simp add: base_str_def part_text_def)

lemma parts_text_lines:
  "xs \<noteq> [] \<Longrightarrow> \<exists>t. concat (map (\<lambda>x. part_text x @ CRLF @ ''--'' @ bd @ CRLF) xs) = t @ CRLF \<and> parts_text bd xs = t @ ''--''"
proof (induction bd xs rule: parts_text.induct)
  case (3 bd x y xs)
  then show ?case by auto
qed auto

lemma compose_str:
  assumes "xs \<noteq> []" and "multipart_obj bd sub = Multipart b bd []"
  shows "mime_str date (compose bd sub xs) = base_str date b @ ''--'' @ bd @ CRLF @ parts_text bd xs"
proof -
  obtain t where t: "concat (map (\<lambda>x. part_text x @ CRLF @ ''--'' @ bd @ CRLF) xs) = t @ CRLF" "parts_text bd xs = t @ ''--''"
    using parts_text_lines [OF assms(1)] by blast
  have "concat (map (\<lambda>p. mime_str date p @ CRLF @ ''--'' @ bd @ CRLF) (map (\<lambda>x. Simple ((composed x)\<lparr>top_level := False\<rparr>)) xs)) = t @ CRLF"
    unfolding t(1) [symmetric] by (simp add: part_str comp_def del: mime_str.simps)
  then show ?thesis
    using assms by (simp add: compose_def fold_attach Let_def t(2) butlast_append)
qed

definition mixed_type :: "string \<Rightarrow> string \<Rightarrow> string" where
  "mixed_type bd sub = ''multipart/'' @ sub @ ''; boundary='' @ [CHR 0x22] @ bd @ [CHR 0x22]"

lemma mixed_type_parse:
  assumes "token sub" and "quotable bd"
  shows "content_type_parse (mixed_type bd sub) = Some (True, \<lparr>cv_value = ''multipart/'' @ sub, cv_params = [(''boundary'', bd)]\<rparr>)"
proof -
  have "token ''multipart''" by code_simp
  moreover have "parse_parameters (SP # ''boundary'' @ CHR ''='' # CHR 0x22 # bd @ [CHR 0x22]) [] = (True, [(''boundary'', bd)])"
    using quoted_parameter [OF assms(2), of "''boundary''" "[]"] by (simp add: hdr_emplace_def isspace_def)
  ultimately show ?thesis
    using content_type_parse_semi [of "''multipart''" sub "SP # ''boundary'' @ CHR ''='' # CHR 0x22 # bd @ [CHR 0x22]"] assms(1)
    by (simp add: mixed_type_def)
qed

lemma mixed_parsed:
  assumes "token sub" and "quotable bd" and "list_all args_ok xs" and "list_all (clear_of bd) xs" and "xs \<noteq> []" and "length xs \<le> n"
  shows "\<exists>p. multipart_bytes n (multipart_parser_new (mixed_type bd sub)) (''--'' @ bd @ CRLF @ parts_text bd xs) = Val (ParseOk, p, []) \<and>
    map_option iter_parts (mp_root p) = Some (map expected xs)"
proof -
  let ?i = "\<lparr>pn_headers = [], pn_type = \<lparr>cv_value = ''multipart/'' @ sub, cv_params = [(''boundary'', bd)]\<rparr>, pn_body = []\<rparr>"
  let ?m = "multipart_node bd" and ?s = "''--'' @ bd @ CRLF @ parts_text bd xs"
  have bd: "CR \<notin> set bd" using assms(2) by (auto simp: quotable_def list_all_iff)
  have "split (''multipart/'' @ sub) CHR ''/'' = [''multipart'', sub]"
    using split_type [of "''multipart''" sub] assms(1) by (simp add: token_def isspace_def)
  then have root: "make_root (multipart_parser_new (mixed_type bd sub)) =
      Some (Some ((multipart_parser_new (mixed_type bd sub))\<lparr>mp_root := Some (Multi ?i ?m [] None)\<rparr>))"
    using mixed_type_parse [OF assms(1,2)] by (simp add: make_root_def multipart_parser_new_def maintype_def)
  have crlf: "search CRLF ?s = Some (length bd + 2)" using search_CRLF_line [of "''--'' @ bd"] bd by simp
  have dash: "dash_bytes (Multi ?i ?m [] None) ?s = Val (ParseOk, Multi ?i (?m\<lparr>mn_state := HeaderPart\<rparr>) [] None, parts_text bd xs)"
    using crlf by (simp add: dash_bytes_def multipart_node_def eval_nat_numeral)
  obtain k where k: "length xs = Suc k" using assms(5) by (cases xs) auto
  let ?nd = "Multi ?i (?m\<lparr>mn_state := Delimiter\<rparr>) (map expected xs) None"
  have step: "node_bytes (Suc k) (Multi ?i ?m [] None) ?s = node_bytes (Suc k) (Multi ?i (?m\<lparr>mn_state := HeaderPart\<rparr>) [] None) (parts_text bd xs)"
    unfolding node_bytes.simps dash by (simp add: dash_bytes_def)
  have "node_bytes (length xs) (Multi ?i (?m\<lparr>mn_state := HeaderPart\<rparr>) [] None) (parts_text bd xs @ []) =
      Val (ParseOk, Multi ?i (?m\<lparr>mn_state := HeaderPart, mn_state := Delimiter\<rparr>) ([] @ map expected xs) None, dropWhile islwsp [])"
    by (rule parts_bytes [OF assms(3,4) bd assms(5)]) (simp_all add: multipart_node_def)
  then have "node_bytes (length xs) (Multi ?i ?m [] None) ?s = Val (ParseOk, ?nd, [])"
    using step by (simp add: k del: node_bytes.simps)
  then have "node_bytes n (Multi ?i ?m [] None) ?s = Val (ParseOk, ?nd, [])" using node_fuel_mono [of "length xs" _ ?s n] assms(6) by simp
  then show ?thesis
    unfolding multipart_bytes_def root using crlf
    by (simp add: started_bytes_def multipart_parser_new_def multipart_body_bytes_def multipart_node_def)
qed

lemma top_field_names:
  "\<not> equal_case ''Content-Type'' ''Date''" "\<not> equal_case ''Content-Type'' ''MIME-Version''" "\<not> equal_case ''Date'' ''MIME-Version''"
  by code_simp+

definition mixed_fields :: "string \<Rightarrow> string \<Rightarrow> string \<Rightarrow> headers" where
  "mixed_fields date bd sub = [(''Content-Type'', mixed_type bd sub), (''Date'', date), (''MIME-Version'', ''1.0'')]"

lemma mixed_str:
  assumes "sub \<noteq> ''form-data''" and "xs \<noteq> []"
  shows "mime_str date (compose bd sub xs) = format_fields (mixed_fields date bd sub) @ ''--'' @ bd @ CRLF @ parts_text bd xs"
proof -
  let ?b = "mime_add_header ''Content-Type'' (mixed_type bd sub) base_new"
  have "base_str date ?b = format_fields (mixed_fields date bd sub)"
    using top_field_names
    by (simp add: base_str_def mime_add_header_def base_new_def hdr_emplace_def mixed_fields_def)
  moreover have "multipart_obj bd sub = Multipart ?b bd []" using assms(1) by (simp add: multipart_obj_def mixed_type_def)
  ultimately show ?thesis using compose_str [OF assms(2)] by simp
qed

lemma mixed_fields_ok:
  assumes "token sub" and "quotable bd" and "field_ok (''Date'', date)"
  shows "list_all field_ok (mixed_fields date bd sub)" and "keys_distinct (mixed_fields date bd sub)"
proof -
  have "CR \<notin> set bd" using assms(2) by (auto simp: quotable_def list_all_iff)
  then show "list_all field_ok (mixed_fields date bd sub)"
    using token_chars [OF assms(1)] assms(3) by (simp add: mixed_fields_def mixed_type_def field_ok_def isspace_def)
  show "keys_distinct (mixed_fields date bd sub)" using top_field_names by (simp add: mixed_fields_def)
qed

section \<open>Where the parser deviates\<close>

text \<open>A content type without parameters throws; a part without a transfer encoding, such as the form data writer makes, has no body after decoding.\<close>

lemma plain_type_throws: "get_part_node ty [(''Content-Type'', ''image/png'')] = None"
  by code_simp

lemma form_part_loses_body:
  assumes "hdr_find ''Content-Transfer-Encoding'' (pn_headers i) = None"
  shows "part_decode d i = (True, i)"
  using assms by (simp add: part_decode_def)

text \<open>A multipart without parts ends inside the header: the two bytes that are cut off are the empty line.\<close>

lemma empty_multipart_str:
  assumes "sub \<noteq> ''form-data''"
  shows "mime_str date (compose bd sub []) = concat (map (\<lambda>(f, v). format_header f v) (mixed_fields date bd sub)) @ ''--''"
proof -
  let ?b = "mime_add_header ''Content-Type'' (mixed_type bd sub) base_new"
  have "base_str date ?b = format_fields (mixed_fields date bd sub)"
    using top_field_names
    by (simp add: base_str_def mime_add_header_def base_new_def hdr_emplace_def mixed_fields_def)
  moreover have "multipart_obj bd sub = Multipart ?b bd []" using assms by (simp add: multipart_obj_def mixed_type_def)
  ultimately show ?thesis by (simp add: compose_def format_fields_def butlast_append)
qed

section \<open>Properties\<close>



section \<open>Witnesses\<close>

definition sample_parts :: "part_args list" where
  "sample_parts =
     [\<lparr>pa_data = ''hello'', pa_type = ''text'', pa_subtype = ''plain'', pa_name = None, pa_encoding = Bit7, pa_charset = Some ''us-ascii''\<rparr>,
      \<lparr>pa_data = ''a=b'', pa_type = ''text'', pa_subtype = ''html'', pa_name = Some ''x y'', pa_encoding = EncQP, pa_charset = Some ''iso-8859-1''\<rparr>]"


definition sample_head :: string where
  "sample_head = ''--b'' @ CRLF @ ''X: 1'' @ CRLF @ CRLF @ ''ab''"


end
