(* ===== verification/Signal.thy ===== *)
theory Signal
  imports Prelude
begin

text \<open>
  Signals: \<^verbatim>\<open>src/signal.cc\<close>. A signal handler writes the number of the signal into a socket pair; the loop of a special thread reads it and calls the
  handlers that were registered. Registration, cancellation and ignoring are tasks of that loop. The disposition of a signal in the kernel (\<^verbatim>\<open>sigaction\<close>)
  and the bytes in the socket pair are fields of the state; the handlers that are called go to a log. A failed \<^verbatim>\<open>Assert\<close> is \<open>None\<close>.
\<close>

section \<open>State and operations\<close>

datatype disposition = SigDfl | SigIgn | SigHandler

datatype 'a sig_task = AddTask nat nat 'a | IgnoreTask nat | CancelTask nat

record 'a signaler =
  sig_map :: "nat \<rightharpoonup> (nat \<times> 'a) list"
  id_map :: "nat \<rightharpoonup> nat"
  sig_id :: nat
  disposition :: "nat \<Rightarrow> disposition"
  sig_pair :: string
  sig_tasks :: "'a sig_task list"
  sig_calls :: "(nat \<times> 'a) list"

definition signaler_new :: "'a signaler" where
  "signaler_new = \<lparr>sig_map = Map.empty, id_map = Map.empty, sig_id = 0, disposition = (\<lambda>_. SigDfl), sig_pair = [], sig_tasks = [], sig_calls = []\<rparr>"

definition set_sigaction :: "nat \<Rightarrow> disposition \<Rightarrow> 'a signaler \<Rightarrow> 'a signaler" where
  "set_sigaction signo d s = s\<lparr>disposition := (disposition s)(signo := d)\<rparr>"

text \<open>One byte of the number is written, the low one on a little endian host.\<close>

definition sig_handler :: "nat \<Rightarrow> 'a signaler \<Rightarrow> 'a signaler" where
  "sig_handler signo s = s\<lparr>sig_pair := sig_pair s @ [char_of signo]\<rparr>"

definition add_signal_in_loop :: "nat \<Rightarrow> nat \<Rightarrow> 'a \<Rightarrow> 'a signaler \<Rightarrow> 'a signaler" where
  "add_signal_in_loop signo i cb s =
     (let sl = (case sig_map s signo of None \<Rightarrow> [] | Some es \<Rightarrow> es);
          s1 = (if sl = [] then set_sigaction signo SigHandler s else s)
      in s1\<lparr>id_map := (if id_map s1 i = None then (id_map s1)(i \<mapsto> signo) else id_map s1), sig_map := (sig_map s1)(signo \<mapsto> (i, cb) # sl)\<rparr>)"

definition ignore_signal_in_loop :: "nat \<Rightarrow> 'a signaler \<Rightarrow> 'a signaler" where
  "ignore_signal_in_loop signo s =
     (let sl = (case sig_map s signo of None \<Rightarrow> [] | Some es \<Rightarrow> es)
      in set_sigaction signo SigIgn (s\<lparr>id_map := (\<lambda>i. if i \<in> fst ` set sl then None else id_map s i), sig_map := (sig_map s)(signo := None)\<rparr>))"

fun erase_event :: "nat \<Rightarrow> (nat \<times> 'a) list \<Rightarrow> (nat \<times> 'a) list" where
  "erase_event i [] = []"
| "erase_event i (e # es) = (if i = fst e then es else e # erase_event i es)"

definition cancel_signal_in_loop :: "nat \<Rightarrow> 'a signaler \<Rightarrow> 'a signaler option" where
  "cancel_signal_in_loop i s =
     (case id_map s i of
        None \<Rightarrow> Some s
      | Some signo \<Rightarrow>
          let s1 = s\<lparr>id_map := (id_map s)(i := None)\<rparr>
          in case sig_map s1 signo of
               None \<Rightarrow> None
             | Some sl \<Rightarrow>
                 let sl' = erase_event i sl
                 in if sl' = [] then Some (set_sigaction signo SigDfl (s1\<lparr>sig_map := (sig_map s1)(signo := None)\<rparr>))
                    else Some (s1\<lparr>sig_map := (sig_map s1)(signo \<mapsto> sl')\<rparr>))"

fun run_sig_task :: "'a sig_task \<Rightarrow> 'a signaler \<Rightarrow> 'a signaler option" where
  "run_sig_task (AddTask signo i cb) s = Some (add_signal_in_loop signo i cb s)"
| "run_sig_task (IgnoreTask signo) s = Some (ignore_signal_in_loop signo s)"
| "run_sig_task (CancelTask i) s = cancel_signal_in_loop i s"

text \<open>\<^verbatim>\<open>run_in_loop\<close>: at once in the thread of the loop, queued from any other thread.\<close>

definition in_sig_loop :: "bool \<Rightarrow> 'a sig_task \<Rightarrow> 'a signaler \<Rightarrow> 'a signaler option" where
  "in_sig_loop same_thread t s = (if same_thread then run_sig_task t s else Some (s\<lparr>sig_tasks := sig_tasks s @ [t]\<rparr>))"

definition add_signal :: "bool \<Rightarrow> nat \<Rightarrow> 'a \<Rightarrow> 'a signaler \<Rightarrow> nat \<times> 'a signaler option" where
  "add_signal same_thread signo cb s =
     (let i = sig_id s in (i, in_sig_loop same_thread (AddTask signo i cb) (s\<lparr>sig_id := i + 1\<rparr>)))"

definition ignore_signal :: "bool \<Rightarrow> nat \<Rightarrow> 'a signaler \<Rightarrow> 'a signaler option" where
  "ignore_signal same_thread signo s = in_sig_loop same_thread (IgnoreTask signo) s"

definition cancel_signal :: "bool \<Rightarrow> nat \<Rightarrow> 'a signaler \<Rightarrow> 'a signaler option" where
  "cancel_signal same_thread i s = in_sig_loop same_thread (CancelTask i) s"

definition sig_buf_size :: nat where
  "sig_buf_size = 1024"

fun catch_bytes :: "string \<Rightarrow> 'a signaler \<Rightarrow> 'a signaler option" where
  "catch_bytes [] s = Some s"
| "catch_bytes (b # bs) s =
     (case sig_map s (of_char b) of
        None \<Rightarrow> None
      | Some es \<Rightarrow> catch_bytes bs (s\<lparr>sig_calls := sig_calls s @ map (\<lambda>e. (of_char b, snd e)) es\<rparr>))"

definition sig_catch :: "'a signaler \<Rightarrow> 'a signaler option" where
  "sig_catch s = catch_bytes (take sig_buf_size (sig_pair s)) (s\<lparr>sig_pair := drop sig_buf_size (sig_pair s)\<rparr>)"

section \<open>Threads, tasks and signals in any order\<close>

inductive sig_reach :: "'a signaler \<Rightarrow> bool" where
  start: "sig_reach signaler_new"
| add: "\<lbrakk>sig_reach s; signo < 256; add_signal same signo cb s = (i, Some s')\<rbrakk> \<Longrightarrow> sig_reach s'"
| ignore: "\<lbrakk>sig_reach s; ignore_signal same signo s = Some s'\<rbrakk> \<Longrightarrow> sig_reach s'"
| cancel: "\<lbrakk>sig_reach s; cancel_signal same i s = Some s'\<rbrakk> \<Longrightarrow> sig_reach s'"
| task: "\<lbrakk>sig_reach s; sig_tasks s = t # ts; run_sig_task t (s\<lparr>sig_tasks := ts\<rparr>) = Some s'\<rbrakk> \<Longrightarrow> sig_reach s'"
| deliver: "\<lbrakk>sig_reach s; disposition s signo = SigHandler\<rbrakk> \<Longrightarrow> sig_reach (sig_handler signo s)"
| caught: "\<lbrakk>sig_reach s; sig_catch s = Some s'\<rbrakk> \<Longrightarrow> sig_reach s'"

fun task_ids :: "'a sig_task \<Rightarrow> nat list" where
  "task_ids (AddTask signo i cb) = [i]"
| "task_ids _ = []"

definition queued_ids :: "'a signaler \<Rightarrow> nat list" where
  "queued_ids s = concat (map task_ids (sig_tasks s))"

definition events :: "'a signaler \<Rightarrow> nat \<Rightarrow> (nat \<times> 'a) list" where
  "events s signo = (case sig_map s signo of None \<Rightarrow> [] | Some es \<Rightarrow> es)"

text \<open>
  The two maps describe the same registrations, no list of handlers is empty, the kernel has the handler installed for exactly the signals in the map,
  and identifiers are never given twice, also not to registrations that are still queued.
\<close>

definition sig_wf :: "'a signaler \<Rightarrow> bool" where
  "sig_wf s \<longleftrightarrow>
     (\<forall>i signo. id_map s i = Some signo \<longleftrightarrow> i \<in> fst ` set (events s signo)) \<and>
     (\<forall>signo. sig_map s signo \<noteq> Some [] \<and> distinct (map fst (events s signo))) \<and>
     (\<forall>signo. disposition s signo = SigHandler \<longleftrightarrow> sig_map s signo \<noteq> None) \<and>
     (\<forall>i. id_map s i \<noteq> None \<longrightarrow> i < sig_id s \<and> i \<notin> set (queued_ids s)) \<and>
     distinct (queued_ids s) \<and> (\<forall>i \<in> set (queued_ids s). i < sig_id s)"

lemma sig_wfD:
  assumes "sig_wf s"
  shows "id_map s i = Some signo \<longleftrightarrow> i \<in> fst ` set (events s signo)" and "sig_map s signo \<noteq> Some []"
    and "distinct (map fst (events s signo))" and "disposition s signo = SigHandler \<longleftrightarrow> sig_map s signo \<noteq> None"
    and "id_map s i \<noteq> None \<Longrightarrow> i < sig_id s \<and> i \<notin> set (queued_ids s)"
    and "distinct (queued_ids s)" and "i \<in> set (queued_ids s) \<Longrightarrow> i < sig_id s"
  using assms unfolding sig_wf_def by blast+

lemma erase_event_set: "distinct (map fst es) \<Longrightarrow> fst ` set (erase_event i es) = fst ` set es - {i} \<and> distinct (map fst (erase_event i es))"
  by (induction es) (auto simp: image_iff)

lemma erase_event_in: "set (erase_event i es) \<subseteq> set es"
  by (induction es) auto

lemma add_wf:
  assumes "sig_wf s" and "id_map s i = None" and "i < sig_id s" and "i \<notin> set (queued_ids s)"
  shows "sig_wf (add_signal_in_loop signo i cb s)"
proof -
  let ?s = "add_signal_in_loop signo i cb s"
  have ev: "events ?s n = (if n = signo then (i, cb) # events s signo else events s n)" for n
    by (simp add: events_def add_signal_in_loop_def set_sigaction_def Let_def)
  have ids: "id_map ?s = (id_map s)(i \<mapsto> signo)" using assms(2) by (simp add: add_signal_in_loop_def set_sigaction_def Let_def)
  have sm: "sig_map ?s = (sig_map s)(signo \<mapsto> (i, cb) # events s signo)"
    by (simp add: add_signal_in_loop_def set_sigaction_def Let_def events_def)
  have new: "i \<notin> fst ` set (events s n)" for n using assms(2) sig_wfD(1) [OF assms(1), of i n] by simp
  have disp: "disposition ?s n = SigHandler \<longleftrightarrow> n = signo \<or> disposition s n = SigHandler" for n
    using sig_wfD(2,4) [OF assms(1), of signo]
    by (auto simp: add_signal_in_loop_def set_sigaction_def Let_def split: option.splits)
  have rest: "queued_ids ?s = queued_ids s" "sig_id ?s = sig_id s"
    by (simp_all add: queued_ids_def add_signal_in_loop_def set_sigaction_def Let_def)
  show ?thesis
    unfolding sig_wf_def ev ids sm disp rest
    using sig_wfD [OF assms(1)] new assms(3,4) by auto
qed

lemma ignore_wf:
  assumes "sig_wf s"
  shows "sig_wf (ignore_signal_in_loop signo s)"
proof -
  let ?s = "ignore_signal_in_loop signo s"
  have ev: "events ?s n = (if n = signo then [] else events s n)" for n
    by (simp add: events_def ignore_signal_in_loop_def set_sigaction_def Let_def)
  have ids: "id_map ?s i = (if i \<in> fst ` set (events s signo) then None else id_map s i)" for i
    by (simp add: ignore_signal_in_loop_def set_sigaction_def Let_def events_def)
  have sm: "sig_map ?s = (sig_map s)(signo := None)" and disp: "disposition ?s = (disposition s)(signo := SigIgn)"
    by (simp_all add: ignore_signal_in_loop_def set_sigaction_def Let_def)
  have rest: "queued_ids ?s = queued_ids s" "sig_id ?s = sig_id s"
    by (simp_all add: queued_ids_def ignore_signal_in_loop_def set_sigaction_def Let_def)
  have one: "n = signo" if "i \<in> fst ` set (events s signo)" "i \<in> fst ` set (events s n)" for i n
    using that sig_wfD(1) [OF assms, of i n] sig_wfD(1) [OF assms, of i signo] by simp
  have "id_map ?s i = Some n \<longleftrightarrow> i \<in> fst ` set (events ?s n)" for i n
    using sig_wfD(1) [OF assms, of i n] one by (auto simp: ids ev)
  moreover have "id_map ?s i \<noteq> None \<longrightarrow> i < sig_id ?s \<and> i \<notin> set (queued_ids ?s)" for i
    using sig_wfD(5) [OF assms, of i] by (simp add: ids rest)
  ultimately show ?thesis
    using sig_wfD(2,3,4,6,7) [OF assms] unfolding sig_wf_def by (simp add: ev sm disp rest)
qed

lemma cancel_total:
  assumes "sig_wf s"
  shows "\<exists>s'. cancel_signal_in_loop i s = Some s'"
proof (cases "id_map s i")
  case (Some signo)
  then have "sig_map s signo \<noteq> None" using sig_wfD(1) [OF assms, of i signo] by (cases "sig_map s signo") (simp_all add: events_def)
  then show ?thesis by (auto simp: cancel_signal_in_loop_def Some Let_def)
qed (simp add: cancel_signal_in_loop_def)

lemma cancel_wf:
  assumes "sig_wf s" and "cancel_signal_in_loop i s = Some s'"
  shows "sig_wf s'"
proof (cases "id_map s i")
  case None
  then show ?thesis using assms by (simp add: cancel_signal_in_loop_def)
next
  case (Some signo)
  then obtain es where es: "sig_map s signo = Some es" using assms(2) by (auto simp: cancel_signal_in_loop_def Let_def split: option.splits)
  let ?es = "erase_event i es"
  have e: "events s signo = es" by (simp add: events_def es)
  have d: "fst ` set ?es = fst ` set es - {i}" "distinct (map fst ?es)" using erase_event_set [of es i] sig_wfD(3) [OF assms(1), of signo] e by simp_all
  have ids: "id_map s' = (id_map s)(i := None)" and rest: "queued_ids s' = queued_ids s" "sig_id s' = sig_id s"
    and sm: "sig_map s' = (sig_map s)(signo := if ?es = [] then None else Some ?es)"
    and disp: "disposition s' = (if ?es = [] then (disposition s)(signo := SigDfl) else disposition s)"
    using assms(2) by (auto simp: cancel_signal_in_loop_def Some es Let_def set_sigaction_def queued_ids_def split: if_splits)
  have ev: "events s' n = (if n = signo then ?es else events s n)" for n by (simp add: events_def sm)
  have "id_map s' k = Some n \<longleftrightarrow> k \<in> fst ` set (events s' n)" for k n
    using sig_wfD(1) [OF assms(1), of k n] sig_wfD(1) [OF assms(1), of i n] Some d(1) e by (auto simp: ids ev)
  moreover have "disposition s' n = SigHandler \<longleftrightarrow> sig_map s' n \<noteq> None" for n
    using sig_wfD(4) [OF assms(1), of n] es by (simp add: disp sm)
  moreover have "sig_map s' n \<noteq> Some [] \<and> distinct (map fst (events s' n))" for n
    using sig_wfD(2,3) [OF assms(1), of n] d(2) by (simp add: sm ev)
  moreover have "id_map s' k \<noteq> None \<longrightarrow> k < sig_id s' \<and> k \<notin> set (queued_ids s')" for k
    using sig_wfD(5) [OF assms(1), of k] by (simp add: ids rest)
  ultimately show ?thesis
    using sig_wfD(6,7) [OF assms(1)] unfolding sig_wf_def by (simp add: rest)
qed

lemma catch_bytes_wf: "sig_wf s \<Longrightarrow> catch_bytes bs s = Some s' \<Longrightarrow> sig_wf s'"
proof (induction bs s rule: catch_bytes.induct)
  case (2 b bs s)
  then show ?case by (auto simp: sig_wf_def events_def queued_ids_def split: option.splits)
qed simp

lemma task_wf:
  assumes "sig_wf s" and "t # ts = sig_tasks s" and "run_sig_task t (s\<lparr>sig_tasks := ts\<rparr>) = Some s'"
  shows "sig_wf s'"
proof -
  have q: "queued_ids s = task_ids t @ queued_ids (s\<lparr>sig_tasks := ts\<rparr>)" by (simp add: queued_ids_def assms(2) [symmetric])
  have w: "sig_wf (s\<lparr>sig_tasks := ts\<rparr>)" using assms(1) q unfolding sig_wf_def by (auto simp: events_def)
  show ?thesis
  proof (cases t)
    case (AddTask signo i cb)
    then have i: "i \<in> set (queued_ids s)" "i \<notin> set (queued_ids (s\<lparr>sig_tasks := ts\<rparr>))" using q sig_wfD(6) [OF assms(1)] by auto
    then have "id_map s i = None" "i < sig_id s" using sig_wfD(5,7) [OF assms(1), of i] by blast+
    then show ?thesis using assms(3) add_wf [OF w, of i] i(2) by (auto simp: AddTask)
  qed (use assms(3) ignore_wf [OF w] cancel_wf [OF w] in auto)
qed

lemma queue_wf: "sig_wf s \<Longrightarrow> task_ids t = [] \<Longrightarrow> sig_wf (s\<lparr>sig_tasks := sig_tasks s @ [t]\<rparr>)"
  by (simp add: sig_wf_def events_def queued_ids_def)

lemma add_signal_wf:
  assumes "sig_wf s" and "add_signal same signo cb s = (i, Some s')"
  shows "sig_wf s'"
proof -
  have w: "sig_wf (s\<lparr>sig_id := sig_id s + 1\<rparr>)" using assms(1) unfolding sig_wf_def by (auto simp: events_def queued_ids_def less_Suc_eq)
  have n: "id_map s (sig_id s) = None" "sig_id s \<notin> set (queued_ids s)" using sig_wfD(5,7) [OF assms(1), of "sig_id s"] by blast+
  show ?thesis
  proof (cases same)
    case True
    then show ?thesis using assms(2) add_wf [OF w, of "sig_id s"] n by (auto simp: add_signal_def in_sig_loop_def queued_ids_def Let_def)
  next
    case False
    then have s': "s' = s\<lparr>sig_id := sig_id s + 1, sig_tasks := sig_tasks s @ [AddTask signo (sig_id s) cb]\<rparr>"
      using assms(2) by (auto simp: add_signal_def in_sig_loop_def Let_def)
    have "queued_ids s' = queued_ids s @ [sig_id s]" "events s' = events s" by (simp_all add: s' queued_ids_def events_def fun_eq_iff)
    moreover have "i \<noteq> sig_id s" if "id_map s i \<noteq> None" for i using that n(1) by auto
    ultimately show ?thesis
      using sig_wfD [OF assms(1)] n(2) unfolding sig_wf_def by (simp add: s') (metis less_Suc_eq option.distinct(1))
  qed
qed

lemma sig_reach_wf: "sig_reach s \<Longrightarrow> sig_wf s"
proof (induction rule: sig_reach.induct)
  case start
  show ?case by (simp add: sig_wf_def signaler_new_def events_def queued_ids_def)
next
  case (add s signo same cb i s')
  then show ?case by (blast intro: add_signal_wf)
next
  case (ignore s same signo s')
  then show ?case using ignore_wf queue_wf [of s "IgnoreTask signo"] by (auto simp: ignore_signal_def in_sig_loop_def split: if_splits)
next
  case (cancel s same i s')
  then show ?case using cancel_wf queue_wf [of s "CancelTask i"] by (auto simp: cancel_signal_def in_sig_loop_def split: if_splits)
next
  case (task s t ts s')
  then show ?case by (metis task_wf)
next
  case (deliver s signo)
  then show ?case by (simp add: sig_wf_def sig_handler_def events_def queued_ids_def)
next
  case (caught s s')
  then show ?case using catch_bytes_wf [of "s\<lparr>sig_pair := drop sig_buf_size (sig_pair s)\<rparr>"]
    by (simp add: sig_catch_def sig_wf_def events_def queued_ids_def)
qed

lemma events_some: "sig_wf s \<Longrightarrow> disposition s n = SigHandler \<Longrightarrow> sig_map s n = Some (events s n)"
  using sig_wfD(4) [of s n] by (cases "sig_map s n") (simp_all add: events_def)

lemma catch_registered:
  assumes "sig_wf s" and "list_all (\<lambda>b. disposition s (of_char b) = SigHandler) bs"
  shows "catch_bytes bs s = Some (s\<lparr>sig_calls := sig_calls s @ concat (map (\<lambda>b. map (\<lambda>e. (of_char b, snd e)) (events s (of_char b))) bs)\<rparr>)"
  using assms
proof (induction bs arbitrary: s)
  case (Cons b bs)
  let ?s = "s\<lparr>sig_calls := sig_calls s @ map (\<lambda>e. (of_char b, snd e)) (events s (of_char b))\<rparr>"
  have "sig_wf ?s" "events ?s = events s" using Cons.prems(1) by (simp_all add: sig_wf_def events_def queued_ids_def fun_eq_iff)
  with Cons.IH [of ?s] Cons.prems show ?case by (simp add: events_some)
qed simp

section \<open>Properties\<close>


definition two_handlers :: "nat signaler" where
  "two_handlers = sig_handler 2 (add_signal_in_loop 2 1 20 (add_signal_in_loop 2 0 10 (signaler_new\<lparr>sig_id := 2\<rparr>)))"

lemma two_handlers_reach: "sig_reach two_handlers"
proof -
  have "sig_reach (add_signal_in_loop 2 0 (10 :: nat) (signaler_new\<lparr>sig_id := 1\<rparr>))"
    by (rule sig_reach.add [OF sig_reach.start, of 2 True "10 :: nat" 0]) (simp_all add: add_signal_def in_sig_loop_def signaler_new_def)
  then have "sig_reach (add_signal_in_loop 2 1 (20 :: nat) (add_signal_in_loop 2 0 10 (signaler_new\<lparr>sig_id := 2\<rparr>)))"
    by (rule sig_reach.add [of _ 2 True "20 :: nat" 1])
      (simp_all add: add_signal_def in_sig_loop_def signaler_new_def add_signal_in_loop_def set_sigaction_def Let_def)
  then show ?thesis
    unfolding two_handlers_def by (rule sig_reach.deliver) (simp add: add_signal_in_loop_def set_sigaction_def Let_def signaler_new_def)
qed


text \<open>A signal whose registration is cancelled between its arrival and its processing fails the \<^verbatim>\<open>Assert\<close> of \<^verbatim>\<open>sig_catch\<close>.\<close>

lemma cancelled_signal_aborts: "\<exists>s :: nat signaler. sig_reach s \<and> sig_catch s = None"
proof -
  let ?a = "add_signal_in_loop 2 0 10 (signaler_new\<lparr>sig_id := 1\<rparr>) :: nat signaler"
  have "sig_reach ?a"
    by (rule sig_reach.add [OF sig_reach.start, of 2 True "10 :: nat" 0]) (simp_all add: add_signal_def in_sig_loop_def signaler_new_def)
  then have "sig_reach (sig_handler 2 ?a)"
    by (rule sig_reach.deliver) (simp add: add_signal_in_loop_def set_sigaction_def Let_def signaler_new_def)
  moreover obtain s where s: "cancel_signal True 0 (sig_handler 2 ?a) = Some s" and n: "sig_map s 2 = None" "sig_pair s = [char_of (2 :: nat)]"
    by (simp add: cancel_signal_def in_sig_loop_def cancel_signal_in_loop_def sig_handler_def add_signal_in_loop_def set_sigaction_def Let_def signaler_new_def)
  ultimately have "sig_reach s" by (blast intro: sig_reach.cancel)
  moreover have "sig_catch s = None" by (simp add: sig_catch_def n sig_buf_size_def)
  ultimately show ?thesis by blast
qed

end
