(* ===== verification/Logger.thy ===== *)
theory Logger
  imports Buffer
begin

text \<open>
  The logger: \<^verbatim>\<open>src/logger.cc\<close>, \<^verbatim>\<open>include/angel/logger.h\<close>. Threads append formatted lines to \<open>write_buf\<close>; the thread of the logger swaps it with \<open>flush_buf\<close> and
  writes that to the current file. \<^verbatim>\<open>localtime_r\<close> and what \<^verbatim>\<open>write\<close> returns are arguments, the files and the standard output are fields of the
  state, and \<open>log_sink\<close> records all bytes that \<^verbatim>\<open>write\<close> accepted, in their order.
\<close>

section \<open>Formatting a line\<close>

datatype level = LevelDebug | LevelInfo | LevelWarn | LevelError | LevelFatal

fun level_value :: "level \<Rightarrow> nat" where
  "level_value LevelDebug = 0" | "level_value LevelInfo = 1" | "level_value LevelWarn = 2" | "level_value LevelError = 3" | "level_value LevelFatal = 4"

fun get_level_str :: "level \<Rightarrow> string" where
  "get_level_str LevelDebug = ''DEBUG: ''" | "get_level_str LevelInfo = ''INFO:  ''" | "get_level_str LevelWarn = ''WARN:  ''"
| "get_level_str LevelError = ''ERROR: ''" | "get_level_str LevelFatal = ''FATAL: ''"

record tm =
  tm_year :: nat
  tm_mon :: nat
  tm_mday :: nat
  tm_hour :: nat
  tm_min :: nat
  tm_sec :: nat

text \<open>The conversions \<^verbatim>\<open>%4d\<close>, \<^verbatim>\<open>%02d\<close> and \<^verbatim>\<open>%03lld\<close>; \<open>snprintf_at\<close> writes at most \<open>len - 1\<close> characters and a NUL.\<close>

definition padded :: "char \<Rightarrow> nat \<Rightarrow> nat \<Rightarrow> string" where
  "padded c w n = replicate (w - length (dec n)) c @ dec n"

definition snprintf_at :: "string \<Rightarrow> nat \<Rightarrow> nat \<Rightarrow> string \<Rightarrow> string" where
  "snprintf_at m i len t = memcpy_at m i (take (len - 1) t @ [NUL])"

definition date_text :: "char \<Rightarrow> tm \<Rightarrow> string" where
  "date_text sep tm = padded SP 4 (tm_year tm + 1900) @ ''-'' @ padded CHR ''0'' 2 (tm_mon tm + 1) @ ''-'' @ padded CHR ''0'' 2 (tm_mday tm) @ [sep]
     @ padded CHR ''0'' 2 (tm_hour tm) @ '':'' @ padded CHR ''0'' 2 (tm_min tm) @ '':'' @ padded CHR ''0'' 2 (tm_sec tm)"

record time_cache =
  log_time_buf :: string
  log_last_second :: nat

definition time_cache_new :: time_cache where
  "time_cache_new = \<lparr>log_time_buf = replicate 32 NUL, log_last_second = 0\<rparr>"

text \<open>The thread local buffer keeps the text of the last second: within a second only the milliseconds are written again.\<close>

definition format_time :: "(nat \<Rightarrow> tm) \<Rightarrow> nat \<Rightarrow> time_cache \<Rightarrow> time_cache" where
  "format_time localtime ms c =
     (let seconds = ms div 1000
      in if seconds \<noteq> log_last_second c then
           c\<lparr>log_time_buf := snprintf_at (log_time_buf c) 0 32 (date_text SP (localtime seconds) @ ''.'' @ padded CHR ''0'' 3 (ms mod 1000)),
             log_last_second := seconds\<rparr>
         else c\<lparr>log_time_buf := snprintf_at (log_time_buf c) 20 12 (padded CHR ''0'' 3 (ms mod 1000))\<rparr>)"

definition log_output_size :: nat where
  "log_output_size = 65536"

text \<open>\<open>msg\<close> is what \<^verbatim>\<open>vsnprintf\<close> produces without a limit, \<open>time\<close> the buffer of \<^verbatim>\<open>format_time\<close>.\<close>

definition format_line :: "level \<Rightarrow> string \<Rightarrow> string \<Rightarrow> string \<Rightarrow> nat \<Rightarrow> string \<Rightarrow> string" where
  "format_line level time msg file_name line tid =
     get_level_str level @ take 23 time @ '' '' @ take (log_output_size - 256 - 31 - 1) msg @ '' - '' @ file_name @ '':'' @ dec line @ '' - '' @ tid @ [LF]"

section \<open>The logger\<close>

datatype flush_flags = FlushFile | FlushStdout

datatype log_fd = NoFd | StdoutFd | FileFd string

datatype log_thread = LogWaiting | LogFlushing | LogEnded

record logger =
  log_name :: string
  log_dir :: string
  log_filename :: string
  write_buf :: buffer
  flush_buf :: buffer
  log_quit :: bool
  log_cur_fd :: log_fd
  cur_file_size :: nat
  flush_to :: flush_flags
  log_level :: level
  log_roll_file_size :: nat
  log_files :: "string \<rightharpoonup> string"
  log_stdout :: string
  log_sink :: string
  log_thread :: log_thread

definition is_filter :: "level \<Rightarrow> logger \<Rightarrow> bool" where
  "is_filter level s \<longleftrightarrow> level_value level < level_value (log_level s)"

definition set_level :: "level \<Rightarrow> logger \<Rightarrow> logger" where
  "set_level level s = s\<lparr>log_level := level\<rparr>"

text \<open>\<open>made\<close>: the directory exists or could be made; otherwise the process ends.\<close>

definition set_dir :: "bool \<Rightarrow> string \<Rightarrow> logger \<Rightarrow> logger option" where
  "set_dir made dir s =
     (if dir = log_dir s then Some s
      else if \<not> made \<or> dir = [] then None
      else Some (s\<lparr>log_dir := (if last dir = CHR ''/'' then dir else dir @ ''/'')\<rparr>))"

definition get_new_file :: "tm \<Rightarrow> logger \<Rightarrow> string" where
  "get_new_file tm s = log_dir s @ (if log_name s \<noteq> [] then log_name s @ ''-'' else []) @ take 31 (date_text CHR ''-'' tm) @ ''.log''"

text \<open>\<^verbatim>\<open>O_APPEND | O_CREAT\<close>: an existing file keeps its text. \<open>opened\<close>: \<^verbatim>\<open>open\<close> succeeds; otherwise the process ends.\<close>

definition create_new_file :: "bool \<Rightarrow> tm \<Rightarrow> logger \<Rightarrow> logger option" where
  "create_new_file opened tm s =
     (let f = get_new_file tm s
      in if \<not> opened then None
         else Some (s\<lparr>log_filename := f, log_cur_fd := FileFd f, cur_file_size := 0,
           log_files := (log_files s)(f \<mapsto> (case log_files s f of None \<Rightarrow> [] | Some t \<Rightarrow> t))\<rparr>))"

definition set_name :: "bool \<Rightarrow> tm \<Rightarrow> string \<Rightarrow> logger \<Rightarrow> logger option" where
  "set_name opened tm name s =
     (let s1 = s\<lparr>log_name := name\<rparr>
      in if log_filename s1 \<noteq> [] then create_new_file opened tm (s1\<lparr>log_files := (log_files s1)(log_filename s1 := None)\<rparr>) else Some s1)"

definition roll_file :: "bool \<Rightarrow> tm \<Rightarrow> logger \<Rightarrow> logger option" where
  "roll_file opened tm s = (if cur_file_size s \<ge> log_roll_file_size s then create_new_file opened tm s else Some s)"

definition open_output :: "bool \<Rightarrow> tm \<Rightarrow> logger \<Rightarrow> logger option" where
  "open_output opened tm s =
     (case flush_to s of
        FlushFile \<Rightarrow> create_new_file opened tm s
      | FlushStdout \<Rightarrow> Some (s\<lparr>log_cur_fd := StdoutFd\<rparr>))"

text \<open>One successful \<^verbatim>\<open>write\<close> of \<open>n\<close> bytes.\<close>

definition flush_write :: "nat \<Rightarrow> logger \<Rightarrow> logger" where
  "flush_write n s =
     (let t = take n (peek (flush_buf s));
          s1 = (case log_cur_fd s of
                  FileFd f \<Rightarrow> s\<lparr>log_files := (log_files s)(f := map_option (\<lambda>old. old @ t) (log_files s f))\<rparr>
                | StdoutFd \<Rightarrow> s\<lparr>log_stdout := log_stdout s @ t\<rparr>
                | NoFd \<Rightarrow> s)
      in s1\<lparr>log_sink := log_sink s1 @ t, cur_file_size := cur_file_size s1 + n, flush_buf := retrieve (flush_buf s1) n\<rparr>)"

text \<open>The loop of \<^verbatim>\<open>flush\<close> with the answers of \<^verbatim>\<open>write\<close>, \<open>None\<close> for an error; the result \<open>None\<close>: the loop has not ended with these answers.\<close>

fun flush_loop :: "nat option list \<Rightarrow> logger \<Rightarrow> logger option" where
  "flush_loop ans s =
     (if readable (flush_buf s) = 0 then Some s
      else case ans of
        [] \<Rightarrow> None
      | None # _ \<Rightarrow> Some s
      | Some n # ans' \<Rightarrow> flush_loop ans' (flush_write n s))"

declare flush_loop.simps [simp del]

definition flush_log :: "nat option list \<Rightarrow> bool \<Rightarrow> tm \<Rightarrow> logger \<Rightarrow> logger option" where
  "flush_log ans opened tm s =
     (case flush_loop ans s of
        None \<Rightarrow> None
      | Some s1 \<Rightarrow> if flush_to s1 = FlushFile then roll_file opened tm s1 else Some s1)"

definition log_write :: "string \<Rightarrow> logger \<Rightarrow> logger" where
  "log_write line s = s\<lparr>write_buf := append_buf (write_buf s) line\<rparr>"

text \<open>The thread: it wakes up, by notification, timeout or spuriously, and swaps the buffers under the lock.\<close>

definition swap_log :: "logger \<Rightarrow> logger" where
  "swap_log s =
     (if readable (write_buf s) > 0 then
        let (w, f) = swap_buf (write_buf s) (flush_buf s) in s\<lparr>write_buf := w, flush_buf := f\<rparr>
      else s)"

definition log_round_begin :: "logger \<Rightarrow> logger" where
  "log_round_begin s = (swap_log s)\<lparr>log_thread := LogFlushing\<rparr>"

definition log_round_end :: "logger \<Rightarrow> logger" where
  "log_round_end s = s\<lparr>log_thread := (if log_quit s then LogEnded else LogWaiting)\<rparr>"

definition quit_log :: "logger \<Rightarrow> logger" where
  "quit_log s = s\<lparr>log_quit := True\<rparr>"

text \<open>\<^verbatim>\<open>restart\<close> behind the \<^verbatim>\<open>join\<close> of the old thread, with the first step of the new one.\<close>

definition restart_log :: "bool \<Rightarrow> tm \<Rightarrow> logger \<Rightarrow> logger option" where
  "restart_log opened tm s =
     (let s1 = s\<lparr>log_quit := False, cur_file_size := 0\<rparr>;
          s2 = (if log_filename s1 \<noteq> [] then s1\<lparr>log_files := (log_files s1)(log_filename s1 := None), log_filename := []\<rparr> else s1)
      in map_option (\<lambda>s3. s3\<lparr>log_thread := LogWaiting\<rparr>) (open_output opened tm s2))"

definition set_flush :: "bool \<Rightarrow> tm \<Rightarrow> flush_flags \<Rightarrow> logger \<Rightarrow> logger option" where
  "set_flush opened tm where_to s = restart_log opened tm (s\<lparr>flush_to := where_to\<rparr>)"

definition logger_new :: "bool \<Rightarrow> tm \<Rightarrow> logger option" where
  "logger_new opened tm =
     open_output opened tm \<lparr>log_name = [], log_dir = ''.log/'', log_filename = [], write_buf = buffer_new init_size, flush_buf = buffer_new init_size,
       log_quit = False, log_cur_fd = NoFd, cur_file_size = 0, flush_to = FlushFile, log_level = LevelInfo,
       log_roll_file_size = 1024 * 1024 * 1024, log_files = Map.empty, log_stdout = [], log_sink = [], log_thread = LogWaiting\<rparr>"

section \<open>The cached time\<close>

lemma length_dec_lt: "n < 10 ^ k \<Longrightarrow> 0 < k \<Longrightarrow> length (dec n) \<le> k"
proof (induction n arbitrary: k rule: dec.induct)
  case (1 n)
  show ?case
  proof (cases "n < 10")
    case True
    then show ?thesis using 1(3) by (subst dec.simps) simp
  next
    case False
    then obtain j where k: "k = Suc j" "0 < j" using 1(2,3) by (cases k; cases "k - 1") auto
    have "n div 10 < 10 ^ j" using 1(2) k by (simp add: less_mult_imp_div_less mult.commute)
    then have "length (dec (n div 10)) \<le> j" using 1(1) [OF False] k(2) by blast
    then show ?thesis using False k by (subst dec.simps) simp
  qed
qed

lemma length_padded: "n < 10 ^ w \<Longrightarrow> 0 < w \<Longrightarrow> length (padded c w n) = w"
  using length_dec_lt [of n w] by (simp add: padded_def)

definition tm_ok :: "tm \<Rightarrow> bool" where
  "tm_ok t \<longleftrightarrow> tm_year t + 1900 < 10000 \<and> tm_mon t < 12 \<and> tm_mday t < 32 \<and> tm_hour t < 24 \<and> tm_min t < 60 \<and> tm_sec t < 61"

lemma length_date_text: "tm_ok t \<Longrightarrow> length (date_text c t) = 19"
  by (simp add: tm_ok_def date_text_def length_padded)

definition full_time :: "(nat \<Rightarrow> tm) \<Rightarrow> nat \<Rightarrow> string" where
  "full_time localtime ms = date_text SP (localtime (ms div 1000)) @ ''.'' @ padded CHR ''0'' 3 (ms mod 1000)"

definition cache_ok :: "(nat \<Rightarrow> tm) \<Rightarrow> time_cache \<Rightarrow> bool" where
  "cache_ok localtime c \<longleftrightarrow> length (log_time_buf c) = 32 \<and>
     (log_last_second c \<noteq> 0 \<longrightarrow> take 20 (log_time_buf c) = date_text SP (localtime (log_last_second c)) @ ''.'')"

lemma length_ms: "length (padded CHR ''0'' 3 (ms mod 1000)) = 3"
  by (rule length_padded) simp_all

lemma format_time_step:
  assumes "\<And>t. tm_ok (localtime t)" and "cache_ok localtime c" and "1000 \<le> ms"
  shows "cache_ok localtime (format_time localtime ms c) \<and> take 23 (log_time_buf (format_time localtime ms c)) = full_time localtime ms"
proof (cases "ms div 1000 = log_last_second c")
  case False
  have "length (full_time localtime ms) = 23" using length_date_text [OF assms(1)] length_ms by (simp add: full_time_def)
  moreover have "log_time_buf (format_time localtime ms c) = full_time localtime ms @ NUL # drop 24 (log_time_buf c)"
    using False assms(2) length_date_text [OF assms(1), of SP] length_ms
    by (simp add: format_time_def snprintf_at_def memcpy_at_def full_time_def Let_def cache_ok_def)
  ultimately show ?thesis
    using False assms(2) length_date_text [OF assms(1), of SP]
    by (simp add: cache_ok_def format_time_def full_time_def Let_def)
next
  case True
  let ?m = "padded CHR ''0'' 3 (ms mod 1000)"
  have nz: "log_last_second c \<noteq> 0" using True assms(3) by auto
  have "log_time_buf (format_time localtime ms c) = take 20 (log_time_buf c) @ ?m @ NUL # drop 24 (log_time_buf c)"
    using True assms(2) length_ms [of ms] by (simp add: format_time_def snprintf_at_def memcpy_at_def Let_def cache_ok_def)
  moreover have "log_last_second (format_time localtime ms c) = log_last_second c" using True by (simp add: format_time_def Let_def)
  ultimately show ?thesis
    using assms(2) nz True length_ms [of ms] length_date_text [OF assms(1), of SP]
    by (simp add: cache_ok_def full_time_def)
qed

lemma format_time_fold:
  assumes "\<And>t. tm_ok (localtime t)" and "list_all (\<lambda>ms. 1000 \<le> ms) calls"
  shows "cache_ok localtime (fold (format_time localtime) calls time_cache_new)"
  using assms(2)
proof (induction calls rule: rev_induct)
  case Nil
  then show ?case by (simp add: cache_ok_def time_cache_new_def)
next
  case (snoc ms calls)
  then show ?case using format_time_step [OF assms(1)] by simp
qed

section \<open>Lines, buffers and the thread\<close>

text \<open>
  Lines are appended, the thread wakes up, a \<^verbatim>\<open>write\<close> takes some bytes, the round ends, the logger is renamed, quit and started again, in any order. \<open>ls\<close> are the lines that
  were appended.
\<close>

inductive log_reach :: "string list \<Rightarrow> logger \<Rightarrow> bool" where
  start: "logger_new opened tm = Some s \<Longrightarrow> log_reach [] s"
| line: "log_reach ls s \<Longrightarrow> log_reach (ls @ [l]) (log_write l s)"
| wake: "\<lbrakk>log_reach ls s; log_thread s = LogWaiting\<rbrakk> \<Longrightarrow> log_reach ls (log_round_begin s)"
| put: "\<lbrakk>log_reach ls s; log_thread s = LogFlushing; 0 < readable (flush_buf s); n \<le> readable (flush_buf s)\<rbrakk> \<Longrightarrow> log_reach ls (flush_write n s)"
| round_end: "\<lbrakk>log_reach ls s; log_thread s = LogFlushing; readable (flush_buf s) = 0;
    (if flush_to s = FlushFile then roll_file opened tm s else Some s) = Some s'\<rbrakk> \<Longrightarrow> log_reach ls (log_round_end s')"
| rename: "\<lbrakk>log_reach ls s; set_name opened tm name s = Some s'\<rbrakk> \<Longrightarrow> log_reach ls s'"
| redirect: "\<lbrakk>log_reach ls s; log_thread s = LogEnded; set_flush opened tm w s = Some s'\<rbrakk> \<Longrightarrow> log_reach ls s'"
| quit: "log_reach ls s \<Longrightarrow> log_reach ls (quit_log s)"

definition log_inv :: "string list \<Rightarrow> logger \<Rightarrow> bool" where
  "log_inv ls s \<longleftrightarrow> buffer_wf (write_buf s) \<and> buffer_wf (flush_buf s) \<and>
     log_sink s @ peek (flush_buf s) @ peek (write_buf s) = concat ls \<and> (log_thread s \<noteq> LogFlushing \<longrightarrow> peek (flush_buf s) = [])"

lemma log_inv_cong:
  "\<lbrakk>log_inv ls s; write_buf s' = write_buf s; flush_buf s' = flush_buf s; log_sink s' = log_sink s; log_thread s' = log_thread s\<rbrakk> \<Longrightarrow> log_inv ls s'"
  by (simp add: log_inv_def)

lemma create_new_file_frame:
  "create_new_file opened tm s = Some s' \<Longrightarrow>
   write_buf s' = write_buf s \<and> flush_buf s' = flush_buf s \<and> log_sink s' = log_sink s \<and> log_thread s' = log_thread s"
  by (auto simp: create_new_file_def Let_def split: if_splits)

lemma open_output_frame:
  "open_output opened tm s = Some s' \<Longrightarrow>
   write_buf s' = write_buf s \<and> flush_buf s' = flush_buf s \<and> log_sink s' = log_sink s \<and> log_thread s' = log_thread s"
  by (auto simp: open_output_def dest: create_new_file_frame split: flush_flags.splits)

lemma readable_0: "buffer_wf b \<Longrightarrow> readable b = 0 \<longleftrightarrow> peek b = []"
  using length_peek [of b] by auto

lemma flush_write_inv:
  assumes "log_inv ls s" and "log_thread s = LogFlushing"
  shows "log_inv ls (flush_write n s)"
proof -
  have "log_thread (flush_write n s) = LogFlushing" "write_buf (flush_write n s) = write_buf s"
    "log_sink (flush_write n s) = log_sink s @ take n (peek (flush_buf s))" "flush_buf (flush_write n s) = retrieve (flush_buf s) n"
    using assms(2) by (auto simp: flush_write_def Let_def split: log_fd.split)
  then show ?thesis using assms(1) by (simp add: log_inv_def retrieve_wf retrieve_peek) (metis append_assoc append_take_drop_id)
qed

lemma round_begin_inv:
  assumes "log_inv ls s" and "log_thread s = LogWaiting"
  shows "log_inv ls (log_round_begin s)"
proof -
  have "peek (flush_buf s) = []" using assms by (simp add: log_inv_def)
  then show ?thesis
    using assms(1) swap_buf_wf [of "write_buf s" "flush_buf s"] swap_buf_peek [of "write_buf s" "flush_buf s"]
    by (auto simp: log_round_begin_def swap_log_def log_inv_def case_prod_beta readable_0 split: prod.splits)
qed

lemma log_reach_inv: "log_reach ls s \<Longrightarrow> log_inv ls s"
proof (induction rule: log_reach.induct)
  case (start opened tm s)
  then show ?case using open_output_frame unfolding logger_new_def by (fastforce simp: log_inv_def buffer_new_wf buffer_new_peek)
next
  case (line ls s l)
  then show ?case by (simp add: log_inv_def log_write_def append_buf_wf append_buf_peek)
next
  case (wake ls s)
  then show ?case by (simp add: round_begin_inv)
next
  case (put ls s n)
  then show ?case by (simp add: flush_write_inv)
next
  case (round_end ls s opened tm s')
  then have "log_inv ls s'" "peek (flush_buf s') = []"
    using create_new_file_frame [of opened tm s s'] by (auto simp: log_inv_def readable_0 roll_file_def split: if_splits)
  then show ?case by (simp add: log_inv_def log_round_end_def)
next
  case (rename ls s opened tm name s')
  then show ?case using create_new_file_frame unfolding set_name_def Let_def by (fastforce intro: log_inv_cong split: if_splits)
next
  case (redirect ls s opened tm w s')
  then have e: "log_inv ls s" "peek (flush_buf s) = []" by (auto simp: log_inv_def)
  obtain s3 s2 where "open_output opened tm s2 = Some s3" "s' = s3\<lparr>log_thread := LogWaiting\<rparr>"
    "write_buf s2 = write_buf s" "flush_buf s2 = flush_buf s" "log_sink s2 = log_sink s"
    using redirect(3) unfolding set_flush_def restart_log_def Let_def by (fastforce split: if_splits)
  with e show ?case using open_output_frame [of opened tm s2 s3] by (simp add: log_inv_def)
next
  case (quit ls s)
  then show ?case by (simp add: log_inv_def quit_log_def)
qed

text \<open>When every \<^verbatim>\<open>write\<close> accepts at least one byte, the loop of \<^verbatim>\<open>flush\<close> ends and everything is written.\<close>

lemma flush_loop_delivers:
  assumes "buffer_wf (flush_buf s)" and "readable (flush_buf s) \<le> length ans" and "list_all (\<lambda>a. \<exists>n > 0. a = Some n) ans"
  shows "\<exists>s'. flush_loop ans s = Some s' \<and> log_sink s' = log_sink s @ peek (flush_buf s) \<and> peek (flush_buf s') = [] \<and> write_buf s' = write_buf s"
  using assms
proof (induction ans arbitrary: s)
  case Nil
  then show ?case by (subst flush_loop.simps) (auto simp: readable_0)
next
  case (Cons a ans)
  then obtain n where a: "a = Some n" "0 < n" by auto
  show ?case
  proof (cases "readable (flush_buf s) = 0")
    case True
    then show ?thesis using Cons.prems(1) by (subst flush_loop.simps) (auto simp: readable_0)
  next
    case False
    let ?s = "flush_write n s"
    have w: "flush_buf ?s = retrieve (flush_buf s) n" "log_sink ?s = log_sink s @ take n (peek (flush_buf s))" "write_buf ?s = write_buf s"
      by (auto simp: flush_write_def Let_def split: log_fd.split)
    have "readable (flush_buf ?s) \<le> length ans"
      using False Cons.prems(2) readable_retrieve_lt [of "flush_buf s" n] a(2) by (simp add: w)
    then obtain s' where "flush_loop ans ?s = Some s'" "log_sink s' = log_sink ?s @ peek (flush_buf ?s)" "peek (flush_buf s') = []" "write_buf s' = write_buf ?s"
      using Cons.IH [of ?s] Cons.prems(1,3) by (auto simp: w retrieve_wf)
    then show ?thesis using False a by (subst flush_loop.simps) (simp add: w retrieve_peek)
  qed
qed

section \<open>Limits and losses\<close>

lemma length_level: "length (get_level_str level) = 7"
  by (cases level) simp_all

text \<open>A line fits into \<^verbatim>\<open>log_output_buf\<close> when the name of the source file, the line number and the thread identifier have 248 characters at most; nothing checks this.\<close>

lemma line_fits:
  assumes "length file_name + length (dec line) + length tid \<le> 248"
  shows "length (format_line level time msg file_name line tid) + 1 \<le> log_output_size"
  using assms by (simp add: format_line_def length_level log_output_size_def)

lemma long_name_overflows:
  "length file_name > 65536 \<Longrightarrow> log_output_size < length (format_line level time msg file_name line tid)"
  by (simp add: format_line_def log_output_size_def)

text \<open>After a failed \<^verbatim>\<open>write\<close> the rest of the flush buffer goes behind newer lines.\<close>

lemma failed_write_reorders:
  assumes "buffer_wf (write_buf s)" and "peek (write_buf s) \<noteq> []"
  shows "peek (flush_buf (swap_log s)) = peek (write_buf s) \<and> peek (write_buf (swap_log s)) = peek (flush_buf s)"
  using assms swap_buf_peek [of "write_buf s" "flush_buf s"]
  by (auto simp: swap_log_def readable_0 case_prod_beta split: prod.splits)

text \<open>A line that is appended before \<^verbatim>\<open>quit\<close>, while the thread is in a round, is never written.\<close>

definition log_start :: "tm \<Rightarrow> logger" where
  "log_start tm = the (logger_new True tm)"

lemma log_start_reach: "log_reach [] (log_start tm)"
  by (rule log_reach.start [of True tm]) (simp add: log_start_def logger_new_def open_output_def create_new_file_def Let_def)

lemmas log_eval = log_start_def logger_new_def open_output_def create_new_file_def log_round_begin_def log_write_def quit_log_def
  log_round_end_def swap_log_def roll_file_def Let_def

lemma line_lost_at_quit: "\<exists>s. log_reach [''x''] s \<and> log_thread s = LogEnded \<and> log_sink s = []"
proof -
  let ?s = "quit_log (log_write ''x'' (log_round_begin (log_start \<lparr>tm_year = 0, tm_mon = 0, tm_mday = 1, tm_hour = 0, tm_min = 0, tm_sec = 0\<rparr>)))"
  have r: "log_reach ([] @ [''x'']) ?s"
    by (intro log_reach.quit log_reach.line log_reach.wake log_start_reach) (simp add: log_eval)
  have "log_reach ([] @ [''x'']) (log_round_end ?s)"
    by (rule log_reach.round_end [OF r, of True undefined]) (simp_all add: log_eval readable_def buffer_new_def)
  moreover have "log_thread (log_round_end ?s) = LogEnded" "log_sink (log_round_end ?s) = []"
    by (simp_all add: log_eval readable_def buffer_new_def)
  ultimately show ?thesis by auto
qed

section \<open>Properties\<close>


text \<open>
  The time of a line is right although the text of the last second is reused: after any earlier calls in the thread, \<^verbatim>\<open>format_time\<close> leaves in its buffer the
  23 characters that formatting all fields of the time anew gives. Years have four digits.
\<close>

theorem format_time_cached:
  assumes "\<And>t. tm_ok (localtime t)" and "list_all (\<lambda>ms. 1000 \<le> ms) calls" and "1000 \<le> ms"
  shows "take 23 (log_time_buf (format_time localtime ms (fold (format_time localtime) calls time_cache_new))) = full_time localtime ms"
  using format_time_step [of localtime, OF assms(1) format_time_fold [of localtime, OF assms(1,2)] assms(3)] by blast

section \<open>Witnesses\<close>

definition sample_tm :: tm where
  "sample_tm = \<lparr>tm_year = 123, tm_mon = 4, tm_mday = 6, tm_hour = 7, tm_min = 8, tm_sec = 9\<rparr>"


theorem format_time_cached_witness:
  "take 23 (log_time_buf (format_time (\<lambda>_. sample_tm) 5007 (fold (format_time (\<lambda>_. sample_tm)) [5001, 5004] time_cache_new))) = full_time (\<lambda>_. sample_tm) 5007"
  by (rule format_time_cached) (simp_all add: tm_ok_def sample_tm_def)

end
