(* ===== verification/Inet.thy ===== *)
theory Inet
  imports Util
begin

text \<open>
  Socket addresses: \<^verbatim>\<open>src/inet_addr.cc\<close> and the conversions of \<^verbatim>\<open>src/sockops.cc\<close>. An address is a port in network byte order and four octets.
  \<^verbatim>\<open>log_fatal\<close> ends the process: \<open>None\<close>.
\<close>

record sockaddr =
  sin_port :: string
  sin_addr :: "nat list"

text \<open>\<^verbatim>\<open>inet_pton(AF_INET)\<close> and \<^verbatim>\<open>inet_ntop\<close> of the C library: four decimal numbers up to 255 without leading zeros.\<close>

definition octet_ok :: "string \<Rightarrow> bool" where
  "octet_ok f \<longleftrightarrow> f \<noteq> [] \<and> list_all isdigit f \<and> digits_val f \<le> 255 \<and> (length f > 1 \<longrightarrow> hd f \<noteq> CHR ''0'')"

definition inet_pton :: "string \<Rightarrow> nat list option" where
  "inet_pton ip = (let fs = split ip CHR ''.'' in if length fs = 4 \<and> list_all octet_ok fs then Some (map digits_val fs) else None)"

definition inet_ntop :: "nat list \<Rightarrow> string" where
  "inet_ntop os = join ''.'' (map dec os)"

definition atoi :: "string \<Rightarrow> int" where
  "atoi s =
     (let s1 = dropWhile isspace s; neg = (s1 \<noteq> [] \<and> hd s1 = CHR ''-''); s2 = (if s1 \<noteq> [] \<and> (hd s1 = CHR ''-'' \<or> hd s1 = CHR ''+'') then tl s1 else s1);
          v = int (digits_val (takeWhile isdigit s2))
      in if neg then - v else v)"

text \<open>\<^verbatim>\<open>htons(port)\<close> keeps the low sixteen bits of the port.\<close>

definition fill_addr :: "string \<Rightarrow> int \<Rightarrow> sockaddr option" where
  "fill_addr ip port = map_option (\<lambda>os. \<lparr>sin_port = be16 (word_of_int port), sin_addr = os\<rparr>) (inet_pton ip)"

definition addr_of_port :: "int \<Rightarrow> sockaddr option" where
  "addr_of_port port = fill_addr ''0.0.0.0'' port"

definition addr_of_host :: "string \<Rightarrow> sockaddr option" where
  "addr_of_host host =
     (if CHR '':'' \<notin> set host then None
      else fill_addr (takeWhile (\<lambda>c. c \<noteq> CHR '':'') host) (atoi (tl (dropWhile (\<lambda>c. c \<noteq> CHR '':'') host))))"

definition to_host_port :: "sockaddr \<Rightarrow> nat" where
  "to_host_port a = unat (rd16 (sin_port a))"

definition to_host_ip :: "sockaddr \<Rightarrow> string" where
  "to_host_ip a = inet_ntop (sin_addr a)"

definition to_host :: "sockaddr \<Rightarrow> string" where
  "to_host a = take 47 (to_host_ip a @ '':'' @ dec (to_host_port a))"

lemma digit_not: "isdigit c \<Longrightarrow> c \<noteq> CHR ''.'' \<and> c \<noteq> CHR '':'' \<and> c \<noteq> CHR ''-'' \<and> c \<noteq> CHR ''+'' \<and> \<not> isspace c"
  by (auto simp: isdigit_def isspace_def)

lemma dec_no_special: "c \<in> set (dec n) \<Longrightarrow> c \<noteq> CHR ''.'' \<and> c \<noteq> CHR '':'' \<and> c \<noteq> CHR ''-'' \<and> c \<noteq> CHR ''+'' \<and> \<not> isspace c"
  using dec_digits [of n] digit_not by (auto simp: list_all_iff)

lemma octet_dec: "n \<le> 255 \<Longrightarrow> octet_ok (dec n)"
  using dec_no_leading_zero [of n] by (auto simp: octet_ok_def dec_digits digit_0)

lemma inet_pton_ntop:
  assumes "length os = 4" and "\<forall>n \<in> set os. n \<le> 255"
  shows "inet_pton (inet_ntop os) = Some os"
proof -
  have "split (inet_ntop os) CHR ''.'' = map dec os"
    unfolding inet_ntop_def by (rule split_join) (use assms(1) dec_no_dot in auto)
  then show ?thesis using assms octet_dec by (auto simp: inet_pton_def list_all_iff comp_def)
qed

lemma atoi_dec: "atoi (dec n) = int n"
proof -
  have h: "dec n \<noteq> [] \<Longrightarrow> hd (dec n) \<in> set (dec n)" by simp
  have "dropWhile isspace (dec n) = dec n" using dec_no_special [of _ n] h by (cases "dec n") auto
  moreover have "takeWhile isdigit (dec n) = dec n" using dec_digits [of n] by (simp add: list_all_iff)
  moreover have "hd (dec n) \<noteq> CHR ''-''" "hd (dec n) \<noteq> CHR ''+''" using dec_no_special [OF h] by simp_all
  ultimately show ?thesis by (simp add: atoi_def Let_def del: takeWhile_eq_all_conv)
qed

lemma ntop_no_colon: "CHR '':'' \<notin> set (inet_ntop os)"
proof -
  have "CHR '':'' \<notin> set (join ''.'' (map dec os))" for os
  proof (induction os)
    case (Cons n os)
    then show ?case using dec_no_special [of "CHR '':''" n] by (cases os) (auto simp: join_Cons)
  qed simp
  then show ?thesis by (simp add: inet_ntop_def)
qed

text \<open>An address written as \<^verbatim>\<open>ip:port\<close> is printed as it was written; ports outside the range of sixteen bits wrap around.\<close>

theorem host_roundtrip:
  assumes "length os = 4" and "\<forall>n \<in> set os. n \<le> 255" and "port < 65536"
  shows "\<exists>a. addr_of_host (inet_ntop os @ '':'' @ dec port) = Some a \<and> to_host_port a = port \<and> to_host_ip a = inet_ntop os"
proof -
  let ?h = "inet_ntop os @ '':'' @ dec port"
  have "takeWhile (\<lambda>c. c \<noteq> CHR '':'') ?h = inet_ntop os" "dropWhile (\<lambda>c. c \<noteq> CHR '':'') ?h = CHR '':'' # dec port"
    using ntop_no_colon [of os] by (auto intro!: takeWhile_append_stop dropWhile_append_stop)
  moreover have "unat (word_of_int (int port) :: u16) = port" using assms(3) by (simp add: unat_of_nat take_bit_eq_mod)
  moreover have "rd16 (be16 w) = w" for w using rd16_be16 [of w "[]"] by simp
  ultimately show ?thesis
    using inet_pton_ntop [OF assms(1,2)]
    by (simp add: addr_of_host_def fill_addr_def atoi_dec to_host_port_def to_host_ip_def)
qed

end
