(* ===== verification/SslConnection.thy ===== *)
theory SslConnection
  imports Connection Util
begin

text \<open>
  Connections over TLS (\<^verbatim>\<open>src/ssl/ssl_connection.cc\<close>, \<^verbatim>\<open>src/ssl/ssl_filter.cc\<close>): \<^verbatim>\<open>ssl_connection\<close> overrides the functions of \<^verbatim>\<open>connection\<close> that write, send a file and
  handle received bytes. The operations of \<^verbatim>\<open>connection\<close> are given here with these virtual functions as arguments.

  OpenSSL is outside of the sources. The answers of \<^verbatim>\<open>SSL_write\<close> and \<^verbatim>\<open>SSL_get_error\<close> are arguments; the reading side is a pair of functions, and \<open>tls_session\<close> states what their
  documentation promises. \<open>wire\<close> is what was handed to \<^verbatim>\<open>SSL_write\<close> successfully.
\<close>

section \<open>Writing\<close>

datatype ssl_error = WantRead | WantWrite | OtherError nat

type_synonym ssl_answer = "int \<times> ssl_error"

text \<open>\<^verbatim>\<open>SSL_write\<close> takes at most what it is given; without data it fails.\<close>

definition ssl_write :: "ssl_answer \<Rightarrow> string \<Rightarrow> 'h conn \<Rightarrow> 'h conn \<times> int" where
  "ssl_write a data c =
     (let n = min (fst a) (int (length data))
      in if n \<le> 0 then
           case snd a of
             WantRead \<Rightarrow> (c, -1)
           | WantWrite \<Rightarrow> (c, -1)
           | OtherError e \<Rightarrow> (force_close_connection c, -2)
         else (c\<lparr>wire := wire c @ map Byte (take (nat n) data)\<rparr>, n))"

definition ChunkSize :: nat where
  "ChunkSize = 1024 * 32"

text \<open>
  \<^verbatim>\<open>mmap\<close>: the offset is a multiple of the size of a page. The last page of the file is filled up with zeros; an access beyond it, or the use of a failed mapping, ends the process
  (\<open>None\<close>).
\<close>

definition mmap_file :: "nat \<Rightarrow> string \<Rightarrow> nat \<Rightarrow> int \<Rightarrow> string option" where
  "mmap_file pagesize bytes len off =
     (if len = 0 \<or> off < 0 \<or> nat off mod pagesize \<noteq> 0 then None
      else
        let room = (length bytes + pagesize - 1) div pagesize * pagesize
        in if nat off + len \<le> room then Some (take len (drop (nat off) (bytes @ replicate (room - length bytes) NUL))) else None)"

definition ssl_sendfile :: "nat \<Rightarrow> (nat \<Rightarrow> string) \<Rightarrow> ssl_answer \<Rightarrow> out_file \<Rightarrow> 'h conn \<Rightarrow> ('h conn \<times> int) option" where
  "ssl_sendfile pagesize content a f c =
     (let fix_off = page_aligned (int pagesize) (int (offset f));
          diff = nat (int (offset f) - fix_off);
          len = min ChunkSize (count f) + diff
      in case mmap_file pagesize (content (ffd f)) len fix_off of
           None \<Rightarrow> None
         | Some start \<Rightarrow> Some (ssl_write a (take (len - diff) (drop diff start)) c))"

section \<open>The operations of a connection with its virtual functions\<close>

type_synonym 'h write_fun = "string \<Rightarrow> 'h conn \<Rightarrow> 'h conn \<times> int"
type_synonym 'h sendfile_fun = "out_file \<Rightarrow> 'h conn \<Rightarrow> ('h conn \<times> int) option"

definition v_send_in_loop :: "'h write_fun \<Rightarrow> char \<Rightarrow> string \<Rightarrow> 'h conn \<Rightarrow> 'h conn" where
  "v_send_in_loop write prev data c =
     (if state c = Closed then c
      else
        let (c1, n) = (if \<not> writing c \<and> send_queue_is_empty c then write data c else (c, 0));
            len = (if n > 0 then length data - nat n else length data)
        in if n = -2 then c1
           else if len > 0 then
             let c2 = c1\<lparr>output_buf := append_buf (output_buf c1) (bytes_at prev data n len),
                         byte_stream_queue := byte_stream_queue c1 @ [(send_id c1, len)],
                         send_id := send_id c1 + 1, writing := True\<rparr>
             in if high_water_mark c2 > 0 \<and> readable (output_buf c2) \<ge> high_water_mark c2
                then c2\<lparr>high_water_calls := high_water_calls c2 + 1\<rparr> else c2
           else c1)"

definition v_send_file_in_loop :: "'h sendfile_fun \<Rightarrow> out_file \<Rightarrow> 'h conn \<Rightarrow> 'h conn option" where
  "v_send_file_in_loop sendfile f c =
     (if state c = Closed then Some c
      else
        map_option (\<lambda>(c1, n).
          let f1 = (if n > 0 then f\<lparr>offset := offset f + nat n, count := count f - nat n\<rparr> else f)
          in if n = -2 then c1
             else if count f1 > 0 then
               c1\<lparr>send_file_queue := send_file_queue c1 @ [(send_id c1, f1)],
                  send_id := send_id c1 + 1, writing := True\<rparr>
             else c1)
          (if \<not> writing c \<and> send_queue_is_empty c then sendfile f c else Some (c, 0)))"

definition v_write_bytes :: "'h write_fun \<Rightarrow> 'h conn \<Rightarrow> 'h conn \<times> bool" where
  "v_write_bytes write c =
     (case byte_stream_queue c of
        [] \<Rightarrow> (c, False)
      | (i, len) # q \<Rightarrow>
          if i \<noteq> next_id c then (c, False)
          else
            let (c1, n) = write (take len (peek (output_buf c))) c
            in if n > 0 then
                 let c2 = c1\<lparr>output_buf := retrieve (output_buf c1) (nat n)\<rparr>
                 in (if len - nat n = 0
                     then c2\<lparr>byte_stream_queue := q, next_id := next_id c2 + 1\<rparr>
                     else c2\<lparr>byte_stream_queue := (i, len - nat n) # q\<rparr>, False)
               else (c1, n = -2))"

definition v_write_file_part :: "'h sendfile_fun \<Rightarrow> 'h conn \<Rightarrow> ('h conn \<times> bool) option" where
  "v_write_file_part sendfile c =
     (case send_file_queue c of
        [] \<Rightarrow> Some (c, False)
      | (i, f) # q \<Rightarrow>
          if i \<noteq> next_id c then Some (c, False)
          else
            map_option (\<lambda>(c1, n).
              if n > 0 then
                let f1 = f\<lparr>offset := offset f + nat n, count := count f - nat n\<rparr>
                in (if count f1 = 0
                    then c1\<lparr>send_file_queue := q, next_id := next_id c1 + 1\<rparr>
                    else c1\<lparr>send_file_queue := (i, f1) # q\<rparr>, False)
              else (c1, n = -2))
              (sendfile f c))"

definition v_handle_write ::
  "('h \<Rightarrow> 'h conn \<Rightarrow> 'h conn) \<Rightarrow> 'h write_fun \<Rightarrow> 'h sendfile_fun \<Rightarrow> 'h conn \<Rightarrow> 'h conn option" where
  "v_handle_write call write sendfile c =
     (if state c = Closed \<or> \<not> writing c then Some c
      else
        let (c1, ret1) = v_write_bytes write c
        in if ret1 then Some c1
           else map_option (\<lambda>(c2, ret2). if ret2 then c2 else write_finish (call_complete call c2)) (v_write_file_part sendfile c1))"

text \<open>With the functions of \<^verbatim>\<open>connection\<close> itself these are the operations of the theory Connection.\<close>

lemma v_plain:
  "v_send_in_loop (conn_write r) prev data c = send_in_loop prev r data c"
  "v_send_file_in_loop (\<lambda>f c. Some (conn_sendfile content r f c)) f c = Some (send_file_in_loop content r f c)"
  "v_write_bytes (conn_write r) c = write_bytes r c"
  "v_write_file_part (\<lambda>f c. Some (conn_sendfile content r f c)) c = Some (write_file_part content r c)"
  "v_handle_write call (conn_write r1) (\<lambda>f c. Some (conn_sendfile content r2 f c)) c = Some (handle_write content call r1 r2 c)"
proof -
  show w: "v_write_bytes (conn_write r) c = write_bytes r c" for r and c :: "'h conn"
    by (simp add: v_write_bytes_def write_bytes_def)
  show f: "v_write_file_part (\<lambda>f c. Some (conn_sendfile content r f c)) c = Some (write_file_part content r c)" for r and c :: "'h conn"
    by (simp add: v_write_file_part_def write_file_part_def Let_def split: list.split prod.split)
  show "v_send_in_loop (conn_write r) prev data c = send_in_loop prev r data c"
    by (simp add: v_send_in_loop_def send_in_loop_def)
  show "v_send_file_in_loop (\<lambda>f c. Some (conn_sendfile content r f c)) f c = Some (send_file_in_loop content r f c)"
    by (cases "conn_sendfile content r f c") (simp add: v_send_file_in_loop_def send_file_in_loop_def Let_def)
  show "v_handle_write call (conn_write r1) (\<lambda>f c. Some (conn_sendfile content r2 f c)) c = Some (handle_write content call r1 r2 c)"
    by (simp add: v_handle_write_def handle_write_def w f Let_def split: prod.split)
qed

section \<open>TLS writes are writes\<close>

text \<open>The answer of a plain \<^verbatim>\<open>write\<close> that has the effect of the answer of \<^verbatim>\<open>SSL_write\<close>.\<close>

definition sys_of :: "ssl_answer \<Rightarrow> nat \<Rightarrow> sys" where
  "sys_of a len =
     (let n = min (fst a) (int len)
      in if n \<le> 0 then (case snd a of OtherError e \<Rightarrow> Failed | _ \<Rightarrow> Again) else Done (nat n))"

lemma ssl_write_plain:
  assumes "state c \<noteq> Closed"
  shows "ssl_write a data c = conn_write (sys_of a (length data)) data c"
  using assms by (auto simp: ssl_write_def sys_of_def conn_write_cases force_close_connection_def Let_def split: ssl_error.split)

lemma mmap_part:
  assumes "0 < pagesize" and "0 < count f" and "offset f + count f \<le> length bytes"
  shows "\<exists>start. mmap_file pagesize bytes (min ChunkSize (count f) + nat (int (offset f) - page_aligned (int pagesize) (int (offset f))))
      (page_aligned (int pagesize) (int (offset f))) = Some start \<and>
    take (min ChunkSize (count f)) (drop (nat (int (offset f) - page_aligned (int pagesize) (int (offset f)))) start) =
    take (min ChunkSize (count f)) (drop (offset f) bytes)"
proof -
  define off where "off = page_aligned (int pagesize) (int (offset f))"
  have dvd: "int pagesize dvd off" and le: "off \<le> int (offset f)"
    using page_aligned_bounds [of "int (offset f)" "int pagesize"] assms(1) unfolding off_def by simp_all
  have nn: "0 \<le> off" by (simp add: off_def page_aligned_def sgn_if flip: zdiv_int)
  have m: "nat off mod pagesize = 0" using dvd nn by (auto simp: nat_dvd_iff int_dvd_int_iff [symmetric] simp flip: dvd_eq_mod_eq_0)
  define room where "room = (length bytes + pagesize - 1) div pagesize * pagesize"
  have "length bytes \<le> room"
  proof -
    have "length bytes + pagesize - 1 = room + (length bytes + pagesize - 1) mod pagesize" by (simp add: room_def)
    moreover have "(length bytes + pagesize - 1) mod pagesize \<le> pagesize - 1" using mod_less_divisor [OF assms(1), of "length bytes + pagesize - 1"] by linarith
    ultimately show ?thesis using assms(1) by linarith
  qed
  define len where "len = min ChunkSize (count f)"
  have len: "0 < len" "len \<le> count f" using assms(2) by (auto simp: len_def ChunkSize_def)
  define diff where "diff = nat (int (offset f) - off)"
  have d: "nat off + diff = offset f" using le nn by (simp add: diff_def)
  then have fits: "nat off + (len + diff) \<le> length bytes" using len(2) assms(3) by linarith
  then have "nat off + (len + diff) \<le> room" using \<open>length bytes \<le> room\<close> by linarith
  then have "mmap_file pagesize bytes (len + diff) off = Some (take (len + diff) (drop (nat off) (bytes @ replicate (room - length bytes) NUL)))"
    unfolding mmap_file_def Let_def room_def [symmetric] using len(1) nn m by simp
  moreover have "take len (drop diff (take (len + diff) (drop (nat off) (bytes @ xs)))) = take len (drop (offset f) bytes)" for xs
    using fits d by (simp add: drop_take add.commute)
  ultimately show ?thesis unfolding off_def [symmetric] len_def [symmetric] diff_def [symmetric] by blast
qed

definition file_ok :: "(nat \<Rightarrow> string) \<Rightarrow> out_file \<Rightarrow> bool" where
  "file_ok content f \<longleftrightarrow> 0 < count f \<and> offset f + count f \<le> length (content (ffd f))"

lemma ssl_sendfile_plain:
  assumes "state c \<noteq> Closed" and "0 < pagesize" and "file_ok content f"
  shows "ssl_sendfile pagesize content a f c = Some (conn_sendfile content (sys_of a (min ChunkSize (count f))) f c)"
proof -
  let ?k = "min ChunkSize (count f)"
  let ?part = "take ?k (drop (offset f) (content (ffd f)))"
  have "ssl_sendfile pagesize content a f c = Some (ssl_write a ?part c)"
    using mmap_part [OF assms(2), of f "content (ffd f)"] assms(3) by (auto simp: ssl_sendfile_def file_ok_def Let_def)
  moreover have len: "length ?part = ?k" using assms(3) by (auto simp: file_ok_def min_def)
  moreover have "conn_write (sys_of a ?k) ?part c = conn_sendfile content (sys_of a ?k) f c"
  proof (cases "sys_of a ?k")
    case (Done n)
    then have "n \<le> ?k" by (auto simp: sys_of_def Let_def split: if_splits ssl_error.splits)
    then have "min n ?k = n" "min n (count f) = n" by simp_all
    then have "take n ?part = take n (file_bytes content f)" by (simp only: file_bytes_def take_take)
    then show ?thesis by (simp add: Done conn_sendfile_def conn_write_Done del: take_take)
  qed (simp_all add: conn_sendfile_def conn_write_cases assms(1))
  ultimately show ?thesis using ssl_write_plain [OF assms(1), of a ?part] by (simp only: len)
qed

section \<open>Sequences of calls\<close>

text \<open>As \<open>conn_op\<close>, with answers of OpenSSL. Reading is treated below; here the received bytes are dropped.\<close>

datatype 'h ssl_op =
    SslSend char ssl_answer string | SslSendFile ssl_answer out_file | SslWritable ssl_answer ssl_answer | Other "'h conn_op"

fun ssl_exec :: "nat \<Rightarrow> (nat \<Rightarrow> string) \<Rightarrow> int \<times> 'h ssl_op \<Rightarrow> 'h conn \<Rightarrow> 'h conn option" where
  "ssl_exec ps content (now, SslSend prev a data) c = Some (update_ttl_timer now (v_send_in_loop (ssl_write a) prev data c))"
| "ssl_exec ps content (now, SslSendFile a f) c = map_option (update_ttl_timer now) (v_send_file_in_loop (ssl_sendfile ps content a) f c)"
| "ssl_exec ps content (now, SslWritable a1 a2) c = v_handle_write (\<lambda>_ c. c) (ssl_write a1) (ssl_sendfile ps content a2) c"
| "ssl_exec ps content (now, Other op) c = Some (conn_exec content (now, op) c)"

fun ssl_run :: "nat \<Rightarrow> (nat \<Rightarrow> string) \<Rightarrow> (int \<times> 'h ssl_op) list \<Rightarrow> 'h conn \<Rightarrow> 'h conn option" where
  "ssl_run ps content [] c = Some c"
| "ssl_run ps content (op # ops) c = Option.bind (ssl_exec ps content op c) (ssl_run ps content ops)"

fun ssl_submitted :: "(nat \<Rightarrow> string) \<Rightarrow> int \<times> 'h ssl_op \<Rightarrow> 'h event list" where
  "ssl_submitted content (now, SslSend prev a data) = map Byte data"
| "ssl_submitted content (now, SslSendFile a f) = map Byte (file_bytes content f)"
| "ssl_submitted content (now, SslWritable a1 a2) = []"
| "ssl_submitted content (now, Other op) = submitted content (now, op)"

text \<open>
  The direct write of a send does not ask to try again (see \<open>send_eagain_shifts\<close>), the parts of files exist and are not empty, and the other operations are those that write nothing.
\<close>

fun ssl_op_ok :: "(nat \<Rightarrow> string) \<Rightarrow> 'h ssl_op \<Rightarrow> bool" where
  "ssl_op_ok content (SslSend prev a data) \<longleftrightarrow> sys_of a (length data) \<noteq> Again"
| "ssl_op_ok content (SslSendFile a f) \<longleftrightarrow> file_ok content f"
| "ssl_op_ok content (SslWritable a1 a2) \<longleftrightarrow> True"
| "ssl_op_ok content (Other op) \<longleftrightarrow> (case op of Send _ _ _ \<Rightarrow> False | SendFile _ _ \<Rightarrow> False | Writable _ _ \<Rightarrow> False | _ \<Rightarrow> True)"

definition files_ok :: "(nat \<Rightarrow> string) \<Rightarrow> 'h conn \<Rightarrow> bool" where
  "files_ok content c \<longleftrightarrow> (\<forall>(i, f) \<in> set (send_file_queue c). file_ok content f)"

lemma send_file_queue_kept [simp]:
  "send_file_queue (handle_close b c) = send_file_queue c"
  "send_file_queue (force_close_connection c) = send_file_queue c"
  "send_file_queue (fst (conn_write r data c)) = send_file_queue c"
  "send_file_queue (fst (conn_sendfile content r f c)) = send_file_queue c"
  "send_file_queue (set_ttl_timer now c) = send_file_queue c"
  "send_file_queue (update_ttl_timer now c) = send_file_queue c"
  "send_file_queue (write_finish c) = send_file_queue c"
  "send_file_queue (call_complete (\<lambda>_ c. c) c) = send_file_queue c"
  by (auto simp: handle_close_def force_close_connection_def conn_write_def conn_sendfile_def write_result_def handle_error_def set_ttl_timer_def update_ttl_timer_def
      write_finish_def call_complete_def Let_def split: sys.split prod.split list.split)

lemma conn_write_files: "conn_write r data c = (c1, n) \<Longrightarrow> send_file_queue c1 = send_file_queue c"
  by (metis fst_conv send_file_queue_kept(3))

lemma send_in_loop_files [simp]: "send_file_queue (send_in_loop prev r data c) = send_file_queue c"
proof (cases "\<not> writing c \<and> send_queue_is_empty c")
  case True
  obtain c1 n where e: "conn_write r data c = (c1, n)" by fastforce
  then show ?thesis using True conn_write_files [OF e] by (simp add: send_in_loop_def Let_def)
next
  case False
  then show ?thesis unfolding send_in_loop_def if_not_P [OF False] by (simp add: Let_def)
qed

lemma write_bytes_files [simp]: "send_file_queue (fst (write_bytes r c)) = send_file_queue c"
  by (auto simp: write_bytes_def Let_def dest: conn_write_files split: list.split prod.split)

lemma conn_sendfile_bound: "conn_sendfile content r f c = (c1, n) \<Longrightarrow> 0 < n \<Longrightarrow> nat n \<le> count f"
  by (auto simp: conn_sendfile_def conn_write_def write_result_def file_bytes_def Let_def split: sys.splits if_splits)

lemma file_ok_rest: "file_ok content f \<Longrightarrow> n \<le> count f \<Longrightarrow> count f - n > 0 \<Longrightarrow> file_ok content (f\<lparr>offset := offset f + n, count := count f - n\<rparr>)"
  by (simp add: file_ok_def)

lemma send_file_in_loop_files:
  assumes "files_ok content c" and "file_ok content f"
  shows "files_ok content (send_file_in_loop content r f c)"
proof (cases "\<not> writing c \<and> send_queue_is_empty c")
  case True
  obtain c1 n where e: "conn_sendfile content r f c = (c1, n)" by fastforce
  have q: "send_file_queue c1 = send_file_queue c" using e by (metis fst_conv send_file_queue_kept(4))
  show ?thesis using True assms q file_ok_rest [OF assms(2), of "nat n"] conn_sendfile_bound [OF e]
    by (auto simp: send_file_in_loop_def files_ok_def e Let_def)
next
  case False
  then show ?thesis using assms unfolding send_file_in_loop_def if_not_P [OF False] by (auto simp: files_ok_def Let_def)
qed

lemma write_file_part_files:
  assumes "files_ok content c"
  shows "files_ok content (fst (write_file_part content r c))"
proof (cases "send_file_queue c")
  case Nil
  then show ?thesis using assms by (simp add: write_file_part_def)
next
  case (Cons x q)
  obtain i f where x: "x = (i, f)" by fastforce
  obtain c1 n where e: "conn_sendfile content r f c = (c1, n)" by fastforce
  have fq: "send_file_queue c1 = send_file_queue c" using e by (metis fst_conv send_file_queue_kept(4))
  have "file_ok content f" using assms Cons x by (simp add: files_ok_def)
  then show ?thesis using assms Cons x fq file_ok_rest [of content f "nat n"] conn_sendfile_bound [OF e]
    by (auto simp: write_file_part_def files_ok_def e Let_def)
qed

lemma handle_write_files:
  assumes "files_ok content c"
  shows "files_ok content (handle_write content (\<lambda>_ c. c) r1 r2 c)"
proof -
  obtain c1 b1 where e1: "write_bytes r1 c = (c1, b1)" by fastforce
  obtain c2 b2 where e2: "write_file_part content r2 c1 = (c2, b2)" by fastforce
  have c1: "files_ok content c1" using assms write_bytes_files [of r1 c] by (simp add: files_ok_def e1)
  then have "files_ok content c2" using write_file_part_files [of content c1 r2] by (simp add: e2)
  with c1 assms show ?thesis by (simp add: handle_write_def e1 e2 files_ok_def)
qed

section \<open>Every TLS operation is an operation of a plain connection\<close>

lemma write_bytes_open: "\<not> snd (write_bytes r c) \<Longrightarrow> state c \<noteq> Closed \<Longrightarrow> state (fst (write_bytes r c)) \<noteq> Closed"
  by (cases r) (auto simp: write_bytes_def conn_write_cases Let_def split: list.splits prod.splits if_splits)

lemma v_write_bytes_plain:
  assumes "state c \<noteq> Closed"
  shows "\<exists>r. v_write_bytes (ssl_write a) c = write_bytes r c"
proof (cases "byte_stream_queue c")
  case (Cons x q)
  obtain i len where x: "x = (i, len)" by fastforce
  show ?thesis
    by (rule exI [of _ "sys_of a (length (take len (peek (output_buf c))))"])
      (simp only: v_write_bytes_def write_bytes_def Cons x list.case prod.case ssl_write_plain [OF assms])
qed (simp add: v_write_bytes_def write_bytes_def)

lemma v_write_file_part_plain:
  assumes "state c \<noteq> Closed" and "0 < ps" and "files_ok content c"
  shows "\<exists>r. v_write_file_part (ssl_sendfile ps content a) c = Some (write_file_part content r c)"
proof (cases "send_file_queue c")
  case (Cons x q)
  obtain i f where x: "x = (i, f)" by fastforce
  have "file_ok content f" using assms(3) Cons x by (simp add: files_ok_def)
  note eq = ssl_sendfile_plain [OF assms(1,2) this, of a]
  let ?r = "sys_of a (min ChunkSize (count f))"
  have "v_write_file_part (ssl_sendfile ps content a) c = v_write_file_part (\<lambda>f c. Some (conn_sendfile content ?r f c)) c"
    unfolding v_write_file_part_def Cons x by (simp add: eq)
  then show ?thesis unfolding v_plain by blast
qed (simp add: v_write_file_part_def write_file_part_def)

lemma v_handle_write_plain:
  assumes "0 < ps" and "files_ok content c"
  shows "\<exists>r1 r2. v_handle_write call (ssl_write a1) (ssl_sendfile ps content a2) c = Some (handle_write content call r1 r2 c)"
proof (cases "state c = Closed \<or> \<not> writing c")
  case False
  then obtain r1 where r1: "v_write_bytes (ssl_write a1) c = write_bytes r1 c" using v_write_bytes_plain by blast
  obtain c1 b1 where e1: "write_bytes r1 c = (c1, b1)" by fastforce
  show ?thesis
  proof (cases b1)
    case True
    then show ?thesis using False by (auto simp: v_handle_write_def handle_write_def r1 e1 Let_def intro!: exI [of _ r1])
  next
    case b1: False
    have "state c1 \<noteq> Closed" using write_bytes_open [of r1 c] b1 False e1 by simp
    moreover have "files_ok content c1" using assms(2) write_bytes_files [of r1 c] by (simp add: files_ok_def e1)
    ultimately obtain r2 where r2: "v_write_file_part (ssl_sendfile ps content a2) c1 = Some (write_file_part content r2 c1)"
      using v_write_file_part_plain assms(1) by blast
    have "v_handle_write call (ssl_write a1) (ssl_sendfile ps content a2) c = Some (handle_write content call r1 r2 c)"
      using False b1 by (simp add: v_handle_write_def handle_write_def r1 e1 r2 Let_def split: prod.split)
    then show ?thesis by blast
  qed
qed (simp add: v_handle_write_def handle_write_def)

lemma v_send_in_loop_plain:
  "v_send_in_loop (ssl_write a) prev data c = send_in_loop prev (sys_of a (length data)) data c"
  by (cases "state c = Closed") (simp_all add: v_send_in_loop_def send_in_loop_def ssl_write_plain)

lemma v_send_file_in_loop_plain:
  assumes "0 < ps" and "file_ok content f"
  shows "v_send_file_in_loop (ssl_sendfile ps content a) f c = Some (send_file_in_loop content (sys_of a (min ChunkSize (count f))) f c)"
proof (cases "state c = Closed")
  case False
  show ?thesis unfolding v_plain(2) [symmetric] v_send_file_in_loop_def ssl_sendfile_plain [OF False assms] ..
qed (simp add: v_send_file_in_loop_def send_file_in_loop_def)

lemma ssl_exec_plain:
  assumes "0 < ps" and "files_ok content c" and "ssl_op_ok content (snd op)"
  shows "\<exists>op'. ssl_exec ps content op c = Some (conn_exec content op' c) \<and> no_eagain (snd op') \<and>
    submitted content op' = ssl_submitted content op \<and> files_ok content (conn_exec content op' c)"
proof -
  obtain now sop where op: "op = (now, sop)" by fastforce
  show ?thesis
  proof (cases sop)
    case (SslSend prev a data)
    then show ?thesis using assms
      by (intro exI [of _ "(now, Send prev (sys_of a (length data)) data)"]) (simp add: op v_send_in_loop_plain send_def files_ok_def)
  next
    case (SslSendFile a f)
    then show ?thesis using assms send_file_in_loop_files [OF assms(2), of f]
      by (intro exI [of _ "(now, SendFile (sys_of a (min ChunkSize (count f))) f)"])
        (simp add: op v_send_file_in_loop_plain send_file_def files_ok_def)
  next
    case (SslWritable a1 a2)
    obtain r1 r2 where "v_handle_write (\<lambda>_ c. c) (ssl_write a1) (ssl_sendfile ps content a2) c = Some (handle_write content (\<lambda>_ c. c) r1 r2 c)"
      using v_handle_write_plain [OF assms(1,2)] by blast
    then show ?thesis using SslWritable handle_write_files [OF assms(2)] by (intro exI [of _ "(now, Writable r1 r2)"]) (simp add: op)
  next
    case (Other cop)
    then show ?thesis using assms
      by (intro exI [of _ "(now, cop)"], cases cop)
        (auto simp: op files_ok_def set_send_complete_handler_def handle_read_def close_def set_ttl_def handle_error_def Let_def split: sum.split)
  qed
qed


definition sample_ssl_ops :: "(int \<times> nat ssl_op) list" where
  "sample_ssl_ops = [(0, SslSend CHR 0x20 (2, WantWrite) ''hello''), (1, SslSendFile (0, WantWrite) \<lparr>ffd = 3, offset = 5, count = 4\<rparr>), (2, Other (SetComplete 7)),
     (3, SslWritable (3, WantWrite) (2, WantRead)), (4, SslWritable (-1, WantRead) (-1, OtherError 1))]"


section \<open>Reading\<close>

text \<open>
  \<open>ssl_read k s\<close> gives at most \<open>k\<close> bytes and the session afterwards, no bytes standing for a result that is not positive; \<open>bio_write\<close> gives the number of bytes taken. The error code of
  \<^verbatim>\<open>SSL_read\<close> is only logged.
\<close>

type_synonym 'ssl ssl_read = "nat \<Rightarrow> 'ssl \<Rightarrow> string \<times> 'ssl"
type_synonym 'ssl bio_write = "string \<Rightarrow> 'ssl \<Rightarrow> nat \<times> 'ssl"

record 'ssl ssl_reader =
  rd_input :: buffer
  session :: 'ssl
  decrypted :: buffer
  consumed :: string
  message_calls :: nat

definition filter_buf_size :: nat where
  "filter_buf_size = 1024"

partial_function (option) decrypt_loop :: "'ssl ssl_read \<Rightarrow> 'ssl \<Rightarrow> buffer \<Rightarrow> ('ssl \<times> buffer) option" where
  "decrypt_loop ssl_read s d =
     (case ssl_read filter_buf_size s of (bs, s') \<Rightarrow> if bs \<noteq> [] then decrypt_loop ssl_read s' (append_buf d bs) else Some (s', d))"

definition decrypt :: "'ssl ssl_read \<Rightarrow> 'ssl bio_write \<Rightarrow> buffer \<Rightarrow> 'ssl \<Rightarrow> buffer \<Rightarrow> (buffer \<times> 'ssl \<times> buffer) option" where
  "decrypt ssl_read bio_write input s d =
     (let (input1, s1) = (if readable input > 0 then (case bio_write (peek input) s of (n, s1) \<Rightarrow> (if n > 0 then retrieve input n else input, s1)) else (input, s))
      in map_option (\<lambda>(s2, d2). (input1, s2, d2)) (decrypt_loop ssl_read s1 d))"

text \<open>\<open>take_bytes\<close>: how many of the bytes in the buffer the message handler of the user takes.\<close>

definition ssl_handle_message :: "'ssl ssl_read \<Rightarrow> 'ssl bio_write \<Rightarrow> (string \<Rightarrow> nat) \<Rightarrow> 'ssl ssl_reader \<Rightarrow> 'ssl ssl_reader option" where
  "ssl_handle_message ssl_read bio_write take_bytes r =
     map_option (\<lambda>(input, s, d).
       let r1 = r\<lparr>rd_input := input, session := s, decrypted := d\<rparr>
       in if readable d > 0 then
            r1\<lparr>decrypted := retrieve d (take_bytes (peek d)), consumed := consumed r1 @ take (take_bytes (peek d)) (peek d), message_calls := message_calls r1 + 1\<rparr>
          else r1)
       (decrypt ssl_read bio_write (rd_input r) (session r) (decrypted r))"

definition ssl_receive :: "'ssl ssl_read \<Rightarrow> 'ssl bio_write \<Rightarrow> (string \<Rightarrow> nat) \<Rightarrow> string \<Rightarrow> 'ssl ssl_reader \<Rightarrow> 'ssl ssl_reader option" where
  "ssl_receive ssl_read bio_write take_bytes bs r =
     (if bs = [] then Some r
      else ssl_handle_message ssl_read bio_write take_bytes (r\<lparr>rd_input := fst (read_fd (rd_input r) (Some bs))\<rparr>))"

fun ssl_receive_all :: "'ssl ssl_read \<Rightarrow> 'ssl bio_write \<Rightarrow> (string \<Rightarrow> nat) \<Rightarrow> string list \<Rightarrow> 'ssl ssl_reader \<Rightarrow> 'ssl ssl_reader option" where
  "ssl_receive_all rd bw tk [] r = Some r"
| "ssl_receive_all rd bw tk (bs # bss) r = Option.bind (ssl_receive rd bw tk bs r) (ssl_receive_all rd bw tk bss)"

definition reader_new :: "'ssl \<Rightarrow> 'ssl ssl_reader" where
  "reader_new s = \<lparr>rd_input = buffer_new init_size, session = s, decrypted = buffer_new init_size, consumed = [], message_calls = 0\<rparr>"

text \<open>
  What OpenSSL documents of a session over memory BIOs: \<open>received\<close> is the encrypted stream written to the BIO and \<open>taken\<close> the number of plain bytes read so far; \<open>plain\<close> gives the
  contents of the complete records of an encrypted stream. A write to a memory BIO takes everything; a read gives the next bytes of the contents, and gives none only if there are none.
\<close>

definition tls_session :: "(string \<Rightarrow> string) \<Rightarrow> ('ssl \<Rightarrow> string) \<Rightarrow> ('ssl \<Rightarrow> nat) \<Rightarrow> 'ssl ssl_read \<Rightarrow> 'ssl bio_write \<Rightarrow> bool" where
  "tls_session plain received taken ssl_read bio_write \<longleftrightarrow>
     (\<forall>x y. prefix (plain x) (plain (x @ y))) \<and>
     (\<forall>bs s. fst (bio_write bs s) = length bs \<and> received (snd (bio_write bs s)) = received s @ bs \<and> taken (snd (bio_write bs s)) = taken s) \<and>
     (\<forall>k s. let (bs, s') = ssl_read k s; rest = drop (taken s) (plain (received s))
        in prefix bs rest \<and> length bs \<le> k \<and> (0 < k \<longrightarrow> rest \<noteq> [] \<longrightarrow> bs \<noteq> []) \<and> received s' = received s \<and> taken s' = taken s + length bs)"

lemma tls_session_read:
  assumes "tls_session plain received taken rd bw" and "rd k s = (bs, s')" and "0 < k"
  shows "prefix bs (drop (taken s) (plain (received s)))" and "drop (taken s) (plain (received s)) \<noteq> [] \<longrightarrow> bs \<noteq> []"
    and "received s' = received s" and "taken s' = taken s + length bs"
proof -
  have "let (bs, s') = rd k s; rest = drop (taken s) (plain (received s))
        in prefix bs rest \<and> length bs \<le> k \<and> (0 < k \<longrightarrow> rest \<noteq> [] \<longrightarrow> bs \<noteq> []) \<and> received s' = received s \<and> taken s' = taken s + length bs"
    using assms(1) unfolding tls_session_def by blast
  with assms(2,3) show "prefix bs (drop (taken s) (plain (received s)))" and "drop (taken s) (plain (received s)) \<noteq> [] \<longrightarrow> bs \<noteq> []"
    and "received s' = received s" and "taken s' = taken s + length bs"
    by (simp_all add: Let_def)
qed

lemma decrypt_loop_reads:
  assumes "tls_session plain received taken rd bw" and "buffer_wf d"
  shows "\<exists>s' d'. decrypt_loop rd s d = Some (s', d') \<and> buffer_wf d' \<and> peek d' = peek d @ drop (taken s) (plain (received s)) \<and>
    received s' = received s \<and> taken s' = max (taken s) (length (plain (received s)))"
  using assms(2)
proof (induction "length (drop (taken s) (plain (received s)))" arbitrary: s d rule: less_induct)
  case less
  obtain bs s1 where e: "rd filter_buf_size s = (bs, s1)" by fastforce
  note r = tls_session_read [OF assms(1) e, simplified filter_buf_size_def, OF zero_less_numeral]
  show ?case
  proof (cases "bs = []")
    case True
    then show ?thesis using r less.prems by (subst decrypt_loop.simps) (auto simp: e)
  next
    case False
    obtain rest where rest: "drop (taken s) (plain (received s)) = bs @ rest" using r(1) by (auto simp: prefix_def)
    then have tail: "drop (taken s1) (plain (received s1)) = rest" using r(3,4) by (metis add.commute append_eq_conv_conj drop_drop)
    then have "length (drop (taken s1) (plain (received s1))) < length (drop (taken s) (plain (received s)))" using rest False by simp
    from less.hyps [OF this append_buf_wf [OF less.prems, of bs]] obtain s' d' where l: "decrypt_loop rd s1 (append_buf d bs) = Some (s', d')"
      "buffer_wf d'" "peek d' = peek (append_buf d bs) @ rest" "received s' = received s1" "taken s' = max (taken s1) (length (plain (received s1)))"
      unfolding tail by blast
    have "length (plain (received s)) = taken s + length bs + length rest"
    proof -
      have "length (plain (received s)) - taken s = length bs + length rest" using arg_cong [OF rest, of length] by simp
      moreover have "0 < length bs" using False by simp
      ultimately show ?thesis by linarith
    qed
    then show ?thesis using l r less.prems False unfolding rest
      by (subst decrypt_loop.simps) (simp add: e append_buf_peek)
  qed
qed

definition reader_ok :: "(string \<Rightarrow> string) \<Rightarrow> ('ssl \<Rightarrow> string) \<Rightarrow> ('ssl \<Rightarrow> nat) \<Rightarrow> string \<Rightarrow> 'ssl ssl_reader \<Rightarrow> bool" where
  "reader_ok plain received taken e r \<longleftrightarrow>
     buffer_wf (rd_input r) \<and> buffer_wf (decrypted r) \<and> peek (rd_input r) = [] \<and> received (session r) = e \<and> taken (session r) = length (plain e) \<and>
     consumed r @ peek (decrypted r) = plain e"

lemma ssl_receive_ok:
  assumes t: "tls_session plain received taken rd bw" and ok: "reader_ok plain received taken e r"
  shows "\<exists>r'. ssl_receive rd bw tk bs r = Some r' \<and> reader_ok plain received taken (e @ bs) r'"
proof (cases "bs = []")
  case False
  let ?in = "fst (read_fd (rd_input r) (Some bs))"
  have pin: "peek ?in = bs" "buffer_wf ?in" using ok by (simp_all add: reader_ok_def read_fd_peek read_fd_wf)
  then have rin: "readable ?in > 0" using False length_peek [of ?in] by (metis length_greater_0_conv)
  obtain s1 where bw: "bw bs (session r) = (length bs, s1)" and s1: "received s1 = e @ bs" "taken s1 = length (plain e)"
    using t ok unfolding tls_session_def reader_ok_def by (metis prod.collapse)
  obtain x where x: "plain (e @ bs) = plain e @ x" using t unfolding tls_session_def prefix_def by blast
  have wd: "buffer_wf (decrypted r)" using ok by (simp add: reader_ok_def)
  from decrypt_loop_reads [OF t wd, of s1] obtain s2 d2 where d: "decrypt_loop rd s1 (decrypted r) = Some (s2, d2)" "buffer_wf d2"
    "peek d2 = peek (decrypted r) @ x" "received s2 = e @ bs" "taken s2 = length (plain (e @ bs))"
    using s1 x by auto
  have "decrypt rd bw ?in (session r) (decrypted r) = Some (retrieve ?in (length bs), s2, d2)"
    using False rin pin(1) by (simp add: decrypt_def bw d(1))
  moreover have "consumed r @ peek d2 = plain (e @ bs)" using ok d(3) x by (simp add: reader_ok_def)
  ultimately show ?thesis using False pin d(2,4,5)
    by (auto simp: ssl_receive_def ssl_handle_message_def reader_ok_def Let_def retrieve_wf retrieve_peek)
qed (use ok in \<open>simp add: ssl_receive_def\<close>)


text \<open>A session whose records are pairs of bytes that stand for the first one.\<close>

fun pairs_plain :: "string \<Rightarrow> string" where
  "pairs_plain (a # b # xs) = a # pairs_plain xs"
| "pairs_plain _ = []"

definition pairs_read :: "nat \<Rightarrow> string \<times> nat \<Rightarrow> string \<times> (string \<times> nat)" where
  "pairs_read k s = (let bs = take (min 1 k) (drop (snd s) (pairs_plain (fst s))) in (bs, (fst s, snd s + length bs)))"

definition pairs_feed :: "string \<Rightarrow> string \<times> nat \<Rightarrow> nat \<times> (string \<times> nat)" where
  "pairs_feed bs s = (length bs, (fst s @ bs, snd s))"

lemma pairs_session: "tls_session pairs_plain fst snd pairs_read pairs_feed"
proof -
  have "prefix (pairs_plain x) (pairs_plain (x @ y))" for x y by (induction x rule: pairs_plain.induct) auto
  then show ?thesis by (auto simp: tls_session_def pairs_read_def pairs_feed_def take_is_prefix Let_def)
qed


text \<open>The loop of \<^verbatim>\<open>encrypt\<close> has no exit: it never returns, whatever the BIO holds.\<close>

partial_function (option) encrypt_loop :: "'ssl ssl_read \<Rightarrow> 'ssl \<Rightarrow> buffer \<Rightarrow> ('ssl \<times> buffer) option" where
  "encrypt_loop bio_read s d =
     (case bio_read filter_buf_size s of (bs, s') \<Rightarrow> encrypt_loop bio_read s' (if bs \<noteq> [] then append_buf d bs else d))"

lemma encrypt_never_returns: "encrypt_loop bio_read s d = None"
proof -
  have False if "encrypt_loop bio_read s d = Some r" for r
    by (rule encrypt_loop.raw_induct [OF _ that]) (auto split: prod.splits)
  then show ?thesis by (cases "encrypt_loop bio_read s d") auto
qed

end
