(* ===== verification/SslServer.thy ===== *)
theory SslServer
  imports Net
begin

text \<open>
  TLS handshakes of the server and the client (\<^verbatim>\<open>src/ssl/ssl_handshake.cc\<close>, \<^verbatim>\<open>ssl_server.cc\<close>, \<^verbatim>\<open>ssl_client.cc\<close>). A handshake owns the channel of an accepted or connected socket until
  \<^verbatim>\<open>SSL_do_handshake\<close> reports success; then the channel goes to a connection, which keeps the handshake object for its session. The answers of OpenSSL are arguments.

  The handlers of different loops are steps of one relation: the maps are not protected by a lock, so that the results hold for executions in which the handlers of different threads do
  not overlap.
\<close>

section \<open>Handshake\<close>

text \<open>The part of a channel that matters here; \<^verbatim>\<open>channel::add\<close> enables reading.\<close>

record tls_channel =
  chan_fd :: nat
  chan_reading :: bool
  chan_writing :: bool

record ssl_handshake =
  sh_channel :: "tls_channel option"
  sh_ssl :: bool

datatype hs_answer = HsOk | HsWantRead | HsWantWrite | HsError

datatype hs_event = SslFreed | RemovedChannel nat

definition ssl_handshake_new :: "tls_channel \<Rightarrow> ssl_handshake" where
  "ssl_handshake_new ch = \<lparr>sh_channel = Some ch, sh_ssl = False\<rparr>"

definition hs_shutdown :: "ssl_handshake \<Rightarrow> ssl_handshake \<times> hs_event list" where
  "hs_shutdown h =
     (\<lparr>sh_channel = None, sh_ssl = False\<rparr>,
      (if sh_ssl h then [SslFreed] else []) @ (case sh_channel h of None \<Rightarrow> [] | Some ch \<Rightarrow> [RemovedChannel (chan_fd ch)]))"

text \<open>What a call of \<^verbatim>\<open>handshake\<close> leads to; a null pointer is \<open>None\<close>. \<open>HsEstablished\<close>: \<^verbatim>\<open>onestablish\<close> gets the channel.\<close>

datatype hs_result = HsProgress ssl_handshake | HsEstablished tls_channel ssl_handshake | HsClosed ssl_handshake "hs_event list" | HsFailed ssl_handshake "hs_event list"

definition hs_handshake :: "bool \<Rightarrow> hs_answer \<Rightarrow> ssl_handshake \<Rightarrow> hs_result option" where
  "hs_handshake onestablish a h =
     (case sh_channel h of
        None \<Rightarrow> None
      | Some ch \<Rightarrow>
          if \<not> sh_ssl h then None
          else Some (case a of
             HsOk \<Rightarrow> if onestablish then HsEstablished ch (h\<lparr>sh_channel := None\<rparr>) else (case hs_shutdown h of (h', ev) \<Rightarrow> HsClosed h' ev)
           | HsWantRead \<Rightarrow> HsProgress (h\<lparr>sh_channel := Some (ch\<lparr>chan_reading := True, chan_writing := False\<rparr>)\<rparr>)
           | HsWantWrite \<Rightarrow> HsProgress (h\<lparr>sh_channel := Some (ch\<lparr>chan_writing := True, chan_reading := False\<rparr>)\<rparr>)
           | HsError \<Rightarrow> (case hs_shutdown h of (h', ev) \<Rightarrow> HsFailed h' ev)))"

section \<open>Server\<close>

text \<open>
  \<open>hs_tasks\<close>: the calls of \<^verbatim>\<open>start_handshake\<close> queued in the loops; \<open>hs_loop\<close>: the loop of each handshake; \<open>ssl_conns\<close>: the session and the channel of each
  connection; \<open>tls_fds\<close>: the open descriptors; \<open>hs_done\<close>: the descriptors whose handshakes succeeded, in this order.
\<close>

record ssl_server =
  srv :: server
  shmap :: "nat \<rightharpoonup> ssl_handshake"
  hs_tasks :: "nat list"
  hs_loop :: "nat \<Rightarrow> nat"
  ssl_conns :: "nat \<rightharpoonup> ssl_handshake \<times> tls_channel"
  tls_fds :: "nat set"
  hs_done :: "nat list"

definition ssl_server_new :: "nat \<Rightarrow> ssl_server" where
  "ssl_server_new n = \<lparr>srv = server_new n, shmap = Map.empty, hs_tasks = [], hs_loop = (\<lambda>_. 0), ssl_conns = Map.empty, tls_fds = {}, hs_done = []\<rparr>"

text \<open>\<^verbatim>\<open>create_connection\<close> with its \<^verbatim>\<open>Assert\<close>, called by \<^verbatim>\<open>server::establish\<close>.\<close>

definition ssl_create_connection :: "tls_channel \<Rightarrow> ssl_handshake \<Rightarrow> ssl_server \<Rightarrow> ssl_server option" where
  "ssl_create_connection ch h s =
     (case shmap s (chan_fd ch) of
        None \<Rightarrow> None
      | Some _ \<Rightarrow>
          Some (s\<lparr>shmap := (shmap s)(chan_fd ch := None), ssl_conns := (ssl_conns s)(next_conn (srv s) \<mapsto> (h, ch)),
            srv := server_establish (chan_fd ch) (hs_loop s (chan_fd ch)) (srv s), hs_done := hs_done s @ [chan_fd ch]\<rparr>))"

text \<open>A call of \<^verbatim>\<open>handshake\<close> for the entry of a descriptor.\<close>

definition ssl_handshake_event :: "nat \<Rightarrow> hs_answer \<Rightarrow> ssl_server \<Rightarrow> ssl_server option" where
  "ssl_handshake_event fd a s =
     (case shmap s fd of
        None \<Rightarrow> None
      | Some h \<Rightarrow>
          case hs_handshake True a h of
            None \<Rightarrow> None
          | Some (HsProgress h') \<Rightarrow> Some (s\<lparr>shmap := (shmap s)(fd \<mapsto> h')\<rparr>)
          | Some (HsEstablished ch h') \<Rightarrow> ssl_create_connection ch h' s
          | Some (HsClosed h' ev) \<Rightarrow> Some (s\<lparr>shmap := (shmap s)(fd \<mapsto> h'), tls_fds := tls_fds s - {fd}\<rparr>)
          | Some (HsFailed h' ev) \<Rightarrow> Some (s\<lparr>shmap := (shmap s)(fd := None), tls_fds := tls_fds s - {fd}\<rparr>))"

text \<open>
  \<^verbatim>\<open>establish\<close>: \<^verbatim>\<open>emplace\<close> keeps an entry that is already there and destroys the new object, which is then used: \<open>None\<close>. In the main loop \<^verbatim>\<open>run_in_loop\<close> starts the handshake
  at once.
\<close>

definition ssl_establish :: "nat \<Rightarrow> nat \<Rightarrow> hs_answer \<Rightarrow> ssl_server \<Rightarrow> ssl_server option" where
  "ssl_establish fd lp a s =
     (if shmap s fd \<noteq> None then None
      else
        let h = (ssl_handshake_new \<lparr>chan_fd = fd, chan_reading = True, chan_writing = False\<rparr>)\<lparr>sh_ssl := True\<rparr>;
            s1 = s\<lparr>shmap := (shmap s)(fd \<mapsto> h), hs_loop := (hs_loop s)(fd := lp)\<rparr>
        in if lp = 0 then ssl_handshake_event fd a s1 else Some (s1\<lparr>hs_tasks := hs_tasks s1 @ [fd]\<rparr>))"

definition ssl_accept :: "nat \<Rightarrow> hs_answer \<Rightarrow> ssl_server \<Rightarrow> ssl_server option" where
  "ssl_accept fd a s =
     (let (lp, v) = server_next_loop (srv s) in ssl_establish fd lp a (s\<lparr>srv := v, tls_fds := insert fd (tls_fds s)\<rparr>))"

definition ssl_start_task :: "nat \<Rightarrow> hs_answer \<Rightarrow> ssl_server \<Rightarrow> ssl_server option" where
  "ssl_start_task fd a s = ssl_handshake_event fd a (s\<lparr>hs_tasks := remove1 fd (hs_tasks s)\<rparr>)"

text \<open>A connection closes: its descriptor is closed, and \<^verbatim>\<open>remove_connection\<close> runs.\<close>

definition ssl_close :: "nat \<Rightarrow> ssl_server \<Rightarrow> ssl_server" where
  "ssl_close i s =
     (case connection_map (srv s) i of
        None \<Rightarrow> s
      | Some (fd, lp) \<Rightarrow> s\<lparr>srv := server_remove_connection i (srv s), tls_fds := tls_fds s - {fd}\<rparr>)"

inductive ssl_reach :: "nat \<Rightarrow> ssl_server \<Rightarrow> bool" for n :: nat where
  new: "ssl_reach n (ssl_server_new n)"
| accept: "\<lbrakk>ssl_reach n s; fd \<notin> tls_fds s; ssl_accept fd a s = Some s'\<rbrakk> \<Longrightarrow> ssl_reach n s'"
| task: "\<lbrakk>ssl_reach n s; fd \<in> set (hs_tasks s); ssl_start_task fd a s = Some s'\<rbrakk> \<Longrightarrow> ssl_reach n s'"
| event: "\<lbrakk>ssl_reach n s; shmap s fd \<noteq> None; fd \<notin> set (hs_tasks s); ssl_handshake_event fd a s = Some s'\<rbrakk> \<Longrightarrow> ssl_reach n s'"
| close: "\<lbrakk>ssl_reach n s; CloseHandler i \<notin> set (srv_log (srv s))\<rbrakk> \<Longrightarrow> ssl_reach n (ssl_close i s)"
| main: "ssl_reach n s \<Longrightarrow> ssl_reach n (s\<lparr>srv := server_main_task (srv s)\<rparr>)"

section \<open>Invariant\<close>

definition handshakes_ok :: "ssl_server \<Rightarrow> bool" where
  "handshakes_ok s \<longleftrightarrow> distinct (hs_tasks s) \<and> set (hs_tasks s) \<subseteq> dom (shmap s) \<and> dom (shmap s) \<subseteq> tls_fds s \<and>
     (\<forall>fd h. shmap s fd = Some h \<longrightarrow> sh_ssl h \<and> (\<exists>ch. sh_channel h = Some ch \<and> chan_fd ch = fd \<and> chan_reading ch \<noteq> chan_writing ch))"

definition is_open :: "ssl_server \<Rightarrow> nat \<Rightarrow> bool" where
  "is_open s i \<longleftrightarrow> connection_map (srv s) i \<noteq> None \<and> CloseHandler i \<notin> set (srv_log (srv s))"

definition conn_fd :: "ssl_server \<Rightarrow> nat \<Rightarrow> nat" where
  "conn_fd s i = hs_done s ! (i - 1)"

definition conns_ok :: "ssl_server \<Rightarrow> bool" where
  "conns_ok s \<longleftrightarrow> next_conn (srv s) = Suc (length (hs_done s)) \<and>
     (\<forall>i fd lp. connection_map (srv s) i = Some (fd, lp) \<longrightarrow> 0 < i \<and> i < next_conn (srv s) \<and> conn_fd s i = fd \<and>
        (\<exists>h ch. ssl_conns s i = Some (h, ch) \<and> sh_ssl h \<and> sh_channel h = None \<and> chan_fd ch = fd)) \<and>
     (\<forall>i. CloseHandler i \<in> set (srv_log (srv s)) \<longrightarrow> i < next_conn (srv s)) \<and>
     (\<forall>i. is_open s i \<longrightarrow> conn_fd s i \<in> tls_fds s - dom (shmap s)) \<and>
     (\<forall>i j. is_open s i \<longrightarrow> is_open s j \<longrightarrow> conn_fd s i = conn_fd s j \<longrightarrow> i = j)"

definition ssl_inv :: "ssl_server \<Rightarrow> bool" where
  "ssl_inv s \<longleftrightarrow> handshakes_ok s \<and> conns_ok s"

lemma open_fd: "conns_ok s \<Longrightarrow> is_open s i \<Longrightarrow> conn_fd s i \<in> tls_fds s - dom (shmap s)"
  unfolding conns_ok_def by blast

lemma conns_shrink:
  assumes ck: "conns_ok s" and m: "\<And>j y. connection_map (srv s') j = Some y \<Longrightarrow> connection_map (srv s) j = Some y"
    and n: "next_conn (srv s') = next_conn (srv s)" and l: "set (srv_log (srv s)) \<subseteq> set (srv_log (srv s'))"
    and cl: "\<And>i. CloseHandler i \<in> set (srv_log (srv s')) \<Longrightarrow> i < next_conn (srv s)"
    and e: "hs_done s' = hs_done s" "ssl_conns s' = ssl_conns s" and fds: "\<And>i. is_open s' i \<Longrightarrow> is_open s i \<Longrightarrow> conn_fd s i \<in> tls_fds s' - dom (shmap s')"
  shows "conns_ok s'"
proof -
  have o: "is_open s i" if "is_open s' i" for i using that m [of i] l by (auto simp: is_open_def)
  have f: "conn_fd s' = conn_fd s" using e by (simp add: conn_fd_def fun_eq_iff)
  show ?thesis
    unfolding conns_ok_def e n f
  proof (intro conjI allI impI)
    show "next_conn (srv s) = Suc (length (hs_done s))" using ck by (simp add: conns_ok_def)
    fix i fd lp assume "connection_map (srv s') i = Some (fd, lp)"
    from m [OF this] ck show "0 < i" "i < next_conn (srv s)" "conn_fd s i = fd"
      "\<exists>h ch. ssl_conns s i = Some (h, ch) \<and> sh_ssl h \<and> sh_channel h = None \<and> chan_fd ch = fd"
      unfolding conns_ok_def by blast+
  next
    fix i j assume "is_open s' i" "is_open s' j" "conn_fd s i = conn_fd s j"
    then show "i = j" using ck o unfolding conns_ok_def by blast
  qed (use cl fds o in blast)+
qed

lemma conns_frame:
  assumes "conns_ok s" and "connection_map (srv s') = connection_map (srv s)" "next_conn (srv s') = next_conn (srv s)" "srv_log (srv s') = srv_log (srv s)"
      "hs_done s' = hs_done s" "ssl_conns s' = ssl_conns s"
    and "\<And>i. is_open s i \<Longrightarrow> conn_fd s i \<in> tls_fds s' - dom (shmap s')"
  shows "conns_ok s'"
  by (rule conns_shrink [OF assms(1)]) (use assms in \<open>auto simp: conns_ok_def\<close>)

lemma ssl_create_connection_inv:
  assumes inv: "ssl_inv s" and h: "shmap s fd = Some h" and t: "fd \<notin> set (hs_tasks s)" and ch: "sh_channel h = Some ch" "chan_fd ch = fd"
  shows "\<exists>s'. ssl_create_connection ch (h\<lparr>sh_channel := None\<rparr>) s = Some s' \<and> ssl_inv s'"
proof -
  let ?i = "next_conn (srv s)"
  define s' where "s' = s\<lparr>shmap := (shmap s)(fd := None), ssl_conns := (ssl_conns s)(?i \<mapsto> (h\<lparr>sh_channel := None\<rparr>, ch)),
    srv := server_establish fd (hs_loop s fd) (srv s), hs_done := hs_done s @ [fd]\<rparr>"
  have c: "ssl_create_connection ch (h\<lparr>sh_channel := None\<rparr>) s = Some s'" using h ch(2) by (simp add: ssl_create_connection_def s'_def)
  have hk: "handshakes_ok s" and ck: "conns_ok s" using inv by (simp_all add: ssl_inv_def)
  have "handshakes_ok s'" using hk t unfolding handshakes_ok_def s'_def by auto
  moreover have "conns_ok s'"
  proof -
    have len: "?i = Suc (length (hs_done s))" using ck by (simp add: conns_ok_def)
    have ssl: "sh_ssl h" "fd \<in> tls_fds s" using hk h unfolding handshakes_ok_def by blast+
    have cm: "connection_map (srv s') = (connection_map (srv s))(?i \<mapsto> (fd, hs_loop s fd))" "next_conn (srv s') = Suc ?i"
      "\<And>i. CloseHandler i \<in> set (srv_log (srv s')) \<longleftrightarrow> CloseHandler i \<in> set (srv_log (srv s))"
      by (auto simp: s'_def server_establish_def)
    have cf: "conn_fd s' i = (if i = ?i then fd else conn_fd s i)" if "0 < i" "i \<le> ?i" for i
      using that len by (auto simp: conn_fd_def s'_def nth_append)
    have old: "0 < i \<and> i < ?i" if "connection_map (srv s) i \<noteq> None" for i using ck that unfolding conns_ok_def by (metis not_None_eq surj_pair)
    have op: "is_open s' i \<longleftrightarrow> i = ?i \<or> is_open s i" for i
      using ck len cm(1,3) unfolding is_open_def conns_ok_def by auto
    have fresh: "conn_fd s i \<noteq> fd" "conn_fd s i \<in> tls_fds s - dom (shmap s)" if "is_open s i" for i
      using ck that h unfolding conns_ok_def by (metis DiffD2 domI, blast)
    have opl: "0 < i \<and> i < ?i" if "is_open s i" for i using that old by (auto simp: is_open_def)
    have inj: "i = j" if "is_open s i" "is_open s j" "conn_fd s i = conn_fd s j" for i j using ck that unfolding conns_ok_def by blast
    show ?thesis
      unfolding conns_ok_def
    proof (intro conjI allI impI)
      show "next_conn (srv s') = Suc (length (hs_done s'))" using len cm(2) by (simp add: s'_def)
      fix i fd' lp assume m: "connection_map (srv s') i = Some (fd', lp)"
      then have ile: "0 < i" "i \<le> ?i" using old [of i] cm(1) len by (auto split: if_splits)
      show "0 < i" "i < next_conn (srv s')" using ile cm(2) by simp_all
      show "conn_fd s' i = fd'" using m cm(1) cf [OF ile] ck unfolding conns_ok_def by (auto split: if_splits)
      show "\<exists>h ch. ssl_conns s' i = Some (h, ch) \<and> sh_ssl h \<and> sh_channel h = None \<and> chan_fd ch = fd'"
        using m cm(1) ck ssl(1) ch(2) unfolding conns_ok_def by (auto simp: s'_def split: if_splits)
    next
      fix i assume "CloseHandler i \<in> set (srv_log (srv s'))"
      then show "i < next_conn (srv s')" using ck cm(2,3) unfolding conns_ok_def by (metis less_SucI)
    next
      fix i assume "is_open s' i"
      then show "conn_fd s' i \<in> tls_fds s' - dom (shmap s')"
        using op [of i] cf [of i] opl [of i] fresh(2) [of i] ssl(2) len by (auto simp: s'_def)
    next
      fix i j assume o: "is_open s' i" "is_open s' j" "conn_fd s' i = conn_fd s' j"
      have cfo: "conn_fd s' k = (if k = ?i then fd else conn_fd s k)" if "is_open s' k" for k
        using cf [of k] op [of k] opl [of k] that len by (metis less_imp_le order_refl zero_less_Suc)
      show "i = j" using o cfo [OF o(1)] cfo [OF o(2)] op [of i] op [of j] fresh(1) inj by metis
    qed
  qed
  ultimately show ?thesis using c by (auto simp: ssl_inv_def)
qed

lemma shmap_update_inv:
  assumes inv: "ssl_inv s" and h: "shmap s fd = Some h" and "sh_ssl h'" and "sh_channel h' = Some ch" and "chan_fd ch = fd" and "chan_reading ch \<noteq> chan_writing ch"
  shows "ssl_inv (s\<lparr>shmap := (shmap s)(fd \<mapsto> h')\<rparr>)"
proof -
  have d: "dom ((shmap s)(fd \<mapsto> h')) = dom (shmap s)" using h by auto
  have "handshakes_ok (s\<lparr>shmap := (shmap s)(fd \<mapsto> h')\<rparr>)" using assms d by (auto simp: ssl_inv_def handshakes_ok_def)
  moreover have ck: "conns_ok s" using inv by (simp add: ssl_inv_def)
  have "conns_ok (s\<lparr>shmap := (shmap s)(fd \<mapsto> h')\<rparr>)" by (rule conns_frame [OF ck]) (use open_fd [OF ck] d in auto)
  ultimately show ?thesis by (simp add: ssl_inv_def)
qed

lemma shmap_erase_inv:
  assumes inv: "ssl_inv s" and h: "shmap s fd = Some h" and t: "fd \<notin> set (hs_tasks s)"
  shows "ssl_inv (s\<lparr>shmap := (shmap s)(fd := None), tls_fds := tls_fds s - {fd}\<rparr>)"
proof -
  have ck: "conns_ok s" using inv by (simp add: ssl_inv_def)
  have "handshakes_ok (s\<lparr>shmap := (shmap s)(fd := None), tls_fds := tls_fds s - {fd}\<rparr>)"
    using inv t by (auto simp: ssl_inv_def handshakes_ok_def)
  moreover have "conns_ok (s\<lparr>shmap := (shmap s)(fd := None), tls_fds := tls_fds s - {fd}\<rparr>)"
    by (rule conns_frame [OF ck]) (use open_fd [OF ck] h in auto)
  ultimately show ?thesis by (simp add: ssl_inv_def)
qed

lemma ssl_handshake_event_inv:
  assumes inv: "ssl_inv s" and h: "shmap s fd \<noteq> None" and t: "fd \<notin> set (hs_tasks s)"
  shows "\<exists>s'. ssl_handshake_event fd a s = Some s' \<and> ssl_inv s'"
proof -
  obtain h where h: "shmap s fd = Some h" using h by blast
  then obtain ch where ch: "sh_ssl h" "sh_channel h = Some ch" "chan_fd ch = fd"
    using inv unfolding ssl_inv_def handshakes_ok_def by blast
  show ?thesis
  proof (cases a)
    case HsOk
    then show ?thesis using ssl_create_connection_inv [OF inv h t ch(2,3)] ch h by (simp add: ssl_handshake_event_def hs_handshake_def)
  next
    case HsWantRead
    then show ?thesis using ch h by (auto simp: ssl_handshake_event_def hs_handshake_def intro!: shmap_update_inv [OF inv])
  next
    case HsWantWrite
    then show ?thesis using ch h by (auto simp: ssl_handshake_event_def hs_handshake_def intro!: shmap_update_inv [OF inv])
  next
    case HsError
    then show ?thesis using ch h t by (auto simp: ssl_handshake_event_def hs_handshake_def hs_shutdown_def intro!: shmap_erase_inv [OF inv])
  qed
qed

lemma ssl_establish_inv:
  assumes inv: "ssl_inv s" and fd: "fd \<notin> tls_fds s"
  shows "\<exists>s'. ssl_establish fd lp a (s\<lparr>srv := (srv s)\<lparr>next_index := k\<rparr>, tls_fds := insert fd (tls_fds s)\<rparr>) = Some s' \<and> ssl_inv s'"
proof -
  let ?h = "(ssl_handshake_new \<lparr>chan_fd = fd, chan_reading = True, chan_writing = False\<rparr>)\<lparr>sh_ssl := True\<rparr>"
  have hk: "handshakes_ok s" and ck: "conns_ok s" using inv by (simp_all add: ssl_inv_def)
  have new: "shmap s fd = None" "fd \<notin> set (hs_tasks s)" using hk fd unfolding handshakes_ok_def by blast+
  define s1 where "s1 = s\<lparr>srv := (srv s)\<lparr>next_index := k\<rparr>, tls_fds := insert fd (tls_fds s), shmap := (shmap s)(fd \<mapsto> ?h), hs_loop := (hs_loop s)(fd := lp)\<rparr>"
  have "conns_ok s1" by (rule conns_frame [OF ck]) (use open_fd [OF ck] fd in \<open>auto simp: s1_def\<close>)
  moreover have "handshakes_ok s1" using hk new unfolding handshakes_ok_def s1_def by (auto simp: ssl_handshake_new_def)
  ultimately have i1: "ssl_inv s1" by (simp add: ssl_inv_def)
  have t1: "shmap s1 fd \<noteq> None" "fd \<notin> set (hs_tasks s1)" using new by (simp_all add: s1_def)
  have e: "ssl_establish fd lp a (s\<lparr>srv := (srv s)\<lparr>next_index := k\<rparr>, tls_fds := insert fd (tls_fds s)\<rparr>) =
      (if lp = 0 then ssl_handshake_event fd a s1 else Some (s1\<lparr>hs_tasks := hs_tasks s1 @ [fd]\<rparr>))"
    using new(1) by (simp add: ssl_establish_def s1_def Let_def)
  have "ssl_inv (s1\<lparr>hs_tasks := hs_tasks s1 @ [fd]\<rparr>)"
    using i1 t1 conns_frame [of s1 "s1\<lparr>hs_tasks := hs_tasks s1 @ [fd]\<rparr>"] open_fd [of s1] by (auto simp: ssl_inv_def handshakes_ok_def)
  then show ?thesis unfolding e using ssl_handshake_event_inv [OF i1 t1] by simp
qed

lemma ssl_accept_inv:
  assumes "ssl_inv s" and "fd \<notin> tls_fds s"
  shows "\<exists>s'. ssl_accept fd a s = Some s' \<and> ssl_inv s'"
proof -
  obtain k i where "get_next_loop (io_loops (srv s)) (next_index (srv s)) = (k, i)" by fastforce
  then have "\<exists>lp k. server_next_loop (srv s) = (lp, (srv s)\<lparr>next_index := k\<rparr>)"
    by (cases "io_loops (srv s) > 0") (auto simp: server_next_loop_def intro: exI [of _ "next_index (srv s)"])
  then obtain lp k where "server_next_loop (srv s) = (lp, (srv s)\<lparr>next_index := k\<rparr>)" by blast
  then show ?thesis using ssl_establish_inv [OF assms] by (simp add: ssl_accept_def)
qed

lemma ssl_start_task_inv:
  assumes inv: "ssl_inv s" and fd: "fd \<in> set (hs_tasks s)"
  shows "\<exists>s'. ssl_start_task fd a s = Some s' \<and> ssl_inv s'"
proof -
  let ?s = "s\<lparr>hs_tasks := remove1 fd (hs_tasks s)\<rparr>"
  have hk: "handshakes_ok s" and ck: "conns_ok s" using inv by (simp_all add: ssl_inv_def)
  have "conns_ok ?s" by (rule conns_frame [OF ck]) (use open_fd [OF ck] in auto)
  moreover have "handshakes_ok ?s" using hk unfolding handshakes_ok_def by (auto dest: notin_set_remove1 [THEN contrapos_pp])
  ultimately have "ssl_inv ?s" by (simp add: ssl_inv_def)
  moreover have "shmap ?s fd \<noteq> None" "fd \<notin> set (hs_tasks ?s)" using hk fd unfolding handshakes_ok_def by auto
  ultimately show ?thesis using ssl_handshake_event_inv unfolding ssl_start_task_def by blast
qed

lemma ssl_close_inv:
  assumes inv: "ssl_inv s" and i: "CloseHandler i \<notin> set (srv_log (srv s))"
  shows "ssl_inv (ssl_close i s)"
proof (cases "connection_map (srv s) i")
  case None
  then show ?thesis using inv by (simp add: ssl_close_def)
next
  case (Some x)
  obtain fd lp where x: "x = (fd, lp)" by fastforce
  let ?s = "ssl_close i s"
  have hk: "handshakes_ok s" and ck: "conns_ok s" using inv by (simp_all add: ssl_inv_def)
  have e: "shmap ?s = shmap s" "hs_tasks ?s = hs_tasks s" "ssl_conns ?s = ssl_conns s" "hs_done ?s = hs_done s" "tls_fds ?s = tls_fds s - {fd}"
    "next_conn (srv ?s) = next_conn (srv s)" "srv_log (srv ?s) = srv_log (srv s) @ [CloseHandler i]"
    "connection_map (srv ?s) = (if lp = 0 then (connection_map (srv s))(i := None) else connection_map (srv s))"
    using Some x by (simp_all add: ssl_close_def server_remove_connection_def server_erase_def Let_def)
  have o: "is_open ?s j \<longleftrightarrow> is_open s j \<and> j \<noteq> i" for j using e by (auto simp: is_open_def)
  have oi: "is_open s i" "conn_fd s i = fd" "i < next_conn (srv s)" using Some x i ck unfolding is_open_def conns_ok_def by auto
  then have "fd \<notin> dom (shmap s)" using open_fd [OF ck] by blast
  then have "handshakes_ok ?s" using hk unfolding handshakes_ok_def e by blast
  moreover have "conns_ok ?s"
  proof (rule conns_shrink [OF ck])
    fix j assume "is_open ?s j" "is_open s j"
    then have "j \<noteq> i" using o by blast
    then have "conn_fd s j \<noteq> fd" using oi \<open>is_open s j\<close> ck unfolding conns_ok_def by blast
    then show "conn_fd s j \<in> tls_fds ?s - dom (shmap ?s)" using open_fd [OF ck \<open>is_open s j\<close>] by (simp add: e)
  qed (use ck oi in \<open>auto simp: e conns_ok_def split: if_splits\<close>)
  ultimately show ?thesis by (simp add: ssl_inv_def)
qed

lemma ssl_main_inv:
  assumes inv: "ssl_inv s"
  shows "ssl_inv (s\<lparr>srv := server_main_task (srv s)\<rparr>)"
proof -
  let ?s = "s\<lparr>srv := server_main_task (srv s)\<rparr>"
  have hk: "handshakes_ok s" and ck: "conns_ok s" using inv by (simp_all add: ssl_inv_def)
  have m: "connection_map (srv ?s) j = Some y \<Longrightarrow> connection_map (srv s) j = Some y" for j y
    by (auto simp: server_main_task_def server_erase_def split: list.splits if_splits)
  have e: "next_conn (srv ?s) = next_conn (srv s)" "srv_log (srv ?s) = srv_log (srv s)"
    by (simp_all add: server_main_task_def server_erase_def split: list.split)
  have "conns_ok ?s"
    by (rule conns_shrink [OF ck m]) (use ck e open_fd [OF ck] in \<open>auto simp: conns_ok_def\<close>)
  moreover have "handshakes_ok ?s" using hk unfolding handshakes_ok_def by simp
  ultimately show ?thesis by (simp add: ssl_inv_def)
qed

lemma ssl_reach_inv: "ssl_reach n s \<Longrightarrow> ssl_inv s"
proof (induction rule: ssl_reach.induct)
  case new
  then show ?case by (simp add: ssl_inv_def handshakes_ok_def conns_ok_def is_open_def ssl_server_new_def server_new_def)
next
  case (accept s fd a s')
  then show ?case using ssl_accept_inv [of s fd a] by auto
next
  case (task s fd a s')
  then show ?case using ssl_start_task_inv [of s fd a] by auto
next
  case (event s fd a s')
  then show ?case using ssl_handshake_event_inv [of s fd a] by auto
qed (auto intro: ssl_close_inv ssl_main_inv)


text \<open>Two sockets are accepted by a server with one loop of the group; the second one completes its handshake first.\<close>

definition sample_ssl_server :: ssl_server where
  "sample_ssl_server = the (ssl_start_task 6 HsOk (the (ssl_start_task 5 HsWantRead (the (ssl_accept 6 HsOk (the (ssl_accept 5 HsOk (ssl_server_new 1))))))))"

lemma ssl_step_to_the:
  assumes "ssl_reach n s"
  shows "fd \<notin> tls_fds s \<Longrightarrow> \<not> Option.is_none (ssl_accept fd a s) \<Longrightarrow> ssl_reach n (the (ssl_accept fd a s))"
    and "fd \<in> set (hs_tasks s) \<Longrightarrow> \<not> Option.is_none (ssl_start_task fd a s) \<Longrightarrow> ssl_reach n (the (ssl_start_task fd a s))"
    and "\<not> Option.is_none (shmap s fd) \<Longrightarrow> fd \<notin> set (hs_tasks s) \<Longrightarrow> \<not> Option.is_none (ssl_handshake_event fd a s) \<Longrightarrow> ssl_reach n (the (ssl_handshake_event fd a s))"
  using assms by (auto simp: Option.is_none_def intro: ssl_reach.accept ssl_reach.task ssl_reach.event)

lemma sample_ssl_reach: "ssl_reach 1 sample_ssl_server"
proof -
  let ?s1 = "the (ssl_accept 5 HsOk (ssl_server_new 1))"
  have "ssl_reach 1 ?s1" by (rule ssl_step_to_the [OF ssl_reach.new]) code_simp+
  then have "ssl_reach 1 (the (ssl_accept 6 HsOk ?s1))" by (rule ssl_step_to_the) code_simp+
  then have "ssl_reach 1 (the (ssl_start_task 5 HsWantRead (the (ssl_accept 6 HsOk ?s1))))" by (rule ssl_step_to_the) code_simp+
  then show ?thesis unfolding sample_ssl_server_def by (rule ssl_step_to_the) code_simp+
qed


text \<open>
  Progress: a handshake that OpenSSL answers with success after any number of requests to wait becomes a connection.
\<close>

fun hs_events :: "nat \<Rightarrow> hs_answer list \<Rightarrow> ssl_server \<Rightarrow> ssl_server option" where
  "hs_events fd [] s = Some s"
| "hs_events fd (a # as) s = Option.bind (ssl_handshake_event fd a s) (hs_events fd as)"

lemma handshake_completes:
  assumes "ssl_inv s" and "shmap s fd \<noteq> None" and "fd \<notin> set (hs_tasks s)" and "\<forall>a \<in> set as. a = HsWantRead \<or> a = HsWantWrite"
  shows "\<exists>s'. hs_events fd (as @ [HsOk]) s = Some s' \<and> connection_map (srv s') (next_conn (srv s)) = Some (fd, hs_loop s fd) \<and> shmap s' fd = None"
  using assms
proof (induction as arbitrary: s)
  case Nil
  then obtain h where h: "shmap s fd = Some h" by blast
  then obtain ch where "sh_ssl h" "sh_channel h = Some ch" "chan_fd ch = fd" using Nil.prems(1) unfolding ssl_inv_def handshakes_ok_def by blast
  with h show ?case by (simp add: ssl_handshake_event_def hs_handshake_def ssl_create_connection_def server_establish_def)
next
  case (Cons a as)
  then obtain h where h: "shmap s fd = Some h" by blast
  then obtain ch where ch: "sh_ssl h" "sh_channel h = Some ch" using Cons.prems(1) unfolding ssl_inv_def handshakes_ok_def by blast
  obtain s1 where s1: "ssl_handshake_event fd a s = Some s1" "ssl_inv s1" using ssl_handshake_event_inv Cons.prems(1-3) by blast
  have "shmap s1 fd \<noteq> None \<and> hs_tasks s1 = hs_tasks s \<and> srv s1 = srv s \<and> hs_loop s1 = hs_loop s"
    using s1(1) h ch Cons.prems(4) by (auto simp: ssl_handshake_event_def hs_handshake_def)
  then show ?case using Cons.IH [OF s1(2)] Cons.prems(3,4) s1(1) by simp
qed

text \<open>
  The filters of the channel are handed on as the last answer left them: when the last one before success was \<^verbatim>\<open>SSL_ERROR_WANT_WRITE\<close>, the connection gets a channel that is
  not registered for reading, and nothing enables it again.
\<close>

lemma deaf_after_want_write:
  assumes "sh_ssl h" and "sh_channel h = Some ch"
  shows "\<exists>h1 ch2 h2. hs_handshake True HsWantWrite h = Some (HsProgress h1) \<and> hs_handshake True HsOk h1 = Some (HsEstablished ch2 h2) \<and> \<not> chan_reading ch2"
  using assms by (simp add: hs_handshake_def)

section \<open>Context of the server\<close>

text \<open>
  The settings are global strings. \<open>get_ssl_ctx\<close> makes the calls of OpenSSL in order; a failed one is logged as fatal, which raises \<^verbatim>\<open>SIGTERM\<close> and ends the process
  (\<open>Inl\<close> the call). \<open>works\<close> tells which calls succeed.
\<close>

record ssl_settings =
  cipher_list :: string
  cert_file :: string
  key_passwd :: string
  key_file :: string

datatype ctx_call = SetCipherList string | UseCertificateFile string | SetPasswd string | UsePrivateKeyFile string | CheckPrivateKey

definition set_cipher_list :: "string \<Rightarrow> ssl_settings \<Rightarrow> ssl_settings" where
  "set_cipher_list x c = c\<lparr>cipher_list := x\<rparr>"

definition set_certificate_file :: "string \<Rightarrow> ssl_settings \<Rightarrow> ssl_settings" where
  "set_certificate_file x c = c\<lparr>cert_file := x\<rparr>"

definition set_private_key_passwd :: "string \<Rightarrow> ssl_settings \<Rightarrow> ssl_settings" where
  "set_private_key_passwd x c = c\<lparr>key_passwd := x\<rparr>"

definition set_private_key_file :: "string \<Rightarrow> ssl_settings \<Rightarrow> ssl_settings" where
  "set_private_key_file x c = c\<lparr>key_file := x\<rparr>"

definition ctx_calls :: "ssl_settings \<Rightarrow> ctx_call list" where
  "ctx_calls c =
     (if cipher_list c \<noteq> [] then [SetCipherList (cipher_list c)] else []) @
     [UseCertificateFile (cert_file c), SetPasswd (key_passwd c), UsePrivateKeyFile (key_file c), CheckPrivateKey]"

fun checked :: "ctx_call \<Rightarrow> bool" where
  "checked (SetPasswd _) = False"
| "checked _ = True"

fun run_ctx_calls :: "(ctx_call \<Rightarrow> bool) \<Rightarrow> ctx_call list \<Rightarrow> ctx_call list \<Rightarrow> ctx_call + ctx_call list" where
  "run_ctx_calls works done [] = Inr done"
| "run_ctx_calls works done (x # xs) = (if checked x \<and> \<not> works x then Inl x else run_ctx_calls works (done @ [x]) xs)"

text \<open>One context for each thread, made at its first use.\<close>

definition get_ssl_ctx :: "(ctx_call \<Rightarrow> bool) \<Rightarrow> ssl_settings \<Rightarrow> ctx_call list option \<Rightarrow> ctx_call + ctx_call list" where
  "get_ssl_ctx works c ctx = (case ctx of Some x \<Rightarrow> Inr x | None \<Rightarrow> run_ctx_calls works [] (ctx_calls c))"

lemma run_ctx_calls_Inr: "run_ctx_calls works acc xs = Inr ys \<longleftrightarrow> ys = acc @ xs \<and> (\<forall>x \<in> set xs. checked x \<longrightarrow> works x)"
  by (induction works acc xs rule: run_ctx_calls.induct) auto

text \<open>A context is only used when certificate and key were loaded and fit together.\<close>

lemma get_ssl_ctx_ready:
  assumes "get_ssl_ctx works c None = Inr ctx"
  shows "works (UseCertificateFile (cert_file c)) \<and> works (UsePrivateKeyFile (key_file c)) \<and> works CheckPrivateKey \<and> last ctx = CheckPrivateKey"
  using assms by (auto simp: get_ssl_ctx_def run_ctx_calls_Inr ctx_calls_def)

section \<open>Client\<close>

text \<open>\<open>cl_sh\<close> is the \<^verbatim>\<open>unique_ptr\<close>; \<open>cl_conn\<close> the session and channel of the established connection; \<open>cl_failures\<close> counts the calls of \<^verbatim>\<open>connection_failure_handler\<close>.\<close>

record ssl_client =
  cl_sh :: "ssl_handshake option"
  cl_conn :: "(ssl_handshake \<times> tls_channel) option"
  cl_failures :: nat

definition ssl_client_event :: "hs_answer \<Rightarrow> ssl_client \<Rightarrow> ssl_client option" where
  "ssl_client_event a c =
     (case cl_sh c of
        None \<Rightarrow> None
      | Some h \<Rightarrow>
          case hs_handshake True a h of
            None \<Rightarrow> None
          | Some (HsProgress h') \<Rightarrow> Some (c\<lparr>cl_sh := Some h'\<rparr>)
          | Some (HsEstablished ch h') \<Rightarrow> Some (c\<lparr>cl_sh := None, cl_conn := Some (h', ch)\<rparr>)
          | Some (HsClosed h' ev) \<Rightarrow> Some (c\<lparr>cl_sh := Some h'\<rparr>)
          | Some (HsFailed h' ev) \<Rightarrow> Some (c\<lparr>cl_sh := Some h', cl_failures := cl_failures c + 1\<rparr>))"

definition ssl_client_establish :: "nat \<Rightarrow> hs_answer \<Rightarrow> ssl_client \<Rightarrow> ssl_client option" where
  "ssl_client_establish fd a c =
     ssl_client_event a (c\<lparr>cl_sh := Some ((ssl_handshake_new \<lparr>chan_fd = fd, chan_reading = True, chan_writing = False\<rparr>)\<lparr>sh_ssl := True\<rparr>)\<rparr>)"

fun ssl_client_events :: "hs_answer list \<Rightarrow> ssl_client \<Rightarrow> ssl_client option" where
  "ssl_client_events [] c = Some c"
| "ssl_client_events (a # as) c = Option.bind (ssl_client_event a c) (ssl_client_events as)"

text \<open>After any number of requests to wait the client is connected or has been told of the failure, exactly once.\<close>

lemma ssl_client_outcome:
  assumes "cl_sh c = Some h" "sh_ssl h" "sh_channel h \<noteq> None" "\<forall>a \<in> set as. a = HsWantRead \<or> a = HsWantWrite"
  shows "\<exists>h' ch. ssl_client_events (as @ [HsOk]) c = Some (c\<lparr>cl_sh := None, cl_conn := Some (h', ch)\<rparr>) \<and> sh_ssl h' \<and> sh_channel h' = None"
    and "\<exists>h'. ssl_client_events (as @ [HsError]) c = Some (c\<lparr>cl_sh := Some h', cl_failures := cl_failures c + 1\<rparr>) \<and> \<not> sh_ssl h' \<and> sh_channel h' = None"
proof -
  have "\<exists>h1. ssl_client_events (as @ bs) c = ssl_client_events bs (c\<lparr>cl_sh := Some h1\<rparr>) \<and> sh_ssl h1 \<and> sh_channel h1 \<noteq> None" for bs
    using assms
  proof (induction as arbitrary: c h)
    case Nil
    then have "c\<lparr>cl_sh := Some h\<rparr> = c" by simp
    then show ?case using Nil by (metis append_Nil)
  next
    case (Cons a as)
    then obtain ch where ch: "sh_channel h = Some ch" by blast
    obtain h1 where "ssl_client_event a c = Some (c\<lparr>cl_sh := Some h1\<rparr>)" "sh_ssl h1" "sh_channel h1 \<noteq> None"
      using Cons.prems ch by (auto simp: ssl_client_event_def hs_handshake_def)
    then show ?case using Cons.IH [of "c\<lparr>cl_sh := Some h1\<rparr>" h1] Cons.prems(4) by simp
  qed
  note wait = this
  show "\<exists>h' ch. ssl_client_events (as @ [HsOk]) c = Some (c\<lparr>cl_sh := None, cl_conn := Some (h', ch)\<rparr>) \<and> sh_ssl h' \<and> sh_channel h' = None"
  proof -
    obtain h1 ch where h1: "ssl_client_events (as @ [HsOk]) c = ssl_client_events [HsOk] (c\<lparr>cl_sh := Some h1\<rparr>)" "sh_ssl h1" "sh_channel h1 = Some ch"
      using wait [of "[HsOk]"] by blast
    then show ?thesis
      by (intro exI [of _ "h1\<lparr>sh_channel := None\<rparr>"] exI [of _ ch]) (simp add: ssl_client_event_def hs_handshake_def)
  qed
  show "\<exists>h'. ssl_client_events (as @ [HsError]) c = Some (c\<lparr>cl_sh := Some h', cl_failures := cl_failures c + 1\<rparr>) \<and> \<not> sh_ssl h' \<and> sh_channel h' = None"
    using wait [of "[HsError]"] by (auto simp: ssl_client_event_def hs_handshake_def hs_shutdown_def)
qed

end
