(* ===== verification/LoopThread.thy ===== *)
theory LoopThread
  imports Evloop
begin

text \<open>
  A loop in a thread of its own (\<^verbatim>\<open>include/angel/evloop_thread.h\<close>): the constructor starts the thread and waits until its loop exists, \<^verbatim>\<open>join\<close> ends both. The owner and the thread are
  two programs whose steps are interleaved. \<^verbatim>\<open>run\<close> returns only after \<^verbatim>\<open>quit\<close>, and then it does return (theory Evloop, \<open>quit_ends_run\<close>).
\<close>

datatype owner_pc = Construct | WaitBarrier | Ready | CallQuit | JoinThread | Joined

datatype thread_pc = NotStarted | MakeLoop | PublishLoop | SetBarrier | RunLoop | ClearLoop | DestroyLoop | Exited

text \<open>\<open>loop_ptr\<close> is that the member \<^verbatim>\<open>loop\<close> is not null, \<open>loop_exists\<close> that the object on the stack of the thread lives; \<open>crashed\<close>: a call through a null or dangling pointer.\<close>

record loop_thread =
  owner :: owner_pc
  thread_at :: thread_pc
  loop_ptr :: bool
  loop_exists :: bool
  barrier :: bool
  quit_asked :: bool
  crashed :: bool

definition loop_thread_new :: loop_thread where
  "loop_thread_new = \<lparr>owner = Construct, thread_at = NotStarted, loop_ptr = False, loop_exists = False, barrier = False, quit_asked = False, crashed = False\<rparr>"

text \<open>A step of the owner; \<open>None\<close> when it is blocked or done. In \<open>Ready\<close> the next step is the first test of \<^verbatim>\<open>join\<close>.\<close>

fun owner_step :: "loop_thread \<Rightarrow> loop_thread option" where
  "owner_step s =
     (case owner s of
        Construct \<Rightarrow> Some (s\<lparr>owner := WaitBarrier, thread_at := MakeLoop\<rparr>)
      | WaitBarrier \<Rightarrow> if barrier s then Some (s\<lparr>owner := Ready\<rparr>) else None
      | Ready \<Rightarrow> Some (s\<lparr>owner := (if loop_ptr s then CallQuit else JoinThread)\<rparr>)
      | CallQuit \<Rightarrow> Some (if loop_ptr s \<and> loop_exists s then s\<lparr>owner := JoinThread, quit_asked := True\<rparr> else s\<lparr>owner := JoinThread, crashed := True\<rparr>)
      | JoinThread \<Rightarrow> if thread_at s = Exited then Some (s\<lparr>owner := Joined\<rparr>) else None
      | Joined \<Rightarrow> None)"

text \<open>A step of the thread.\<close>

fun thread_step :: "loop_thread \<Rightarrow> loop_thread option" where
  "thread_step s =
     (case thread_at s of
        NotStarted \<Rightarrow> None
      | MakeLoop \<Rightarrow> Some (s\<lparr>thread_at := PublishLoop, loop_exists := True\<rparr>)
      | PublishLoop \<Rightarrow> Some (s\<lparr>thread_at := SetBarrier, loop_ptr := True\<rparr>)
      | SetBarrier \<Rightarrow> Some (s\<lparr>thread_at := RunLoop, barrier := True\<rparr>)
      | RunLoop \<Rightarrow> if quit_asked s then Some (s\<lparr>thread_at := ClearLoop\<rparr>) else None
      | ClearLoop \<Rightarrow> Some (s\<lparr>thread_at := DestroyLoop, loop_ptr := False\<rparr>)
      | DestroyLoop \<Rightarrow> Some (s\<lparr>thread_at := Exited, loop_exists := False\<rparr>)
      | Exited \<Rightarrow> None)"

definition get_loop :: "loop_thread \<Rightarrow> bool" where
  "get_loop s = loop_ptr s"

text \<open>\<open>others\<close>: a task of the loop or another thread may call \<^verbatim>\<open>quit\<close> of the loop too.\<close>

inductive thread_reach :: "bool \<Rightarrow> loop_thread \<Rightarrow> bool" for others :: bool where
  new: "thread_reach others loop_thread_new"
| owner: "thread_reach others s \<Longrightarrow> owner_step s = Some s' \<Longrightarrow> thread_reach others s'"
| thread: "thread_reach others s \<Longrightarrow> thread_step s = Some s' \<Longrightarrow> thread_reach others s'"
| quit: "thread_reach others s \<Longrightarrow> others \<Longrightarrow> thread_at s = RunLoop \<Longrightarrow> thread_reach others (s\<lparr>quit_asked := True\<rparr>)"

declare owner_step.simps [simp del] thread_step.simps [simp del]

section \<open>Life cycle\<close>

fun opos :: "owner_pc \<Rightarrow> nat" where
  "opos Construct = 0" | "opos WaitBarrier = 1" | "opos Ready = 2" | "opos CallQuit = 3" | "opos JoinThread = 4" | "opos Joined = 5"

fun tpos :: "thread_pc \<Rightarrow> nat" where
  "tpos NotStarted = 0" | "tpos MakeLoop = 1" | "tpos PublishLoop = 2" | "tpos SetBarrier = 3" | "tpos RunLoop = 4" | "tpos ClearLoop = 5" | "tpos DestroyLoop = 6" | "tpos Exited = 7"

definition thread_inv :: "loop_thread \<Rightarrow> bool" where
  "thread_inv s \<longleftrightarrow>
     (owner s = Construct \<longleftrightarrow> thread_at s = NotStarted) \<and> loop_ptr s = (thread_at s \<in> {SetBarrier, RunLoop, ClearLoop}) \<and>
     loop_exists s = (thread_at s \<in> {PublishLoop, SetBarrier, RunLoop, ClearLoop, DestroyLoop}) \<and> barrier s = (tpos (thread_at s) \<ge> 4) \<and>
     (opos (owner s) \<ge> 2 \<longrightarrow> barrier s) \<and> (tpos (thread_at s) \<ge> 5 \<longrightarrow> quit_asked s) \<and> (quit_asked s \<longrightarrow> barrier s) \<and>
     (owner s = JoinThread \<longrightarrow> quit_asked s \<or> crashed s) \<and> (owner s = Joined \<longrightarrow> thread_at s = Exited)"

lemma owner_step_inv: "thread_inv s \<Longrightarrow> owner_step s = Some s' \<Longrightarrow> thread_inv s'"
  by (cases "owner s"; cases "thread_at s") (auto simp: thread_inv_def owner_step.simps split: if_splits)

lemma thread_step_inv: "thread_inv s \<Longrightarrow> thread_step s = Some s' \<Longrightarrow> thread_inv s'"
  by (cases "owner s"; cases "thread_at s") (auto simp: thread_inv_def thread_step.simps split: if_splits)

lemma thread_reach_inv: "thread_reach others s \<Longrightarrow> thread_inv s"
proof (induction rule: thread_reach.induct)
  case new
  then show ?case by (simp add: thread_inv_def loop_thread_new_def)
next
  case (quit s)
  then show ?case by (auto simp: thread_inv_def)
qed (auto intro: owner_step_inv thread_step_inv)

text \<open>Without other calls of \<^verbatim>\<open>quit\<close> the loop runs until \<^verbatim>\<open>join\<close> asks it to end.\<close>

lemma own_quit_only: "thread_reach False s \<Longrightarrow> \<not> crashed s \<and> (quit_asked s \<longrightarrow> opos (owner s) \<ge> 4)"
proof (induction rule: thread_reach.induct)
  case (owner s s')
  have "thread_inv s" using thread_reach_inv owner.hyps(1) by blast
  with owner show ?case
    by (cases "owner s"; cases "thread_at s") (auto simp: thread_inv_def owner_step.simps split: if_splits)
next
  case (thread s s')
  then show ?case by (cases "thread_at s") (auto simp: thread_step.simps split: if_splits)
qed (auto simp: loop_thread_new_def)


definition constructed :: loop_thread where
  "constructed = the (owner_step (the (thread_step (the (thread_step (the (thread_step (the (owner_step loop_thread_new)))))))))"

lemma constructed_reach: "thread_reach others constructed"
proof -
  have "thread_reach others (the (owner_step loop_thread_new))" by (rule owner [OF new]) (simp add: owner_step.simps loop_thread_new_def)
  then have "thread_reach others (the (thread_step (the (owner_step loop_thread_new))))"
    by (rule thread) (simp add: owner_step.simps thread_step.simps loop_thread_new_def)
  then have "thread_reach others (the (thread_step (the (thread_step (the (owner_step loop_thread_new))))))"
    by (rule thread) (simp add: owner_step.simps thread_step.simps loop_thread_new_def)
  then have "thread_reach others (the (thread_step (the (thread_step (the (thread_step (the (owner_step loop_thread_new))))))))"
    by (rule thread) (simp add: owner_step.simps thread_step.simps loop_thread_new_def)
  then show ?thesis unfolding constructed_def by (rule owner) (simp add: owner_step.simps thread_step.simps loop_thread_new_def)
qed


text \<open>
  When the loop is ended from somewhere else, \<^verbatim>\<open>join\<close> may find the pointer set and call through it after the thread has cleared it.
\<close>

lemma join_race: "\<exists>s. thread_reach True s \<and> crashed s"
proof -
  let ?s = "constructed\<lparr>quit_asked := True\<rparr>"
  have "thread_reach True ?s" by (rule quit [OF constructed_reach]) (simp_all add: constructed_def owner_step.simps thread_step.simps loop_thread_new_def)
  then have "thread_reach True (?s\<lparr>owner := CallQuit\<rparr>)"
    by (rule owner) (simp add: constructed_def owner_step.simps thread_step.simps loop_thread_new_def)
  then have "thread_reach True (?s\<lparr>owner := CallQuit, thread_at := ClearLoop\<rparr>)"
    by (rule thread) (simp add: constructed_def owner_step.simps thread_step.simps loop_thread_new_def)
  then have "thread_reach True (?s\<lparr>owner := CallQuit, thread_at := DestroyLoop, loop_ptr := False\<rparr>)"
    by (rule thread) (simp add: constructed_def owner_step.simps thread_step.simps loop_thread_new_def)
  then have "thread_reach True (?s\<lparr>owner := JoinThread, thread_at := DestroyLoop, loop_ptr := False, crashed := True\<rparr>)"
    by (rule owner) (simp add: constructed_def owner_step.simps thread_step.simps loop_thread_new_def)
  then show ?thesis by force
qed

end
