(* ===== verification/Sockops.thy ===== *)
theory Sockops
  imports Inet
begin

text \<open>
  Wrappers of the socket calls (\<^verbatim>\<open>src/sockops.cc\<close>) and the listening socket (\<^verbatim>\<open>listener_t::listen\<close>, \<^verbatim>\<open>src/listener.cc\<close>), as they are compiled for Linux. The kernel's side of the
  sockets is the record \<open>kernel\<close>; which calls succeed is the argument \<open>works\<close>. \<^verbatim>\<open>log_fatal\<close> raises \<^verbatim>\<open>SIGTERM\<close> and ends the process: \<open>Inl\<close> the call. \<^verbatim>\<open>log_error\<close> only
  logs.
\<close>

section \<open>Socket calls\<close>

datatype sockopt = SO_REUSEADDR | SO_REUSEPORT | TCP_NODELAY | SO_KEEPALIVE | TCP_KEEPIDLE | TCP_KEEPINTVL | TCP_KEEPCNT

datatype sock_call = SockCall string | BindCall sockaddr | ListenCall int | SetOpt sockopt int | PairCall | GetSockName | GetPeerName | GetSockErr | GetHostName

record ksock =
  k_proto :: string
  k_bound :: "sockaddr option"
  k_backlog :: "int option"
  k_nonblock :: bool
  k_opts :: "sockopt \<rightharpoonup> int"

record kernel =
  socks :: "nat \<rightharpoonup> ksock"
  logged_errors :: "sock_call list"

type_synonym works = "sock_call \<Rightarrow> bool"

definition on_sock :: "nat \<Rightarrow> (ksock \<Rightarrow> ksock) \<Rightarrow> kernel \<Rightarrow> kernel" where
  "on_sock fd f k = k\<lparr>socks := (socks k)(fd := map_option f (socks k fd))\<rparr>"

definition sock_socket :: "works \<Rightarrow> string \<Rightarrow> nat \<Rightarrow> kernel \<Rightarrow> sock_call + kernel" where
  "sock_socket works protocol fd k =
     (if protocol \<noteq> ''tcp'' \<and> protocol \<noteq> ''udp'' \<or> \<not> works (SockCall protocol) then Inl (SockCall protocol)
      else Inr (k\<lparr>socks := (socks k)(fd \<mapsto> \<lparr>k_proto = protocol, k_bound = None, k_backlog = None, k_nonblock = False, k_opts = Map.empty\<rparr>)\<rparr>))"

definition sock_bind :: "works \<Rightarrow> nat \<Rightarrow> sockaddr \<Rightarrow> kernel \<Rightarrow> sock_call + kernel" where
  "sock_bind works fd addr k = (if works (BindCall addr) then Inr (on_sock fd (\<lambda>s. s\<lparr>k_bound := Some addr\<rparr>) k) else Inl (BindCall addr))"

definition listen_backlog :: int where
  "listen_backlog = 1024"

definition sock_listen :: "works \<Rightarrow> nat \<Rightarrow> kernel \<Rightarrow> sock_call + kernel" where
  "sock_listen works fd k =
     (if works (ListenCall listen_backlog) then Inr (on_sock fd (\<lambda>s. s\<lparr>k_backlog := Some listen_backlog\<rparr>) k) else Inl (ListenCall listen_backlog))"

definition sock_pair :: "works \<Rightarrow> nat \<times> nat \<Rightarrow> kernel \<Rightarrow> sock_call + kernel" where
  "sock_pair works p k =
     (if works PairCall then
        let s = \<lparr>k_proto = ''local'', k_bound = None, k_backlog = None, k_nonblock = False, k_opts = Map.empty\<rparr>
        in Inr (k\<lparr>socks := (socks k)(fst p \<mapsto> s, snd p \<mapsto> s)\<rparr>)
      else Inl PairCall)"

definition set_nonblock :: "nat \<Rightarrow> kernel \<Rightarrow> kernel" where
  "set_nonblock fd k = on_sock fd (\<lambda>s. s\<lparr>k_nonblock := True\<rparr>) k"

definition set_sockopt :: "works \<Rightarrow> nat \<Rightarrow> sockopt \<Rightarrow> int \<Rightarrow> kernel \<Rightarrow> kernel" where
  "set_sockopt works fd opt v k =
     (if works (SetOpt opt v) then on_sock fd (\<lambda>s. s\<lparr>k_opts := (k_opts s)(opt \<mapsto> v)\<rparr>) k
      else k\<lparr>logged_errors := logged_errors k @ [SetOpt opt v]\<rparr>)"

definition on_off :: "bool \<Rightarrow> int" where
  "on_off on = (if on then 1 else 0)"

definition set_reuseaddr :: "works \<Rightarrow> nat \<Rightarrow> bool \<Rightarrow> kernel \<Rightarrow> kernel" where
  "set_reuseaddr works fd on = set_sockopt works fd SO_REUSEADDR (on_off on)"

definition set_reuseport :: "works \<Rightarrow> nat \<Rightarrow> bool \<Rightarrow> kernel \<Rightarrow> kernel" where
  "set_reuseport works fd on = set_sockopt works fd SO_REUSEPORT (on_off on)"

definition set_nodelay :: "works \<Rightarrow> nat \<Rightarrow> bool \<Rightarrow> kernel \<Rightarrow> kernel" where
  "set_nodelay works fd on = set_sockopt works fd TCP_NODELAY (on_off on)"

definition set_keepalive :: "works \<Rightarrow> nat \<Rightarrow> bool \<Rightarrow> kernel \<Rightarrow> kernel" where
  "set_keepalive works fd on = set_sockopt works fd SO_KEEPALIVE (on_off on)"

definition set_keepalive_idle :: "works \<Rightarrow> nat \<Rightarrow> int \<Rightarrow> kernel \<Rightarrow> kernel" where
  "set_keepalive_idle works fd idle k = (if idle \<le> 0 then k else set_sockopt works fd TCP_KEEPIDLE idle k)"

definition set_keepalive_intvl :: "works \<Rightarrow> nat \<Rightarrow> int \<Rightarrow> kernel \<Rightarrow> kernel" where
  "set_keepalive_intvl works fd intvl k = (if intvl \<le> 0 then k else set_sockopt works fd TCP_KEEPINTVL intvl k)"

definition set_keepalive_probes :: "works \<Rightarrow> nat \<Rightarrow> int \<Rightarrow> kernel \<Rightarrow> kernel" where
  "set_keepalive_probes works fd probes k = (if probes \<le> 0 then k else set_sockopt works fd TCP_KEEPCNT probes k)"

text \<open>The queries: the zeroed address when the call fails. \<^verbatim>\<open>get_socket_error\<close> returns a variable that a failed call leaves uninitialised, \<open>None\<close>.\<close>

definition zero_addr :: sockaddr where
  "zero_addr = \<lparr>sin_port = [NUL, NUL], sin_addr = [0, 0, 0, 0]\<rparr>"

definition get_local_addr :: "works \<Rightarrow> sockaddr \<Rightarrow> kernel \<Rightarrow> sockaddr \<times> kernel" where
  "get_local_addr works addr k = (if works GetSockName then (addr, k) else (zero_addr, k\<lparr>logged_errors := logged_errors k @ [GetSockName]\<rparr>))"

definition get_peer_addr :: "works \<Rightarrow> sockaddr \<Rightarrow> kernel \<Rightarrow> sockaddr \<times> kernel" where
  "get_peer_addr works addr k = (if works GetPeerName then (addr, k) else (zero_addr, k\<lparr>logged_errors := logged_errors k @ [GetPeerName]\<rparr>))"

definition get_socket_error :: "works \<Rightarrow> int \<Rightarrow> kernel \<Rightarrow> int option \<times> kernel" where
  "get_socket_error works err k = (if works GetSockErr then (Some err, k) else (None, k\<lparr>logged_errors := logged_errors k @ [GetSockErr]\<rparr>))"

definition get_host_name :: "works \<Rightarrow> string \<Rightarrow> kernel \<Rightarrow> string option \<times> kernel" where
  "get_host_name works name k = (if works GetHostName then (Some name, k) else (None, k\<lparr>logged_errors := logged_errors k @ [GetHostName]\<rparr>))"

section \<open>The listening socket\<close>

text \<open>Options as \<^verbatim>\<open>listener.h\<close> initialises them; \<open>listen_channel\<close> is the descriptor of the channel, registered for reading.\<close>

record listen_options =
  nodelay :: bool
  keepalive :: bool
  keepalive_idle :: int
  keepalive_intvl :: int
  keepalive_probes :: int

definition listen_options_new :: listen_options where
  "listen_options_new = \<lparr>nodelay = False, keepalive = True, keepalive_idle = 0, keepalive_intvl = 0, keepalive_probes = 0\<rparr>"

definition server_set_nodelay :: "bool \<Rightarrow> listen_options \<Rightarrow> listen_options" where
  "server_set_nodelay on l = l\<lparr>nodelay := on\<rparr>"

definition server_set_keepalive :: "bool \<Rightarrow> listen_options \<Rightarrow> listen_options" where
  "server_set_keepalive on l = l\<lparr>keepalive := on\<rparr>"

definition server_set_keepalive_idle :: "int \<Rightarrow> listen_options \<Rightarrow> listen_options" where
  "server_set_keepalive_idle idle l = l\<lparr>keepalive_idle := idle\<rparr>"

definition server_set_keepalive_intvl :: "int \<Rightarrow> listen_options \<Rightarrow> listen_options" where
  "server_set_keepalive_intvl intvl l = l\<lparr>keepalive_intvl := intvl\<rparr>"

definition server_set_keepalive_probes :: "int \<Rightarrow> listen_options \<Rightarrow> listen_options" where
  "server_set_keepalive_probes probes l = l\<lparr>keepalive_probes := probes\<rparr>"

definition listener_listen :: "works \<Rightarrow> nat \<Rightarrow> sockaddr \<Rightarrow> listen_options \<Rightarrow> kernel \<Rightarrow> sock_call + (kernel \<times> nat)" where
  "listener_listen works fd addr l k =
     (case sock_socket works ''tcp'' fd k of
        Inl e \<Rightarrow> Inl e
      | Inr k0 \<Rightarrow>
          let k1 = set_reuseaddr works fd True k0;
              k2 = set_nodelay works fd (nodelay l) k1;
              k3 = set_keepalive works fd (keepalive l) k2;
              k4 = set_keepalive_idle works fd (keepalive_idle l) k3;
              k5 = set_keepalive_intvl works fd (keepalive_intvl l) k4;
              k6 = set_keepalive_probes works fd (keepalive_probes l) k5;
              k7 = set_nonblock fd k6
          in case sock_bind works fd addr k7 of
               Inl e \<Rightarrow> Inl e
             | Inr k8 \<Rightarrow> (case sock_listen works fd k8 of Inl e \<Rightarrow> Inl e | Inr k9 \<Rightarrow> Inr (k9, fd)))"

section \<open>What the listening socket is\<close>

text \<open>The option calls in their order, and the ones of them that are made.\<close>

definition wanted_opts :: "listen_options \<Rightarrow> (sockopt \<times> int) list" where
  "wanted_opts l =
     [(SO_REUSEADDR, 1), (TCP_NODELAY, on_off (nodelay l)), (SO_KEEPALIVE, on_off (keepalive l))] @
     filter (\<lambda>(q, v). 0 < v) [(TCP_KEEPIDLE, keepalive_idle l), (TCP_KEEPINTVL, keepalive_intvl l), (TCP_KEEPCNT, keepalive_probes l)]"

lemma option_calls:
  "set_keepalive_probes works fd (keepalive_probes l) (set_keepalive_intvl works fd (keepalive_intvl l) (set_keepalive_idle works fd (keepalive_idle l)
     (set_keepalive works fd (keepalive l) (set_nodelay works fd (nodelay l) (set_reuseaddr works fd True k))))) =
   fold (\<lambda>(q, v). set_sockopt works fd q v) (wanted_opts l) k"
  by (simp add: wanted_opts_def set_keepalive_probes_def set_keepalive_intvl_def set_keepalive_idle_def set_keepalive_def set_nodelay_def set_reuseaddr_def on_off_def)

lemma fold_sockopts:
  assumes "socks k fd = Some s"
  shows "\<exists>k'. fold (\<lambda>(q, v). set_sockopt works fd q v) ovs k = k' \<and>
    socks k' = (socks k)(fd \<mapsto> s\<lparr>k_opts := k_opts s ++ map_of (rev (filter (\<lambda>(q, v). works (SetOpt q v)) ovs))\<rparr>) \<and>
    logged_errors k' = logged_errors k @ map (\<lambda>(q, v). SetOpt q v) (filter (\<lambda>(q, v). \<not> works (SetOpt q v)) ovs)"
  using assms
proof (induction ovs arbitrary: k s)
  case Nil
  then show ?case by (auto simp: fun_upd_idem_iff)
next
  case (Cons x ovs)
  obtain q v where x: "x = (q, v)" by fastforce
  show ?case
  proof (cases "works (SetOpt q v)")
    case True
    let ?k = "set_sockopt works fd q v k"
    have s1: "socks ?k = (socks k)(fd \<mapsto> s\<lparr>k_opts := (k_opts s)(q \<mapsto> v)\<rparr>)" "logged_errors ?k = logged_errors k"
      using True Cons.prems by (simp_all add: set_sockopt_def on_sock_def)
    then have "socks ?k fd = Some (s\<lparr>k_opts := (k_opts s)(q \<mapsto> v)\<rparr>)" by simp
    from Cons.IH [OF this] show ?thesis using True s1 by (simp add: x map_add_def fun_eq_iff split: option.split)
  next
    case False
    then have "socks (set_sockopt works fd q v k) fd = Some s" using Cons.prems by (simp add: set_sockopt_def)
    from Cons.IH [OF this] show ?thesis using False by (simp add: x set_sockopt_def)
  qed
qed


lemma listener_fails: "listener_listen works fd addr l k = Inl e \<Longrightarrow> \<not> works e"
  by (auto simp: listener_listen_def sock_socket_def sock_bind_def sock_listen_def Let_def split: if_splits)

lemma listener_channel: "listener_listen works fd addr l k = Inr (k', ch) \<Longrightarrow> ch = fd"
  by (auto simp: listener_listen_def sock_socket_def sock_bind_def sock_listen_def Let_def split: if_splits sum.splits)

section \<open>Sending files\<close>

text \<open>
  \<^verbatim>\<open>sendfile\<close>: \<open>rc\<close> and \<open>sent\<close> are the results of the call (on macOS the number of bytes is returned in \<^verbatim>\<open>count\<close>), \<open>transient\<close> that the error is \<^verbatim>\<open>EAGAIN\<close> or \<^verbatim>\<open>EINTR\<close>.
\<close>

definition sendfile_apple :: "int \<Rightarrow> bool \<Rightarrow> int \<Rightarrow> int" where
  "sendfile_apple rc transient sent = (if rc = -1 \<and> \<not> transient then -1 else sent)"

definition sendfile_linux :: "int \<Rightarrow> int" where
  "sendfile_linux rc = rc"

text \<open>Where Linux reports a full socket as an error, macOS reports the bytes sent before it was full; the connection treats both as an attempt to be repeated.\<close>

lemma sendfile_variants: "0 \<le> sent \<Longrightarrow> sendfile_apple rc transient sent < 0 \<longleftrightarrow> rc = -1 \<and> \<not> transient"
  by (simp add: sendfile_apple_def)

end
