(* ===== verification/HttpSetup.thy ===== *)
theory HttpSetup
  imports HttpServer Connection Sockops
begin

text \<open>
  The configuration of the HTTP server (\<^verbatim>\<open>http_server\<close> in \<^verbatim>\<open>src/httplib/httplib.cc\<close>): its constructor, the registration of handlers, and what a new connection gets. The tables are
  \<^verbatim>\<open>unordered_map\<close>s filled with \<^verbatim>\<open>emplace\<close>, which keeps an entry that is already there.
\<close>

section \<open>Configuration\<close>

record http_setup =
  site :: http_server
  idle_time :: int
  io_threads :: "nat option"
  listen_opts :: listen_options

definition emplace :: "'k \<Rightarrow> 'v \<Rightarrow> ('k \<rightharpoonup> 'v) \<Rightarrow> ('k \<rightharpoonup> 'v)" where
  "emplace k v t = (case t k of None \<Rightarrow> t(k \<mapsto> v) | Some _ \<Rightarrow> t)"

definition set_idle :: "int \<Rightarrow> http_setup \<Rightarrow> http_setup" where
  "set_idle secs s = (if secs \<le> 0 then s else s\<lparr>idle_time := secs\<rparr>)"

definition set_parallel :: "nat \<Rightarrow> http_setup \<Rightarrow> http_setup" where
  "set_parallel n s = (if n = 0 then s else s\<lparr>io_threads := Some n\<rparr>)"

definition generate_file_etag_by :: "string \<Rightarrow> http_setup \<Rightarrow> http_setup" where
  "generate_file_etag_by way s = s\<lparr>site := (site s)\<lparr>generate_file_etag_by_sha1 := (way = ''sha1'')\<rparr>\<rparr>"

text \<open>\<open>sys\<close> is a server with the parts that come from the system; its tables are replaced by empty ones.\<close>

definition http_server_new :: "http_server \<Rightarrow> http_setup" where
  "http_server_new sys =
     set_idle 30 \<lparr>site = set_base_dir ''.'' (sys\<lparr>router := (\<lambda>_. None), file_table := Map.empty\<rparr>), idle_time = 0, io_threads = None, listen_opts = listen_options_new\<rparr>"

definition add_route :: "Method \<Rightarrow> string \<Rightarrow> server_handler \<Rightarrow> http_setup \<Rightarrow> http_setup" where
  "add_route m p h s =
     (let r = router (site s); t = (case r m of None \<Rightarrow> Map.empty | Some t \<Rightarrow> t)
      in s\<lparr>site := (site s)\<lparr>router := r(m \<mapsto> emplace p h t)\<rparr>\<rparr>)"

definition http_get :: "string \<Rightarrow> server_handler \<Rightarrow> http_setup \<Rightarrow> http_setup" where
  "http_get p h s = add_route GET p h s"

definition http_post :: "string \<Rightarrow> server_handler \<Rightarrow> http_setup \<Rightarrow> http_setup" where
  "http_post p h s = add_route POST p h s"

definition file_key :: "string \<Rightarrow> string \<Rightarrow> string" where
  "file_key dir p = dir @ p @ (if p = ''/'' then ''index.html'' else [])"

definition http_file :: "string \<Rightarrow> file_handler \<Rightarrow> http_setup \<Rightarrow> http_setup" where
  "http_file p h s = s\<lparr>site := (site s)\<lparr>file_table := emplace (file_key (base_dir (site s)) p) h (file_table (site s))\<rparr>\<rparr>"

definition http_start :: "http_setup \<Rightarrow> http_setup" where
  "http_start s = s\<lparr>listen_opts := server_set_keepalive True (server_set_nodelay True (listen_opts s))\<rparr>"

text \<open>The connection handler: \<^verbatim>\<open>idle_time * 1000\<close> is a product of \<^verbatim>\<open>int\<close>s, an overflow is undefined.\<close>

definition http_on_connect :: "int \<Rightarrow> http_setup \<Rightarrow> 'h conn \<Rightarrow> 'h conn option" where
  "http_on_connect now s c = (if idle_time s * 1000 < 2 ^ 31 then Some (Connection.set_ttl now (idle_time s * 1000) c) else None)"

section \<open>Sequences of registrations\<close>

datatype setup_op = RegGet string server_handler | RegPost string server_handler | RegFile string file_handler | BaseDir string | Idle int | Parallel nat | EtagBy string

fun setup_exec :: "setup_op \<Rightarrow> http_setup \<Rightarrow> http_setup" where
  "setup_exec (RegGet p h) s = http_get p h s"
| "setup_exec (RegPost p h) s = http_post p h s"
| "setup_exec (RegFile p h) s = http_file p h s"
| "setup_exec (BaseDir d) s = s\<lparr>site := set_base_dir d (site s)\<rparr>"
| "setup_exec (Idle n) s = set_idle n s"
| "setup_exec (Parallel n) s = set_parallel n s"
| "setup_exec (EtagBy w) s = generate_file_etag_by w s"

fun gets :: "setup_op list \<Rightarrow> (string \<times> server_handler) list" where
  "gets [] = []"
| "gets (RegGet p h # ops) = (p, h) # gets ops"
| "gets (_ # ops) = gets ops"

fun posts :: "setup_op list \<Rightarrow> (string \<times> server_handler) list" where
  "posts [] = []"
| "posts (RegPost p h # ops) = (p, h) # posts ops"
| "posts (_ # ops) = posts ops"

text \<open>The files, with the directory that is set when they are registered.\<close>

fun reg_files :: "string \<Rightarrow> setup_op list \<Rightarrow> (string \<times> file_handler) list" where
  "reg_files d [] = []"
| "reg_files d (RegFile p h # ops) = (file_key d p, h) # reg_files d ops"
| "reg_files d (BaseDir e # ops) = reg_files (if e \<noteq> [] \<and> last e = CHR ''/'' then butlast e else e) ops"
| "reg_files d (_ # ops) = reg_files d ops"

lemma map_of_emplace: "map_of xs ++ emplace k v t = (map_of xs)(k \<mapsto> v) ++ t"
  by (rule ext) (simp add: emplace_def map_add_def split: option.split)

lemma emplace_first: "emplace k v t = [k \<mapsto> v] ++ t"
  using map_of_emplace [of "[]"] by simp

lemma router_fold:
  "router (site (fold setup_exec ops s)) GET =
     (if gets ops = [] then router (site s) GET else Some (map_of (gets ops) ++ (case router (site s) GET of None \<Rightarrow> Map.empty | Some t \<Rightarrow> t)))"
  "router (site (fold setup_exec ops s)) POST =
     (if posts ops = [] then router (site s) POST else Some (map_of (posts ops) ++ (case router (site s) POST of None \<Rightarrow> Map.empty | Some t \<Rightarrow> t)))"
  by (induction ops arbitrary: s rule: gets.induct)
    (simp_all add: http_get_def http_post_def add_route_def http_file_def set_base_dir_def set_idle_def set_parallel_def generate_file_etag_by_def Let_def
      map_of_emplace emplace_first split: option.split)

lemma file_table_fold:
  "file_table (site (fold setup_exec ops s)) = map_of (reg_files (base_dir (site s)) ops) ++ file_table (site s)"
  by (induction ops arbitrary: s rule: gets.induct)
    (simp_all add: http_get_def http_post_def add_route_def http_file_def set_base_dir_def set_idle_def set_parallel_def generate_file_etag_by_def Let_def
      map_of_emplace)

lemma http_server_new_site:
  "router (site (http_server_new sys)) = (\<lambda>_. None)" "file_table (site (http_server_new sys)) = Map.empty" "base_dir (site (http_server_new sys)) = ''.''"
  by (simp_all add: http_server_new_def set_idle_def set_base_dir_def)

text \<open>
  C39. After any sequence of registrations a request is routed to the first handler that was registered for its path: a \<^verbatim>\<open>GET\<close> without one to the static files, a \<^verbatim>\<open>POST\<close>
  without one to nothing, and when no handler was registered for the method at all the look-up throws. The handler of a static file is the first one registered for its path while
  the directory in which it is found was set.
\<close>

theorem handlers_registered:
  fixes ops sys
  defines "srv \<equiv> site (fold setup_exec ops (http_server_new sys))"
  shows "route_request srv (req\<lparr>req_method := GET\<rparr>) res w =
      (if gets ops = [] then Inl NoSuchKey
       else case map_of (gets ops) (abs_path req) of
              Some h \<Rightarrow> Inr (req\<lparr>req_method := GET\<rparr>, h (req\<lparr>req_method := GET\<rparr>) res, w)
            | None \<Rightarrow> handle_static_file_request srv (req\<lparr>req_method := GET\<rparr>) res w) \<and>
    route_request srv (req\<lparr>req_method := POST\<rparr>) res w =
      (if posts ops = [] then Inl NoSuchKey
       else case map_of (posts ops) (abs_path req) of
              Some h \<Rightarrow> Inr (req\<lparr>req_method := POST\<rparr>, h (req\<lparr>req_method := POST\<rparr>) res, w)
            | None \<Rightarrow> Inr (req\<lparr>req_method := POST\<rparr>, res, w)) \<and>
    handle_file_router srv (req\<lparr>abs_path := file_key (base_dir srv) p\<rparr>) res =
      (case map_of (reg_files ''.'' ops) (file_key (base_dir srv) p) of
         Some h \<Rightarrow> res\<lparr>res_headers := h (req\<lparr>abs_path := file_key (base_dir srv) p\<rparr>) (res_headers res)\<rparr>
       | None \<Rightarrow> res)"
proof (intro conjI)
  have g: "router srv GET = (if gets ops = [] then None else Some (map_of (gets ops)))" "router srv POST = (if posts ops = [] then None else Some (map_of (posts ops)))"
    unfolding srv_def by (simp_all add: router_fold http_server_new_site)
  have f: "file_table srv = map_of (reg_files ''.'' ops)" unfolding srv_def by (simp add: file_table_fold http_server_new_site)
  show "route_request srv (req\<lparr>req_method := GET\<rparr>) res w =
      (if gets ops = [] then Inl NoSuchKey
       else case map_of (gets ops) (abs_path req) of
              Some h \<Rightarrow> Inr (req\<lparr>req_method := GET\<rparr>, h (req\<lparr>req_method := GET\<rparr>) res, w)
            | None \<Rightarrow> handle_static_file_request srv (req\<lparr>req_method := GET\<rparr>) res w)"
    by (simp add: route_request_def handle_user_router_def g split: option.split)
  show "route_request srv (req\<lparr>req_method := POST\<rparr>) res w =
      (if posts ops = [] then Inl NoSuchKey
       else case map_of (posts ops) (abs_path req) of
              Some h \<Rightarrow> Inr (req\<lparr>req_method := POST\<rparr>, h (req\<lparr>req_method := POST\<rparr>) res, w)
            | None \<Rightarrow> Inr (req\<lparr>req_method := POST\<rparr>, res, w))"
    by (simp add: route_request_def handle_user_router_def g split: option.split)
  show "handle_file_router srv (req\<lparr>abs_path := file_key (base_dir srv) p\<rparr>) res =
      (case map_of (reg_files ''.'' ops) (file_key (base_dir srv) p) of
         Some h \<Rightarrow> res\<lparr>res_headers := h (req\<lparr>abs_path := file_key (base_dir srv) p\<rparr>) (res_headers res)\<rparr>
       | None \<Rightarrow> res)"
    by (simp add: handle_file_router_def f)
qed

text \<open>Files registered before the directory is changed are not found any more.\<close>

lemma file_before_base_dir:
  "file_table (site (fold setup_exec [RegFile ''/a'' h, BaseDir ''/srv/''] (http_server_new sys))) (file_key ''/srv'' ''/a'') = None"
  unfolding file_table_fold by (simp add: http_server_new_site file_key_def)

text \<open>Every connection gets an idle time, as long as the product does not overflow.\<close>

lemma idle_always_positive: "0 < idle_time s \<Longrightarrow> 0 < idle_time (setup_exec op s)"
  by (cases op) (simp_all add: http_get_def http_post_def add_route_def http_file_def set_idle_def set_parallel_def generate_file_etag_by_def Let_def)

lemma idle_time_positive: "0 < idle_time (fold setup_exec ops (http_server_new sys))"
proof -
  have "0 < idle_time s \<Longrightarrow> 0 < idle_time (fold setup_exec ops s)" for s
    by (induction ops arbitrary: s) (simp_all add: idle_always_positive)
  then show ?thesis by (simp add: http_server_new_def set_idle_def)
qed

lemma idle_overflow: "idle_time s = 2147484 \<Longrightarrow> http_on_connect now s c = None"
  by (simp add: http_on_connect_def)

end
