(* ===== verification/Service.thy ===== *)
theory Service
  imports Net ThreadPool Signal Logger Sockops SysUtil
begin

text \<open>
  A server from \<^verbatim>\<open>start\<close> to \<^verbatim>\<open>quit\<close> (\<^verbatim>\<open>src/server.cc\<close>) and the remaining operations of server and client: threads, tasks, signals, the listening socket and the end of the loop, put
  together from the theories of these parts.
\<close>

section \<open>Server\<close>

datatype service_handler = CleanUp

record service =
  sv_server :: server
  sv_options :: listen_options
  sv_pool :: "nat tpool option"
  sv_signals :: "service_handler signaler"
  sv_logger :: logger
  sv_loop :: "nat evloop"
  sv_kernel :: kernel
  sv_listening :: "nat option"

definition SIGINT :: nat where "SIGINT = 2"

definition SIGPIPE :: nat where "SIGPIPE = 13"

definition SIGTERM :: nat where "SIGTERM = 15"

definition start_io_threads :: "nat \<Rightarrow> nat \<Rightarrow> service \<Rightarrow> service" where
  "start_io_threads ncpus n s = s\<lparr>sv_server := (sv_server s)\<lparr>io_loops := (if n > 0 then n else ncpus), next_index := 0\<rparr>\<rparr>"

definition start_task_threads :: "nat \<Rightarrow> nat \<Rightarrow> tp_policy \<Rightarrow> service \<Rightarrow> service" where
  "start_task_threads ncpus n pol s = s\<lparr>sv_pool := Some (thread_pool_new pol (if n > 0 then n else ncpus))\<rparr>"

text \<open>Without a pool the task is dropped.\<close>

definition service_executor :: "nat \<Rightarrow> service \<Rightarrow> service option" where
  "service_executor task s =
     (case sv_pool s of
        None \<Rightarrow> Some s
      | Some p \<Rightarrow> map_option (\<lambda>p'. s\<lparr>sv_pool := Some p'\<rparr>) (executor task p))"

definition service_quit :: "service \<Rightarrow> service" where
  "service_quit s = s\<lparr>sv_loop := Evloop.quit (sv_loop s)\<rparr>"

definition clean_up :: "service \<Rightarrow> service" where
  "clean_up s = service_quit (s\<lparr>sv_logger := quit_log (sv_logger s)\<rparr>)"

definition handle_signals :: "bool \<Rightarrow> service \<Rightarrow> service option" where
  "handle_signals same s =
     Option.bind (ignore_signal same SIGPIPE (sv_signals s)) (\<lambda>g1.
     Option.bind (snd (add_signal same SIGINT CleanUp g1)) (\<lambda>g2.
     Option.bind (snd (add_signal same SIGTERM CleanUp g2)) (\<lambda>g3. Some (s\<lparr>sv_signals := g3\<rparr>))))"

text \<open>\<^verbatim>\<open>start\<close>: \<open>Inl\<close> the socket call that ends the process.\<close>

definition service_start :: "works \<Rightarrow> bool \<Rightarrow> nat \<Rightarrow> sockaddr \<Rightarrow> service \<Rightarrow> sock_call + service option" where
  "service_start works same fd addr s =
     (case handle_signals same s of
        None \<Rightarrow> Inr None
      | Some s1 \<Rightarrow>
          (case listener_listen works fd addr (sv_options s1) (sv_kernel s1) of
             Inl e \<Rightarrow> Inl e
           | Inr (k, ch) \<Rightarrow> Inr (Some (s1\<lparr>sv_kernel := k, sv_listening := Some ch\<rparr>))))"

text \<open>\<^verbatim>\<open>daemon\<close>: the thread of the logger does not survive \<^verbatim>\<open>fork\<close>, so it is ended before and started again after it. \<open>opened\<close> and \<open>tm\<close> are for the new log file.\<close>

definition service_daemon :: "int \<Rightarrow> (daemon_call \<Rightarrow> bool) \<Rightarrow> nat \<Rightarrow> bool \<Rightarrow> tm \<Rightarrow> logger \<Rightarrow> daemon_end + logger option" where
  "service_daemon fork works fd opened tm lg =
     (case daemon fork works fd of Inl e \<Rightarrow> Inl e | Inr calls \<Rightarrow> Inr (restart_log opened tm (quit_log lg)))"

definition get_connection_nums :: "service \<Rightarrow> nat" where
  "get_connection_nums s = card (dom (connection_map (sv_server s)))"

text \<open>\<open>order\<close> is the order in which the table lists its keys.\<close>

definition for_each :: "nat list \<Rightarrow> (nat \<times> nat \<Rightarrow> 'a \<Rightarrow> 'a) \<Rightarrow> service \<Rightarrow> 'a \<Rightarrow> 'a" where
  "for_each order f s x = fold (\<lambda>i. case connection_map (sv_server s) i of None \<Rightarrow> id | Some c \<Rightarrow> f c) order x"

section \<open>Signals end the server\<close>

text \<open>The handlers that the signaler has called are run by the loop.\<close>

definition run_handlers :: "service \<Rightarrow> service" where
  "run_handlers s = fold (\<lambda>(signo, h). case h of CleanUp \<Rightarrow> clean_up) (sig_calls (sv_signals s)) (s\<lparr>sv_signals := (sv_signals s)\<lparr>sig_calls := []\<rparr>\<rparr>)"

lemma handle_signals_fresh:
  assumes "sv_signals s = signaler_new"
  obtains g where "handle_signals True s = Some (s\<lparr>sv_signals := g\<rparr>)" "disposition g SIGPIPE = SigIgn" "disposition g SIGINT = SigHandler" "disposition g SIGTERM = SigHandler"
    "sig_map g SIGINT = Some [(0, CleanUp)]" "sig_map g SIGTERM = Some [(1, CleanUp)]" "sig_pair g = []" "sig_calls g = []"
  using that assms
  by (simp add: handle_signals_def ignore_signal_def add_signal_def in_sig_loop_def ignore_signal_in_loop_def add_signal_in_loop_def set_sigaction_def signaler_new_def
      SIGINT_def SIGPIPE_def SIGTERM_def Let_def)

lemma quit_quits: "quitting (Evloop.quit l)"
  by (simp add: quitting_def Evloop.quit_def wakeup_def)


definition sample_service :: service where
  "sample_service =
     \<lparr>sv_server = server_new 0, sv_options = listen_options_new, sv_pool = None, sv_signals = signaler_new,
      sv_logger = the (logger_new True \<lparr>tm_year = 124, tm_mon = 0, tm_mday = 1, tm_hour = 0, tm_min = 0, tm_sec = 0\<rparr>),
      sv_loop = evloop_new 3, sv_kernel = \<lparr>socks = Map.empty, logged_errors = []\<rparr>, sv_listening = None\<rparr>"


text \<open>A daemon goes on with a logger that runs, or it has ended.\<close>

lemma service_daemon_logger:
  assumes "service_daemon fork works fd opened tm lg = Inr (Some lg')"
  shows "fork = 0 \<and> restart_log opened tm (quit_log lg) = Some lg'"
  using assms by (auto simp: service_daemon_def dest: daemon_detached split: sum.splits)

text \<open>Tasks given to a server with a pool are queued in order; one without a pool drops them.\<close>

lemma service_executor_queues:
  assumes "sv_pool s = Some p" and "tstate p = Running" and "workers p \<noteq> []"
  shows "\<exists>p'. service_executor task s = Some (s\<lparr>sv_pool := Some p'\<rparr>) \<and> task_queue p' = task_queue p @ [task]"
  using assms by (auto simp: service_executor_def executor_def add_new_worker_def Let_def)

lemma start_task_threads_ready:
  assumes "0 < n \<or> 0 < ncpus"
  shows "\<exists>p. sv_pool (start_task_threads ncpus n pol s) = Some p \<and> tstate p = Running \<and> workers p \<noteq> []"
proof -
  have "workers ((add_new_worker ^^ k) p) = workers p @ replicate k Top \<and> tstate ((add_new_worker ^^ k) p) = tstate p" for k and p :: "nat tpool"
    by (induction k) (simp_all add: add_new_worker_def replicate_append_same)
  then show ?thesis using assms by (auto simp: start_task_threads_def thread_pool_new_def)
qed

text \<open>The visitor sees every connection of the table once.\<close>

lemma for_each_visits:
  assumes "distinct order" and "set order = dom (connection_map (sv_server s))"
  shows "for_each order (\<lambda>c acc. acc @ [c]) s [] = map (\<lambda>i. the (connection_map (sv_server s) i)) order"
proof -
  have "fold (\<lambda>i. case connection_map (sv_server s) i of None \<Rightarrow> id | Some c \<Rightarrow> (\<lambda>acc. acc @ [c])) is acc = acc @ map (\<lambda>i. the (connection_map (sv_server s) i)) is"
    if "set is \<subseteq> dom (connection_map (sv_server s))" for "is" and acc :: "(nat \<times> nat) list"
    using that by (induction "is" arbitrary: acc) auto
  then show ?thesis using assms by (simp add: for_each_def)
qed

section \<open>Client\<close>

definition set_connection_timeout_handler :: "int \<Rightarrow> client \<Rightarrow> client" where
  "set_connection_timeout_handler ms c = (if ms \<le> 0 then c else c\<lparr>timeout_ms := Some ms\<rparr>)"

definition is_connected :: "client \<Rightarrow> bool" where
  "is_connected c = connected c"

text \<open>\<^verbatim>\<open>conn()\<close> with its \<^verbatim>\<open>Assert\<close>.\<close>

definition client_conn :: "client \<Rightarrow> nat option option" where
  "client_conn c = (if is_connected c then Some (cli_conn c) else None)"

text \<open>In the connection handler the connection is there.\<close>

lemma conn_after_establish: "client_conn (client_establish c) = Some (Some (next_cid c))"
  by (simp add: client_conn_def is_connected_def client_establish_def logged_def cancel_connection_timeout_timer_def)

text \<open>A client with a timeout that is not positive never times out.\<close>

lemma no_timeout: "ms \<le> 0 \<Longrightarrow> timeout_ms c = None \<Longrightarrow> add_connection_timeout_timer (set_connection_timeout_handler ms c) = c"
  by (simp add: set_connection_timeout_handler_def add_connection_timeout_timer_def)

end
